(* ===== verification/CPrelude.thy ===== *)
theory CPrelude
  imports Main "HOL-Library.Word"
begin

text \<open>
  The prelude of the development: the C integer types as words, the ways a C program
  can stop (\<open>c_error\<close>), results that carry such a stop, counted \<open>for\<close> loops over an
  explicit state, and arrays whose accesses are checked against their length. An
  access outside an array, a shift by at least the width of the shifted value, a read
  of an uninitialised cell and a call of \<open>exit\<close> are all values of the model, so that a
  theorem that an operation returns \<open>Inr\<close> is also a theorem that none of them happens.
  \<open>No_return\<close> is the value of a loop that has not ended within the fuel it was given.
\<close>

unbundle bit_operations_syntax

section \<open>Machine integers\<close>

type_synonym uint8 = "8 word"
type_synonym uint16 = "16 word"
type_synonym uint32 = "32 word"
type_synonym uint64 = "64 word"
type_synonym int32 = "32 word"

section \<open>Results that may stop the program\<close>

datatype c_error =
    Exit_failure
  | Out_of_bounds
  | Undefined_shift
  | Null_deref
  | Uninit_read
  | Alloc_failure
  | Div_by_zero
  | No_return

type_synonym 'a cres = "c_error + 'a"

definition cbind :: "'a cres \<Rightarrow> ('a \<Rightarrow> 'b cres) \<Rightarrow> 'b cres" where
  "cbind m f = (case m of Inl e \<Rightarrow> Inl e | Inr x \<Rightarrow> f x)"

named_theorems c_defs \<open>definitions to unfold when a concrete run is evaluated\<close>

lemma cbind_Inr [simp]: "cbind (Inr x) f = f x"
  by (simp add: cbind_def)

lemma cbind_Inl [simp]: "cbind (Inl e) f = Inl e"
  by (simp add: cbind_def)

lemma cbind_Inr_right [simp]: "cbind m Inr = m"
  by (simp add: cbind_def split: sum.splits)

lemma cbind_eq_Inr_iff: "cbind m f = Inr y \<longleftrightarrow> (\<exists>x. m = Inr x \<and> f x = Inr y)"
  by (cases m) auto

lemma cbind_assoc: "cbind (cbind m f) g = cbind m (\<lambda>x. cbind (f x) g)"
  by (cases m) auto

lemma cbind_cong [fundef_cong]:
  "m = m' \<Longrightarrow> (\<And>x. m' = Inr x \<Longrightarrow> f x = f' x) \<Longrightarrow> cbind m f = cbind m' f'"
  by (cases m') auto

section \<open>Counted loops\<close>

primrec c_iter :: "'i list \<Rightarrow> ('i \<Rightarrow> 's \<Rightarrow> 's cres) \<Rightarrow> 's \<Rightarrow> 's cres" where
  "c_iter [] body s = Inr s"
| "c_iter (i # is) body s = cbind (body i s) (c_iter is body)"

definition c_for :: "nat \<Rightarrow> nat \<Rightarrow> (nat \<Rightarrow> 's \<Rightarrow> 's cres) \<Rightarrow> 's \<Rightarrow> 's cres" where
  "c_for lo hi body s = c_iter [lo..<hi] body s"

lemma c_for_done [simp]: "hi \<le> lo \<Longrightarrow> c_for lo hi body s = Inr s"
  by (simp add: c_for_def)

lemma c_for_step: "lo < hi \<Longrightarrow> c_for lo hi body s = cbind (body lo s) (c_for (Suc lo) hi body)"
  by (simp add: c_for_def upt_conv_Cons fun_eq_iff cbind_def split: sum.splits)

lemma c_for_fun: "lo < hi \<Longrightarrow> c_for lo hi body = (\<lambda>s. cbind (body lo s) (c_for (Suc lo) hi body))"
  by (simp add: fun_eq_iff c_for_step)

lemma c_for_code [code]:
  "c_for lo hi body s =
     (if lo < hi then cbind (body lo s) (c_for (Suc lo) hi body) else Inr s)"
  by (simp add: c_for_step)

lemma c_iter_append: "c_iter (xs @ ys) body s = cbind (c_iter xs body s) (c_iter ys body)"
  by (induction xs arbitrary: s) (simp_all add: cbind_assoc cbind_def split: sum.splits)

lemma c_for_last: "lo \<le> hi \<Longrightarrow> c_for lo (Suc hi) body s = cbind (c_for lo hi body s) (body hi)"
  by (simp add: c_for_def c_iter_append cbind_def split: sum.splits)

text \<open>A sequence of operations on a state, with what they return.\<close>

fun run_ops :: "('s \<Rightarrow> 'op \<Rightarrow> ('out \<times> 's) cres) \<Rightarrow> 's \<Rightarrow> 'op list \<Rightarrow> ('out list \<times> 's) cres" where
  "run_ops step s [] = Inr ([], s)"
| "run_ops step s (op # ops) =
     cbind (step s op) (\<lambda>(out, s). cbind (run_ops step s ops) (\<lambda>(outs, s). Inr (out # outs, s)))"

text \<open>Total correctness of a counted loop: an invariant indexed by the loop counter.\<close>

lemma c_for_rule:
  assumes "lo \<le> hi" and "I lo s"
    and step: "\<And>i s. lo \<le> i \<Longrightarrow> i < hi \<Longrightarrow> I i s \<Longrightarrow> \<exists>s'. body i s = Inr s' \<and> I (Suc i) s'"
  shows "\<exists>s'. c_for lo hi body s = Inr s' \<and> I hi s'"
  using assms(1) step
proof (induction hi rule: dec_induct)
  case base
  with assms(2) show ?case by simp
next
  case (step n)
  then obtain s' where "c_for lo n body s = Inr s'" "I n s'"
    by (metis less_SucI)
  with step show ?case by (auto simp: c_for_last)
qed

text \<open>
  A counted loop left by \<open>break\<close> at the first index whose test succeeds; its value is that
  index, or the upper bound when the loop runs out.
\<close>

primrec c_find :: "nat list \<Rightarrow> nat \<Rightarrow> (nat \<Rightarrow> bool cres) \<Rightarrow> nat cres" where
  "c_find [] d test = Inr d"
| "c_find (i # is) d test = cbind (test i) (\<lambda>b. if b then Inr i else c_find is d test)"

definition c_search :: "nat \<Rightarrow> nat \<Rightarrow> (nat \<Rightarrow> bool cres) \<Rightarrow> nat cres" where
  "c_search lo hi test = c_find [lo..<hi] hi test"

lemma c_find_pure:
  "(\<And>i. i \<in> set is \<Longrightarrow> test i = Inr (P i)) \<Longrightarrow>
   c_find is d test = Inr (case find P is of None \<Rightarrow> d | Some i \<Rightarrow> i)"
  by (induction "is") simp_all

lemma find_upt_nth:
  "find (\<lambda>i. P (xs ! i)) [0..<length xs] =
     (if \<exists>x\<in>set xs. P x then Some (length (takeWhile (\<lambda>x. \<not> P x) xs)) else None)"
proof (induction xs)
  case (Cons x xs)
  have "find (\<lambda>i. P ((x # xs) ! i)) (map Suc [0..<length xs]) =
      map_option Suc (find (\<lambda>i. P (xs ! i)) [0..<length xs])"
  proof -
    have "find Q (map Suc is) = map_option Suc (find (\<lambda>i. Q (Suc i)) is)" for Q "is"
      by (induction "is") auto
    from this [of "\<lambda>i. P ((x # xs) ! i)"] show ?thesis by simp
  qed
  with Cons show ?case
    by (auto simp: upt_conv_Cons map_Suc_upt [symmetric] simp del: upt_Suc)
qed simp

lemma c_search_list:
  assumes "\<And>i. i < length xs \<Longrightarrow> test i = Inr (P (xs ! i))"
  shows "c_search 0 (length xs) test = Inr (length (takeWhile (\<lambda>x. \<not> P x) xs))"
proof -
  have "c_search 0 (length xs) test =
      Inr (case find (\<lambda>i. P (xs ! i)) [0..<length xs] of None \<Rightarrow> length xs | Some i \<Rightarrow> i)"
    unfolding c_search_def by (rule c_find_pure) (simp add: assms)
  moreover have "length (takeWhile (\<lambda>x. \<not> P x) xs) = length xs" if "\<not> (\<exists>x\<in>set xs. P x)"
    using that by (simp add: takeWhile_eq_all_conv [THEN iffD2])
  ultimately show ?thesis
    by (simp add: find_upt_nth)
qed

section \<open>Arrays with checked accesses\<close>

datatype 'a carray = CArray (alen: nat) (aget: "nat \<Rightarrow> 'a")

definition aread :: "'a carray \<Rightarrow> nat \<Rightarrow> 'a cres" where
  "aread a i = (if i < alen a then Inr (aget a i) else Inl Out_of_bounds)"

definition awrite :: "'a carray \<Rightarrow> nat \<Rightarrow> 'a \<Rightarrow> 'a carray cres" where
  "awrite a i v = (if i < alen a then Inr (CArray (alen a) ((aget a)(i := v)))
                   else Inl Out_of_bounds)"

lemma aread_ok [simp]: "i < alen a \<Longrightarrow> aread a i = Inr (aget a i)"
  by (simp add: aread_def)

lemma awrite_ok [simp]: "i < alen a \<Longrightarrow> awrite a i v = Inr (CArray (alen a) ((aget a)(i := v)))"
  by (simp add: awrite_def)

lemma aread_out [simp]: "\<not> i < alen a \<Longrightarrow> aread a i = Inl Out_of_bounds"
  by (simp add: aread_def)

lemma awrite_out [simp]: "\<not> i < alen a \<Longrightarrow> awrite a i v = Inl Out_of_bounds"
  by (simp add: awrite_def)

text \<open>A loop that stores one value in every cell of an array.\<close>

definition afill :: "'a carray \<Rightarrow> 'a \<Rightarrow> 'a carray cres" where
  "afill a v = c_for 0 (alen a) (\<lambda>i a'. awrite a' i v) a"

lemma afill_prefix:
  "n \<le> alen a \<Longrightarrow>
   c_for 0 n (\<lambda>i a'. awrite a' i v) a =
     Inr (CArray (alen a) (\<lambda>i. if i < n then v else aget a i))"
proof (induction n)
  case 0
  then show ?case by (cases a) simp
next
  case (Suc n)
  then show ?case by (auto simp: c_for_last fun_eq_iff less_Suc_eq)
qed

lemma afill_eq: "afill a v = Inr (CArray (alen a) (\<lambda>i. if i < alen a then v else aget a i))"
  by (simp add: afill_def afill_prefix)

section \<open>Shifts\<close>

text \<open>
  A right or left shift of a 32-bit value by a negative count or by 32 or more is
  undefined in C. The code is
  built for x86-64 with \<open>-march=native\<close>, where the shift instructions take the count
  modulo 32. Both readings are kept: \<open>ISO_C\<close> stops the model, \<open>X86_64\<close> computes what
  the instruction computes.
\<close>

datatype shift_model = ISO_C | X86_64

definition c_shr32 :: "shift_model \<Rightarrow> uint32 \<Rightarrow> int \<Rightarrow> uint32 cres" where
  "c_shr32 sm x n =
     (if 0 \<le> n \<and> n < 32 then Inr (drop_bit (nat n) x)
      else case sm of ISO_C \<Rightarrow> Inl Undefined_shift
           | X86_64 \<Rightarrow> Inr (drop_bit (nat (n mod 32)) x))"

definition c_shl32 :: "shift_model \<Rightarrow> uint32 \<Rightarrow> int \<Rightarrow> uint32 cres" where
  "c_shl32 sm x n =
     (if 0 \<le> n \<and> n < 32 then Inr (push_bit (nat n) x)
      else case sm of ISO_C \<Rightarrow> Inl Undefined_shift
           | X86_64 \<Rightarrow> Inr (push_bit (nat (n mod 32)) x))"

text \<open>The right shift of a signed value copies the sign bit.\<close>

definition c_sar32 :: "shift_model \<Rightarrow> int32 \<Rightarrow> int \<Rightarrow> int32 cres" where
  "c_sar32 sm x n =
     (if 0 \<le> n \<and> n < 32 then Inr (signed_drop_bit (nat n) x)
      else case sm of ISO_C \<Rightarrow> Inl Undefined_shift
           | X86_64 \<Rightarrow> Inr (signed_drop_bit (nat (n mod 32)) x))"

lemma c_shr32_ok [simp]: "0 \<le> n \<Longrightarrow> n < 32 \<Longrightarrow> c_shr32 sm x n = Inr (drop_bit (nat n) x)"
  by (simp add: c_shr32_def)

lemma c_shl32_ok [simp]: "0 \<le> n \<Longrightarrow> n < 32 \<Longrightarrow> c_shl32 sm x n = Inr (push_bit (nat n) x)"
  by (simp add: c_shl32_def)

section \<open>Words read as naturals\<close>

lemma unat_drop_bit_div: "unat (drop_bit n w) = unat w div 2 ^ n"
  unfolding unat_drop_bit_eq by (rule drop_bit_eq_div)

lemma unat_mask_mod:
  fixes w :: "'a::len word"
  shows "unat (w AND mask n) = unat w mod 2 ^ n"
  by (simp add: unsigned_take_bit_eq flip: take_bit_eq_mod take_bit_eq_mask)

lemma unat_lt2p: "unat (w :: 'a::len word) < 2 ^ LENGTH('a)"
  by (rule unsigned_less)

lemma unat_push_bit:
  fixes w :: "'a::len word"
  shows "unat w * 2 ^ n < 2 ^ LENGTH('a) \<Longrightarrow> unat (push_bit n w) = unat w * 2 ^ n"
  unfolding unsigned_push_bit_eq by (simp add: take_bit_nat_eq_self push_bit_eq_mult)

lemma unat_mask: "n \<le> LENGTH('a) \<Longrightarrow> unat (mask n :: 'a::len word) = mask n"
  using unat_mask_mod [of "-1 :: 'a word" n]
  by (auto simp: unsigned_minus_1_eq_mask simp flip: take_bit_eq_mod)

lemma nat_or_mask: "x * 2 ^ n OR mask n = x * 2 ^ n + (2 ^ n - 1 :: nat)"
proof -
  have "push_bit n x AND mask n = 0"
    by (rule bit_eqI) (auto simp: bit_simps)
  then show ?thesis
    using disjunctive_add_eq_or [of "push_bit n x" "mask n"]
    by (simp add: push_bit_eq_mult mask_eq_exp_minus_1)
qed

lemma unat_push_or_mask:
  fixes w :: "'a::len word"
  assumes "unat w * 2 ^ n < 2 ^ LENGTH('a)" and "n \<le> LENGTH('a)"
  shows "unat (push_bit n w OR mask n) = unat w * 2 ^ n + (2 ^ n - 1)"
  using assms by (simp add: unsigned_or_eq unat_push_bit unat_mask nat_or_mask)

lemma push_bit_minus_mask: "push_bit n 1 - 1 = (mask n :: 'a::len word)"
  by (simp add: push_bit_eq_mult mask_eq_exp_minus_1)

lemma and_not_mask:
  fixes w :: "'a::len word"
  shows "w AND NOT (mask n) = push_bit n (drop_bit n w)"
  by (rule bit_word_eqI) (auto simp: bit_simps)
lemma nat_div_eq_iff: "0 < (d::nat) \<Longrightarrow> x div d = q \<longleftrightarrow> q * d \<le> x \<and> x < q * d + d"
  by (metis div_nat_eqI dividend_less_div_times div_times_less_eq_dividend mult.commute mult_Suc_right add.commute)

lemma c_shr32_sub:
  assumes "0 < unat p" "unat p \<le> 32"
  shows "c_shr32 sm x (32 - uint (p :: 'a::len word)) = Inr (drop_bit (32 - unat p) x)"
proof -
  have "c_shr32 sm x (32 - int n) = Inr (drop_bit (32 - n) x)" if "0 < n" "n \<le> 32" for n
    using that by (simp add: c_shr32_def nat_diff_distrib')
  from this [of "unat p"] assms show ?thesis by simp
qed

lemma c_shl32_sub:
  assumes "unat p \<le> numeral k" "numeral k - unat p < 32"
  shows "c_shl32 sm x (numeral k - uint (p :: 'a::len word)) = Inr (push_bit (numeral k - unat p) x)"
proof -
  have "c_shl32 sm x (numeral k - int n) = Inr (push_bit (numeral k - n) x)"
    if "n \<le> numeral k" "numeral k - n < 32" for n
  proof -
    have "numeral k - int n = int (numeral k - n)" using that by (simp add: of_nat_diff)
    with that show ?thesis by (simp add: c_shl32_def del: of_nat_diff)
  qed
  from this [of "unat p"] assms show ?thesis by simp
qed

lemma unat_of_nat_eq: "n < 2 ^ LENGTH('a) \<Longrightarrow> unat (word_of_nat n :: 'a::len word) = n"
  by (simp add: unsigned_of_nat take_bit_nat_eq_self)

lemma c_for_split:
  assumes "lo \<le> m" "m \<le> hi"
  shows "c_for lo hi body s = cbind (c_for lo m body s) (c_for m hi body)"
proof -
  have "[lo..<hi] = [lo..<m] @ [m..<hi]"
    using assms by (metis le_add_diff_inverse upt_add_eq_append)
  then show ?thesis
    by (simp add: c_for_def c_iter_append cbind_def split: sum.splits)
qed

lemma c_for_fails_at:
  assumes "lo \<le> m" "m < hi" "c_for lo m body s = Inr s'" "body m s' = Inl e"
  shows "c_for lo hi body s = Inl e"
  using assms by (simp add: c_for_split [of lo m hi] c_for_step [of m hi])

lemma unat_ucast_16_32 [simp]: "unat (ucast (w :: uint16) :: uint32) = unat w"
proof -
  have "unat w < 2 ^ 32" using unat_lt2p [of w] by simp
  then show ?thesis by (simp add: unsigned_ucast_eq take_bit_nat_eq_self)
qed

end
