(* ===== verification/CString.thy ===== *)
theory CString
  imports CPrelude
begin

text \<open>
  The part of the C string library the sources use. A \<open>char *\<close> is the list of the bytes
  from the pointer to the end of the object it points into, so that pointer arithmetic
  is \<open>drop\<close>; reading on without meeting the terminating NUL is \<open>Out_of_bounds\<close>. The
  conversions \<open>strtol\<close> and \<open>atoi\<close> are those of glibc on x86-64, where \<open>long\<close> has 64 bits,
  \<open>strtol\<close> saturates and \<open>atoi\<close> narrows its result to 32 bits. The last section models the
  integer conversions of \<open>printf\<close>.
\<close>

section \<open>NUL-terminated strings\<close>

abbreviation NUL :: char where
  "NUL \<equiv> CHR 0x00"

fun c_string :: "char list \<Rightarrow> string cres" where
  "c_string [] = Inl Out_of_bounds"
| "c_string (c # s) = (if c = NUL then Inr [] else cbind (c_string s) (\<lambda>r. Inr (c # r)))"

definition strlen :: "char list \<Rightarrow> nat cres" where
  "strlen buf = cbind (c_string buf) (\<lambda>s. Inr (length s))"

text \<open>\<open>buf[i] = c\<close>\<close>

definition put_char :: "char list \<Rightarrow> nat \<Rightarrow> char \<Rightarrow> char list cres" where
  "put_char buf i c = (if i < length buf then Inr (buf[i := c]) else Inl Out_of_bounds)"

lemma c_string_append [simp]: "NUL \<notin> set s \<Longrightarrow> c_string (s @ NUL # rest) = Inr s"
  by (induction s) auto

lemma strlen_append [simp]: "NUL \<notin> set s \<Longrightarrow> strlen (s @ NUL # rest) = Inr (length s)"
  by (simp add: strlen_def)

lemma put_char_at [simp]: "put_char (s @ c # rest) (length s) d = Inr (s @ d # rest)"
  by (simp add: put_char_def)

text \<open>Every object that holds a NUL splits at the first one.\<close>

lemma nul_terminated_split:
  assumes "NUL \<in> set buf"
  obtains s rest where "buf = s @ NUL # rest" and "NUL \<notin> set s"
  using split_list_first [OF assms] by blast

section \<open>Conversion of numerals\<close>

definition is_space_char :: "char \<Rightarrow> bool" where
  "is_space_char c \<longleftrightarrow> c = CHR '' '' \<or> (9 \<le> (of_char c :: nat) \<and> (of_char c :: nat) \<le> 13)"

definition digit_value :: "char \<Rightarrow> nat option" where
  "digit_value c =
     (let n = of_char c in
      if 48 \<le> n \<and> n \<le> 57 then Some (n - 48)
      else if 97 \<le> n \<and> n \<le> 122 then Some (n - 87)
      else if 65 \<le> n \<and> n \<le> 90 then Some (n - 55)
      else None)"

fun strtol_digits :: "nat \<Rightarrow> nat \<Rightarrow> string \<Rightarrow> nat" where
  "strtol_digits base acc [] = acc"
| "strtol_digits base acc (c # s) =
     (case digit_value c of
        None \<Rightarrow> acc
      | Some d \<Rightarrow> if d < base then strtol_digits base (acc * base + d) s else acc)"

definition strtol_sign :: "string \<Rightarrow> bool \<times> string" where
  "strtol_sign s =
     (case s of
        [] \<Rightarrow> (False, [])
      | c # r \<Rightarrow> if c = CHR ''-'' then (True, r) else if c = CHR ''+'' then (False, r) else (False, s))"

definition strtol_prefix :: "nat \<Rightarrow> string \<Rightarrow> string" where
  "strtol_prefix base s =
     (case s of
        z # x # d # r \<Rightarrow>
          if base = 16 \<and> z = CHR ''0'' \<and> (x = CHR ''x'' \<or> x = CHR ''X'')
             \<and> (case digit_value d of None \<Rightarrow> False | Some v \<Rightarrow> v < 16)
          then d # r else s
      | _ \<Rightarrow> s)"

definition strtol :: "nat \<Rightarrow> string \<Rightarrow> int" where
  "strtol base s =
     (let (neg, r) = strtol_sign (dropWhile is_space_char s);
          v = int (strtol_digits base 0 (strtol_prefix base r))
      in if neg then max (- (2 ^ 63)) (- v) else min (2 ^ 63 - 1) v)"

text \<open>The conversion of a \<open>long\<close> to an \<open>int\<close>.\<close>

definition int_of_long :: "int \<Rightarrow> int" where
  "int_of_long x = (x + 2 ^ 31) mod 2 ^ 32 - 2 ^ 31"

definition atoi :: "char list \<Rightarrow> int cres" where
  "atoi buf = cbind (c_string buf) (\<lambda>s. Inr (int_of_long (strtol 10 s)))"

lemma int_of_long_id [simp]: "- (2 ^ 31) \<le> x \<Longrightarrow> x < 2 ^ 31 \<Longrightarrow> int_of_long x = x"
  by (simp add: int_of_long_def)

text \<open>On a string of digits of the base, \<open>strtol\<close> is the positional value.\<close>

definition is_digit :: "nat \<Rightarrow> char \<Rightarrow> bool" where
  "is_digit base c \<longleftrightarrow> (case digit_value c of None \<Rightarrow> False | Some d \<Rightarrow> d < base)"

definition digits_value :: "nat \<Rightarrow> string \<Rightarrow> nat" where
  "digits_value base s = foldl (\<lambda>acc c. acc * base + the (digit_value c)) 0 s"

lemma strtol_digits_value:
  "list_all (is_digit base) s \<Longrightarrow>
   strtol_digits base acc s = foldl (\<lambda>acc c. acc * base + the (digit_value c)) acc s"
  by (induction s arbitrary: acc) (auto simp: is_digit_def split: option.splits)

lemma foldl_digits_bound:
  "list_all (is_digit base) s \<Longrightarrow>
   foldl (\<lambda>acc c. acc * base + the (digit_value c)) acc s < (acc + 1) * base ^ length s"
proof (induction s arbitrary: acc)
  case (Cons c s)
  obtain d where d: "digit_value c = Some d" "d < base"
    using Cons.prems by (auto simp: is_digit_def split: option.splits)
  have "(acc * base + d + 1) * base ^ length s \<le> ((acc + 1) * base) * base ^ length s"
    using d(2) by (intro mult_right_mono) simp_all
  with Cons.IH [of "acc * base + d"] Cons.prems d(1) show ?case
    by (simp add: algebra_simps)
qed simp

lemma digits_value_bound:
  "list_all (is_digit base) s \<Longrightarrow> digits_value base s < base ^ length s"
  using foldl_digits_bound [of base s 0] by (simp add: digits_value_def)

lemma is_digit_code:
  assumes "is_digit base c" and "base \<le> 16"
  shows "(48 \<le> (of_char c :: nat) \<and> of_char c \<le> (57 :: nat))
         \<or> (97 \<le> (of_char c :: nat) \<and> of_char c \<le> (102 :: nat))
         \<or> (65 \<le> (of_char c :: nat) \<and> of_char c \<le> (70 :: nat))"
  using assms by (auto simp: is_digit_def digit_value_def Let_def split: if_splits)

lemma is_digit_not_special:
  assumes "is_digit base c" and "base \<le> 16"
  shows "\<not> is_space_char c" and "c \<noteq> CHR ''-''" and "c \<noteq> CHR ''+''"
    and "c \<noteq> CHR ''x''" and "c \<noteq> CHR ''X''" and "c \<noteq> NUL"
    and "c \<noteq> CHR ''.''" and "c \<noteq> CHR '':''" and "c \<noteq> CHR '',''" and "c \<noteq> CHR ''/''"
  using is_digit_code [OF assms] by (auto simp: is_space_char_def)

lemma strtol_prefix_digits:
  "list_all (is_digit base) s \<Longrightarrow> base \<le> 16 \<Longrightarrow> strtol_prefix base s = s"
  by (auto simp: strtol_prefix_def split: list.splits
      dest: is_digit_not_special(4) is_digit_not_special(5))

lemma strtol_eq:
  assumes "list_all (is_digit base) s" and "base \<le> 16" and "length s \<le> 15"
  shows "strtol base s = int (digits_value base s)"
proof -
  have sp: "dropWhile is_space_char s = s" "strtol_sign s = (False, s)"
    using assms(1) is_digit_not_special(1,2,3) [OF _ assms(2)]
    by (cases s; auto simp: strtol_sign_def)+
  have "digits_value base s < base ^ length s"
    by (rule digits_value_bound [OF assms(1)])
  also have "\<dots> \<le> 16 ^ length s"
    by (rule power_mono) (use assms(2) in simp_all)
  also have "(16 :: nat) ^ length s \<le> 16 ^ 15"
    by (rule power_increasing) (use assms(3) in simp_all)
  finally have "digits_value base s < 2 ^ 63"
    by simp
  then show ?thesis
    using assms(1,2)
    by (simp add: strtol_def sp strtol_prefix_digits strtol_digits_value digits_value_def Let_def)
qed

section \<open>Splitting at a separator\<close>

fun split_on :: "char \<Rightarrow> string \<Rightarrow> string list" where
  "split_on sep [] = [[]]"
| "split_on sep (c # s) =
     (if c = sep then [] # split_on sep s
      else case split_on sep s of [] \<Rightarrow> [[c]] | g # gs \<Rightarrow> (c # g) # gs)"

lemma split_on_no_sep [simp]: "sep \<notin> set s \<Longrightarrow> split_on sep s = [s]"
  by (induction s) auto

lemma split_on_append [simp]:
  "sep \<notin> set g \<Longrightarrow> split_on sep (g @ sep # s) = g # split_on sep s"
  by (induction g) auto

lemma split_on_not_Nil [simp]: "split_on sep s \<noteq> []"
  by (cases s) (auto split: list.splits)

lemma split_on_singleton: "length (split_on sep s) = 1 \<longleftrightarrow> sep \<notin> set s"
  by (induction s) (auto split: list.splits simp: neq_Nil_conv)

lemma split_on_first:
  assumes "length (split_on sep s) \<noteq> 1"
  obtains g t where "s = g @ sep # t" and "sep \<notin> set g"
    and "split_on sep s = g # split_on sep t"
proof -
  have "sep \<in> set s"
    using assms unfolding split_on_singleton by simp
  from split_list_first [OF this] obtain g t where "s = g @ sep # t" "sep \<notin> set g"
    by blast
  with that show thesis by simp
qed

section \<open>Integer conversions of printf\<close>

definition digit_char :: "nat \<Rightarrow> char" where
  "digit_char d = char_of (if d < 10 then 48 + d else 55 + d)"

definition digit_char_lower :: "nat \<Rightarrow> char" where
  "digit_char_lower d = char_of (if d < 10 then 48 + d else 87 + d)"

text \<open>\<open>%u\<close>, and \<open>%d\<close> of a non-negative value\<close>

fun fmt_u :: "nat \<Rightarrow> string" where
  "fmt_u n = (if n < 10 then [digit_char n] else fmt_u (n div 10) @ [digit_char (n mod 10)])"

declare fmt_u.simps [simp del]

text \<open>\<open>%0wx\<close> of a value that has at most \<open>w\<close> hexadecimal digits\<close>

primrec fmt_x :: "nat \<Rightarrow> nat \<Rightarrow> string" where
  "fmt_x 0 n = []"
| "fmt_x (Suc w) n = fmt_x w (n div 16) @ [digit_char_lower (n mod 16)]"

text \<open>\<open>%02X\<close> of a byte\<close>

definition fmt_02X :: "nat \<Rightarrow> string" where
  "fmt_02X n = [digit_char (n div 16), digit_char (n mod 16)]"

lemma digit_value_digit_char [simp]: "d < 16 \<Longrightarrow> digit_value (digit_char d) = Some d"
  by (auto simp: digit_value_def digit_char_def Let_def)

lemma is_digit_digit_char [simp]: "d < base \<Longrightarrow> base \<le> 16 \<Longrightarrow> is_digit base (digit_char d)"
  by (simp add: is_digit_def)

lemma fmt_u_digits: "list_all (is_digit 10) (fmt_u n)"
  by (induction n rule: fmt_u.induct) (subst fmt_u.simps, simp)

lemma fmt_u_value [simp]: "digits_value 10 (fmt_u n) = n"
proof (induction n rule: fmt_u.induct)
  case (1 n)
  then show ?case
    by (subst fmt_u.simps) (simp add: digits_value_def)
qed

lemma fmt_u_length: "0 < k \<Longrightarrow> n < 10 ^ k \<Longrightarrow> length (fmt_u n) \<le> k"
proof (induction k arbitrary: n)
  case (Suc k)
  show ?case
  proof (cases "n < 10")
    case True
    then show ?thesis by (subst fmt_u.simps) simp
  next
    case False
    then have "0 < k"
      using Suc.prems by (cases k) auto
    moreover have "n div 10 < 10 ^ k"
      using Suc.prems by (simp add: div_less_iff_less_mult mult.commute)
    ultimately show ?thesis
      using Suc.IH [of "n div 10"] False by (subst fmt_u.simps) simp
  qed
qed simp

lemma fmt_02X_digits: "n < 256 \<Longrightarrow> list_all (is_digit 16) (fmt_02X n)"
  by (simp add: fmt_02X_def)

lemma fmt_02X_value [simp]: "n < 256 \<Longrightarrow> digits_value 16 (fmt_02X n) = n"
  by (simp add: fmt_02X_def digits_value_def)

text \<open>\<open>snprintf(buf, size, ...)\<close> of a text: at most \<open>size - 1\<close> characters and the NUL.\<close>

definition snprintf :: "char list \<Rightarrow> nat \<Rightarrow> string \<Rightarrow> char list cres" where
  "snprintf buf sz txt =
     (let out = (if sz = 0 then [] else take (sz - 1) txt @ [NUL])
      in if length out \<le> length buf then Inr (out @ drop (length out) buf)
         else Inl Out_of_bounds)"

lemma snprintf_fits:
  "length txt < sz \<Longrightarrow> length txt < length buf \<Longrightarrow>
   snprintf buf sz txt = Inr (txt @ NUL # drop (Suc (length txt)) buf)"
  by (simp add: snprintf_def)

lemma snprintf_safe: "sz \<le> length buf \<Longrightarrow> \<exists>buf'. snprintf buf sz txt = Inr buf'"
  by (auto simp: snprintf_def Let_def)

end
