(* ===== verification/Ether.thy ===== *)
theory Ether
  imports CString
begin

text \<open>
  Ethernet addresses, as \<^verbatim>\<open>dpdk/lib/librte_net/rte_ether.h\<close> has them: six bytes in
  transmission order, the predicates on them, the random address generator, the copy and
  the textual format. The VLAN operations of that header work on packet buffers and are
  in the theory of those.
\<close>

section \<open>Lengths and types\<close>

definition ETHER_ADDR_LEN :: nat where [c_defs]: "ETHER_ADDR_LEN = 6"
definition ETHER_TYPE_LEN :: nat where [c_defs]: "ETHER_TYPE_LEN = 2"
definition ETHER_CRC_LEN :: nat where [c_defs]: "ETHER_CRC_LEN = 4"
definition ETHER_HDR_LEN :: nat where [c_defs]: "ETHER_HDR_LEN = ETHER_ADDR_LEN * 2 + ETHER_TYPE_LEN"
definition ETHER_MIN_LEN :: nat where [c_defs]: "ETHER_MIN_LEN = 64"
definition ETHER_MAX_LEN :: nat where [c_defs]: "ETHER_MAX_LEN = 1518"
definition ETHER_MTU :: nat where [c_defs]: "ETHER_MTU = ETHER_MAX_LEN - ETHER_HDR_LEN - ETHER_CRC_LEN"
definition ETHER_ADDR_FMT_SIZE :: nat where [c_defs]: "ETHER_ADDR_FMT_SIZE = 18"

definition ETHER_LOCAL_ADMIN_ADDR :: uint8 where "ETHER_LOCAL_ADMIN_ADDR = 0x02"
definition ETHER_GROUP_ADDR :: uint8 where "ETHER_GROUP_ADDR = 0x01"

definition ETHER_TYPE_IPv4 :: uint16 where [c_defs]: "ETHER_TYPE_IPv4 = 0x0800"
definition ETHER_TYPE_IPv6 :: uint16 where [c_defs]: "ETHER_TYPE_IPv6 = 0x86DD"
definition ETHER_TYPE_ARP :: uint16 where [c_defs]: "ETHER_TYPE_ARP = 0x0806"
definition ETHER_TYPE_VLAN :: uint16 where [c_defs]: "ETHER_TYPE_VLAN = 0x8100"

record ether_addr =
  addr_bytes :: "uint8 list"

definition ether_addr_wf :: "ether_addr \<Rightarrow> bool" where
  "ether_addr_wf ea \<longleftrightarrow> length (addr_bytes ea) = ETHER_ADDR_LEN"

section \<open>Predicates\<close>

function is_same_from :: "nat \<Rightarrow> ether_addr \<Rightarrow> ether_addr \<Rightarrow> bool" where
  "is_same_from i ea1 ea2 =
     (if i < 6 then (if addr_bytes ea1 ! i \<noteq> addr_bytes ea2 ! i then False
                     else is_same_from (i + 1) ea1 ea2)
      else True)"
  by pat_completeness auto
termination by (relation "measure (\<lambda>(i, _, _). 6 - i)") auto

declare is_same_from.simps [simp del]

definition is_same_ether_addr :: "ether_addr \<Rightarrow> ether_addr \<Rightarrow> bool" where
  "is_same_ether_addr ea1 ea2 = is_same_from 0 ea1 ea2"

function is_zero_from :: "nat \<Rightarrow> ether_addr \<Rightarrow> bool" where
  "is_zero_from i ea =
     (if i < 6 then (if addr_bytes ea ! i \<noteq> 0 then False else is_zero_from (i + 1) ea)
      else True)"
  by pat_completeness auto
termination by (relation "measure (\<lambda>(i, _). 6 - i)") auto

declare is_zero_from.simps [simp del]

definition is_zero_ether_addr :: "ether_addr \<Rightarrow> bool" where
  "is_zero_ether_addr ea = is_zero_from 0 ea"

definition is_unicast_ether_addr :: "ether_addr \<Rightarrow> bool" where
  "is_unicast_ether_addr ea \<longleftrightarrow> addr_bytes ea ! 0 AND ETHER_GROUP_ADDR = 0"

definition is_multicast_ether_addr :: "ether_addr \<Rightarrow> bool" where
  "is_multicast_ether_addr ea \<longleftrightarrow> addr_bytes ea ! 0 AND ETHER_GROUP_ADDR \<noteq> 0"

text \<open>The 16-bit word at index \<open>i\<close> of the address, read in little-endian order.\<close>

definition ea_word :: "ether_addr \<Rightarrow> nat \<Rightarrow> uint16" where
  "ea_word ea i =
     ucast (addr_bytes ea ! (2 * i)) OR push_bit 8 (ucast (addr_bytes ea ! (2 * i + 1)))"

definition is_broadcast_ether_addr :: "ether_addr \<Rightarrow> bool" where
  "is_broadcast_ether_addr ea \<longleftrightarrow>
     ea_word ea 0 = 0xFFFF \<and> ea_word ea 1 = 0xFFFF \<and> ea_word ea 2 = 0xFFFF"

definition is_universal_ether_addr :: "ether_addr \<Rightarrow> bool" where
  "is_universal_ether_addr ea \<longleftrightarrow> addr_bytes ea ! 0 AND ETHER_LOCAL_ADMIN_ADDR = 0"

definition is_local_admin_ether_addr :: "ether_addr \<Rightarrow> bool" where
  "is_local_admin_ether_addr ea \<longleftrightarrow> addr_bytes ea ! 0 AND ETHER_LOCAL_ADMIN_ADDR \<noteq> 0"

definition is_valid_assigned_ether_addr :: "ether_addr \<Rightarrow> bool" where
  "is_valid_assigned_ether_addr ea \<longleftrightarrow> is_unicast_ether_addr ea \<and> \<not> is_zero_ether_addr ea"

section \<open>Random addresses, copy and format\<close>

text \<open>The argument is the value of \<open>rte_rand()\<close>; its bytes are taken in memory order.\<close>

definition eth_random_addr :: "uint64 \<Rightarrow> ether_addr" where
  "eth_random_addr rand =
     (let addr = map (\<lambda>i. ucast (drop_bit (8 * i) rand)) [0..<ETHER_ADDR_LEN];
          addr = addr[0 := addr ! 0 AND NOT ETHER_GROUP_ADDR];
          addr = addr[0 := addr ! 0 OR ETHER_LOCAL_ADMIN_ADDR]
      in \<lparr>addr_bytes = addr\<rparr>)"

definition ether_addr_copy :: "ether_addr \<Rightarrow> ether_addr \<Rightarrow> ether_addr" where
  [c_defs]: "ether_addr_copy ea_from ea_to = ea_from"

fun join_groups :: "char \<Rightarrow> string list \<Rightarrow> string" where
  "join_groups sep [] = []"
| "join_groups sep [g] = g"
| "join_groups sep (g # gs) = g @ sep # join_groups sep gs"

definition ether_text :: "ether_addr \<Rightarrow> string" where
  "ether_text ea = join_groups CHR '':'' (map (\<lambda>b. fmt_02X (unat b)) (addr_bytes ea))"

definition ether_format_addr :: "char list \<Rightarrow> nat \<Rightarrow> ether_addr \<Rightarrow> char list cres" where
  "ether_format_addr buf sz eth_addr = snprintf buf sz (ether_text eth_addr)"

section \<open>Correctness\<close>

lemma is_same_from_eq:
  "is_same_from i a b = list_all (\<lambda>j. addr_bytes a ! j = addr_bytes b ! j) [i..<6]"
proof (induction i a b rule: is_same_from.induct)
  case (1 i a b)
  then show ?case
    by (subst is_same_from.simps) (auto simp: upt_conv_Cons)
qed

lemma is_same_ether_addr_iff:
  assumes "ether_addr_wf a" and "ether_addr_wf b"
  shows "is_same_ether_addr a b \<longleftrightarrow> a = b"
proof -
  have "is_same_ether_addr a b \<longleftrightarrow> addr_bytes a = addr_bytes b"
    using assms
    by (auto simp: is_same_ether_addr_def is_same_from_eq list_all_iff ether_addr_wf_def c_defs list_eq_iff_nth_eq)
  then show ?thesis by (cases a; cases b) simp
qed

lemma is_zero_from_eq:
  "is_zero_from i a = list_all (\<lambda>j. addr_bytes a ! j = 0) [i..<6]"
proof (induction i a rule: is_zero_from.induct)
  case (1 i a)
  then show ?case
    by (subst is_zero_from.simps) (auto simp: upt_conv_Cons)
qed

lemma is_zero_ether_addr_iff:
  "ether_addr_wf a \<Longrightarrow> is_zero_ether_addr a \<longleftrightarrow> addr_bytes a = replicate 6 0"
  by (auto simp: is_zero_ether_addr_def is_zero_from_eq list_all_iff ether_addr_wf_def c_defs list_eq_iff_nth_eq)

lemma word_pair_all_ones:
  fixes a b :: uint8
  shows "ucast a OR push_bit 8 (ucast b) = (0xFFFF :: uint16) \<longleftrightarrow> a = 0xFF \<and> b = 0xFF"
proof -
  have m: "(0xFFFF :: uint16) = mask 16" "(0xFF :: uint8) = mask 8"
    by (simp_all add: mask_eq_exp_minus_1)
  show ?thesis
  proof
    assume *: "ucast a OR push_bit 8 (ucast b) = (0xFFFF :: uint16)"
    have "bit a n" and "bit b n" if "n < 8" for n
    proof -
      from * have "bit (ucast a OR push_bit 8 (ucast b) :: uint16) n"
        and "bit (ucast a OR push_bit 8 (ucast b) :: uint16) (n + 8)"
        using that unfolding m by (simp_all add: bit_mask_iff)
      then show "bit a n" and "bit b n"
        using that by (auto simp: bit_simps dest: bit_imp_le_length)
    qed
    then show "a = 0xFF \<and> b = 0xFF"
      unfolding m by (auto intro!: bit_word_eqI simp: bit_mask_iff)
  next
    assume "a = 0xFF \<and> b = 0xFF"
    then show "ucast a OR push_bit 8 (ucast b) = (0xFFFF :: uint16)"
      by simp
  qed
qed

lemma list6_cases:
  assumes "length xs = 6"
  obtains a b c d e f where "xs = [a, b, c, d, e, f]"
  using assms by (auto simp: eval_nat_numeral length_Suc_conv)

lemma is_broadcast_ether_addr_iff:
  "ether_addr_wf a \<Longrightarrow> is_broadcast_ether_addr a \<longleftrightarrow> addr_bytes a = replicate 6 0xFF"
  unfolding is_broadcast_ether_addr_def ea_word_def word_pair_all_ones ether_addr_wf_def c_defs
  by (elim list6_cases) (simp add: numeral_eq_Suc; blast)

lemma eth_random_addr_wf: "ether_addr_wf (eth_random_addr r)"
  by (simp add: eth_random_addr_def ether_addr_wf_def c_defs Let_def)

lemma eth_random_addr_first:
  "addr_bytes (eth_random_addr r) ! 0 = (ucast r AND NOT 1) OR 2"
  by (simp add: eth_random_addr_def c_defs Let_def ETHER_GROUP_ADDR_def ETHER_LOCAL_ADMIN_ADDR_def)

lemma eth_random_addr_valid:
  "is_valid_assigned_ether_addr (eth_random_addr r)" "is_local_admin_ether_addr (eth_random_addr r)"
proof -
  let ?x = "(ucast r AND NOT 1) OR 2 :: uint8"
  have "bit ?x 1" and "\<not> bit ?x 0"
    by (simp_all add: bit_or_iff bit_and_iff bit_not_iff bit_2_iff bit_1_iff)
  then have "bit (?x AND 2) 1" and odd: "\<not> odd ?x"
    by (simp_all add: bit_and_iff bit_2_iff bit_0)
  then have x: "?x AND 2 \<noteq> 0" "?x \<noteq> 0"
    using \<open>bit ?x 1\<close> by force+
  have x0: "?x AND 1 = 0"
    using odd unfolding and_one_eq by (simp only: even_iff_mod_2_eq_zero not_not)
  have "addr_bytes (eth_random_addr r) \<noteq> replicate 6 0"
    using x(2) eth_random_addr_first [of r] by (metis nth_replicate zero_less_numeral)
  then show "is_valid_assigned_ether_addr (eth_random_addr r)"
    using x0 eth_random_addr_wf [of r]
    by (simp add: is_valid_assigned_ether_addr_def is_unicast_ether_addr_def eth_random_addr_first
        ETHER_GROUP_ADDR_def is_zero_ether_addr_iff)
  show "is_local_admin_ether_addr (eth_random_addr r)"
    using x(1) by (simp add: is_local_admin_ether_addr_def eth_random_addr_first
        ETHER_LOCAL_ADMIN_ADDR_def)
qed

lemma ether_text_length: "ether_addr_wf ea \<Longrightarrow> length (ether_text ea) = 17"
  by (auto simp: ether_addr_wf_def c_defs ether_text_def fmt_02X_def elim!: list6_cases)

end
