(* ===== verification/LPM.thy ===== *)
theory LPM
  imports CPrelude
begin

text \<open>
  The abstract specification both routing tables are measured against: longest prefix
  match over a numbered sequence of routes. A route is an address and a prefix length;
  among the matching routes of greatest length the one added last is chosen.
\<close>

type_synonym routes = "nat \<Rightarrow> uint32 \<times> nat"

definition prefix_matches :: "uint32 \<times> nat \<Rightarrow> uint32 \<Rightarrow> bool" where
  "prefix_matches r ip \<longleftrightarrow> drop_bit (32 - snd r) ip = drop_bit (32 - snd r) (fst r)"

definition lpm_better :: "routes \<Rightarrow> uint32 \<Rightarrow> nat option \<Rightarrow> nat \<Rightarrow> nat option" where
  "lpm_better rs ip best k =
     (if prefix_matches (rs k) ip
      then (case best of None \<Rightarrow> Some k
            | Some j \<Rightarrow> if snd (rs j) \<le> snd (rs k) then Some k else Some j)
      else best)"

primrec lpm :: "routes \<Rightarrow> nat \<Rightarrow> uint32 \<Rightarrow> nat option" where
  "lpm rs 0 ip = None"
| "lpm rs (Suc k) ip = lpm_better rs ip (lpm rs k ip) k"

text \<open>What a longest prefix match is, without reference to how it is found.\<close>

definition is_lpm :: "routes \<Rightarrow> nat \<Rightarrow> uint32 \<Rightarrow> nat option \<Rightarrow> bool" where
  "is_lpm rs n ip r =
     (case r of
        None \<Rightarrow> (\<forall>j<n. \<not> prefix_matches (rs j) ip)
      | Some i \<Rightarrow> i < n \<and> prefix_matches (rs i) ip \<and>
          (\<forall>j<n. prefix_matches (rs j) ip \<longrightarrow>
             snd (rs j) < snd (rs i) \<or> snd (rs j) = snd (rs i) \<and> j \<le> i))"

lemma lpm_is_lpm: "is_lpm rs n ip (lpm rs n ip)"
proof (induction n)
  case 0
  show ?case by (simp add: is_lpm_def)
next
  case (Suc n)
  then show ?case
    by (fastforce simp: is_lpm_def lpm_better_def less_Suc_eq split: option.splits)
qed

lemma is_lpm_unique: "is_lpm rs n ip r \<Longrightarrow> is_lpm rs n ip r' \<Longrightarrow> r = r'"
  by (cases r; cases r') (fastforce simp: is_lpm_def)+

lemma is_lpm_iff: "is_lpm rs n ip r \<longleftrightarrow> r = lpm rs n ip"
  using lpm_is_lpm is_lpm_unique by blast

lemma lpm_less: "lpm rs n ip = Some i \<Longrightarrow> i < n"
  using lpm_is_lpm [of rs n ip] by (simp add: is_lpm_def)

lemma lpm_cong: "(\<And>i. i < n \<Longrightarrow> rs i = rs' i) \<Longrightarrow> lpm rs n ip = lpm rs' n ip"
proof (induction n)
  case (Suc n)
  then have "lpm rs n ip = lpm rs' n ip" by simp
  with Suc.prems show ?case
    by (auto simp: lpm_better_def split: option.splits dest: lpm_less)
qed simp

text \<open>Matching in terms of natural numbers.\<close>

lemma prefix_matches_unat:
  "prefix_matches r ip \<longleftrightarrow> unat ip div 2 ^ (32 - snd r) = unat (fst r) div 2 ^ (32 - snd r)"
  unfolding prefix_matches_def word_unat_eq_iff unat_drop_bit_div ..

end
