(* ===== verification/RoutingTable.thy ===== *)
theory RoutingTable
  imports Ether LPM
begin

text \<open>
  The routing table of \<^verbatim>\<open>routing_table.c\<close>: a DIR-24-8 table. A first array is indexed by
  the upper 24 bits of an address; an entry of it is unused, the number of a route, or
  the number of one of 255 second-level arrays indexed by the low 8 bits. Routes are
  collected by \<open>add_route\<close>, entered into the arrays by \<open>build_routing_table\<close> and looked up
  by \<open>get_next_hop\<close>, which returns a pointer into the array of routes, here its index.
\<close>

section \<open>Data\<close>

definition TBL_PREFIX_LEN :: nat where [c_defs]: "TBL_PREFIX_LEN = 24"
definition TBL24_TABLE_SIZE :: nat where "TBL24_TABLE_SIZE = 2 ^ TBL_PREFIX_LEN"
definition TBLLONG_ENTRY_SIZE :: nat where [c_defs]: "TBLLONG_ENTRY_SIZE = 2 ^ (32 - TBL_PREFIX_LEN)"
definition TBLLONG_TABLE_SIZE :: nat where [c_defs]: "TBLLONG_TABLE_SIZE = 255"
definition NH_ID_TO_INFO_SIZE :: nat where [c_defs]: "NH_ID_TO_INFO_SIZE = 2 ^ 8"
definition INVALID_NH_ID :: uint16 where [c_defs]: "INVALID_NH_ID = 255"

text \<open>
  The union of a 16-bit value with the bit fields \<open>next_id : 15\<close> and \<open>is_long : 1\<close>; gcc lays
  bit fields out from the least significant bit on x86-64.
\<close>

type_synonym tbl24_entry = uint16

definition next_id :: "tbl24_entry \<Rightarrow> uint16" where
  "next_id e = e AND 0x7FFF"

definition is_long :: "tbl24_entry \<Rightarrow> uint16" where
  "is_long e = drop_bit 15 e"

definition set_next_id :: "uint16 \<Rightarrow> tbl24_entry \<Rightarrow> tbl24_entry" where
  "set_next_id v e = (e AND 0x8000) OR (v AND 0x7FFF)"

definition set_is_long :: "uint16 \<Rightarrow> tbl24_entry \<Rightarrow> tbl24_entry" where
  "set_is_long v e = (e AND 0x7FFF) OR push_bit 15 (v AND 1)"

record routing_table_entry =
  dst_mac :: ether_addr
  dst_port :: uint8

record next_hop_info =
  ip_addr :: uint32
  prefix :: uint8
  next_hop :: routing_table_entry
  in_use :: bool

record rt_state =
  tbl24_table :: "tbl24_entry carray"
  tbllong_table :: "uint16 carray carray"
  tbllong_table_idx :: uint16
  nh_id_to_info :: "next_hop_info carray"
  nh_id_to_info_idx :: uint16

text \<open>Static storage starts as zeros.\<close>

definition zero_ether_addr :: ether_addr where
  [c_defs]: "zero_ether_addr = \<lparr>addr_bytes = replicate 6 0\<rparr>"

definition zero_nh_info :: next_hop_info where
  [c_defs]: "zero_nh_info = \<lparr>ip_addr = 0, prefix = 0,
     next_hop = \<lparr>dst_mac = zero_ether_addr, dst_port = 0\<rparr>, in_use = False\<rparr>"

definition rt_initial :: rt_state where
  "rt_initial = \<lparr>tbl24_table = CArray TBL24_TABLE_SIZE (\<lambda>_. 0),
     tbllong_table = CArray TBLLONG_TABLE_SIZE (\<lambda>_. CArray TBLLONG_ENTRY_SIZE (\<lambda>_. 0)),
     tbllong_table_idx = 0,
     nh_id_to_info = CArray NH_ID_TO_INFO_SIZE (\<lambda>_. zero_nh_info),
     nh_id_to_info_idx = 0\<rparr>"

section \<open>Accesses to the static arrays\<close>

definition tbl24_read :: "rt_state \<Rightarrow> nat \<Rightarrow> tbl24_entry cres" where
  "tbl24_read st idx = aread (tbl24_table st) idx"

definition tbl24_write :: "nat \<Rightarrow> tbl24_entry \<Rightarrow> rt_state \<Rightarrow> rt_state cres" where
  "tbl24_write idx e st =
     cbind (awrite (tbl24_table st) idx e) (\<lambda>t. Inr (st\<lparr>tbl24_table := t\<rparr>))"

definition tbllong_read :: "rt_state \<Rightarrow> nat \<Rightarrow> nat \<Rightarrow> uint16 cres" where
  "tbllong_read st l i = cbind (aread (tbllong_table st) l) (\<lambda>ent. aread ent i)"

definition tbllong_write :: "nat \<Rightarrow> nat \<Rightarrow> uint16 \<Rightarrow> rt_state \<Rightarrow> rt_state cres" where
  "tbllong_write l i v st =
     cbind (aread (tbllong_table st) l) (\<lambda>ent.
     cbind (awrite ent i v) (\<lambda>ent'.
     cbind (awrite (tbllong_table st) l ent') (\<lambda>t.
     Inr (st\<lparr>tbllong_table := t\<rparr>))))"

definition nh_info :: "rt_state \<Rightarrow> uint16 \<Rightarrow> next_hop_info cres" where
  "nh_info st nh_id = aread (nh_id_to_info st) (unat nh_id)"

section \<open>Adding a route\<close>

definition add_route :: "uint32 \<Rightarrow> uint8 \<Rightarrow> ether_addr \<Rightarrow> uint8 \<Rightarrow> rt_state \<Rightarrow> rt_state cres" where
  "add_route ip pfx mac_addr port st =
     (if nh_id_to_info_idx st \<ge> INVALID_NH_ID then Inl Exit_failure
      else
        cbind (nh_info st (nh_id_to_info_idx st)) (\<lambda>old.
        cbind (awrite (nh_id_to_info st) (unat (nh_id_to_info_idx st))
                 (old\<lparr>ip_addr := ip,
                      prefix := (if pfx \<le> 32 then pfx else 32),
                      next_hop := \<lparr>dst_mac = ether_addr_copy mac_addr (dst_mac (next_hop old)),
                                   dst_port = port\<rparr>,
                      in_use := True\<rparr>)) (\<lambda>infos.
        Inr (st\<lparr>nh_id_to_info := infos,
                nh_id_to_info_idx := nh_id_to_info_idx st + 1\<rparr>))))"

section \<open>Entering a route into the arrays\<close>

text \<open>The body of the two loops that offer a route to a cell of a second-level array.\<close>

definition replace_long_cell :: "uint16 \<Rightarrow> uint16 \<Rightarrow> nat \<Rightarrow> rt_state \<Rightarrow> rt_state cres" where
  "replace_long_cell nh_id long_idx i st =
     cbind (tbllong_read st (unat long_idx) i) (\<lambda>curr_nh_id.
     if curr_nh_id = INVALID_NH_ID then tbllong_write (unat long_idx) i nh_id st
     else
       cbind (nh_info st curr_nh_id) (\<lambda>curr.
       cbind (nh_info st nh_id) (\<lambda>new.
       if prefix curr \<le> prefix new then tbllong_write (unat long_idx) i nh_id st
       else Inr st)))"

definition build_route_lte_24_long_idx :: "uint16 \<Rightarrow> uint16 \<Rightarrow> rt_state \<Rightarrow> rt_state cres" where
  "build_route_lte_24_long_idx nh_id long_idx st =
     c_for 0 TBLLONG_ENTRY_SIZE (replace_long_cell nh_id long_idx) st"

definition build_route_lte_24_idx :: "uint16 \<Rightarrow> nat \<Rightarrow> rt_state \<Rightarrow> rt_state cres" where
  "build_route_lte_24_idx nh_id idx st =
     cbind (tbl24_read st idx) (\<lambda>e.
     if e = INVALID_NH_ID then
       tbl24_write idx (set_is_long 0 (set_next_id nh_id e)) st
     else if is_long e = 0 then
       cbind (nh_info st (next_id e)) (\<lambda>curr.
       cbind (nh_info st nh_id) (\<lambda>new.
       if prefix curr \<le> prefix new then tbl24_write idx (set_next_id nh_id e) st
       else Inr st))
     else build_route_lte_24_long_idx nh_id (next_id e) st)"

definition build_route_lte_24 :: "shift_model \<Rightarrow> uint16 \<Rightarrow> rt_state \<Rightarrow> rt_state cres" where
  "build_route_lte_24 sm nh_id st =
     cbind (nh_info st nh_id) (\<lambda>info.
     cbind (c_shr32 sm (ip_addr info) (32 - uint (prefix info))) (\<lambda>hi.
     cbind (c_shl32 sm hi (int TBL_PREFIX_LEN - uint (prefix info))) (\<lambda>min_index.
     cbind (c_shl32 sm 1 (int TBL_PREFIX_LEN - uint (prefix info))) (\<lambda>span.
     let max_index = min_index OR (span - 1) in
     c_for (unat min_index) (Suc (unat max_index)) (build_route_lte_24_idx nh_id) st))))"

text \<open>The range of low bytes a route longer than 24 bits covers.\<close>

definition long_range :: "shift_model \<Rightarrow> next_hop_info \<Rightarrow> (uint32 \<times> uint32) cres" where
  "long_range sm info =
     cbind (c_shl32 sm 1 (32 - uint (prefix info))) (\<lambda>span.
     let min_i = (ip_addr info AND (push_bit (32 - TBL_PREFIX_LEN) 1 - 1)) AND NOT (span - 1)
     in Inr (min_i, min_i OR (span - 1)))"

definition build_route_gt_24_long_idx :: "shift_model \<Rightarrow> uint16 \<Rightarrow> uint16 \<Rightarrow> rt_state \<Rightarrow> rt_state cres" where
  "build_route_gt_24_long_idx sm nh_id long_idx st =
     cbind (nh_info st nh_id) (\<lambda>info.
     cbind (long_range sm info) (\<lambda>(min_i, max_i).
     c_for (unat min_i) (Suc (unat max_i)) (replace_long_cell nh_id long_idx) st))"

definition build_route_gt_24_idx :: "shift_model \<Rightarrow> uint16 \<Rightarrow> nat \<Rightarrow> rt_state \<Rightarrow> rt_state cres" where
  "build_route_gt_24_idx sm nh_id idx st =
     (if unat (tbllong_table_idx st) \<ge> TBLLONG_TABLE_SIZE then Inl Exit_failure
      else
        cbind (tbl24_read st idx) (\<lambda>e.
        let e' = set_next_id (tbllong_table_idx st) e;
            long_idx = next_id e';
            st = st\<lparr>tbllong_table_idx := tbllong_table_idx st + 1\<rparr>
        in
        cbind (tbl24_write idx (set_is_long 1 e') st) (\<lambda>st.
        cbind (nh_info st nh_id) (\<lambda>info.
        cbind (long_range sm info) (\<lambda>(min_i, max_i).
        c_for (unat min_i) (Suc (unat max_i))
          (\<lambda>i. tbllong_write (unat long_idx) i nh_id) st)))))"

definition build_route_gt_24 :: "shift_model \<Rightarrow> uint16 \<Rightarrow> rt_state \<Rightarrow> rt_state cres" where
  "build_route_gt_24 sm nh_id st =
     cbind (nh_info st nh_id) (\<lambda>info.
     let idx = unat (drop_bit (32 - TBL_PREFIX_LEN) (ip_addr info)) in
     cbind (tbl24_read st idx) (\<lambda>e.
     if e = INVALID_NH_ID then build_route_gt_24_idx sm nh_id idx st
     else if is_long e = 0 then
       cbind (build_route_gt_24_idx sm nh_id idx st) (\<lambda>st.
       cbind (tbl24_read st idx) (\<lambda>e'.
       build_route_lte_24_long_idx (next_id e) (next_id e') st))
     else build_route_gt_24_long_idx sm nh_id (next_id e) st))"

definition build_route :: "shift_model \<Rightarrow> nat \<Rightarrow> rt_state \<Rightarrow> rt_state cres" where
  "build_route sm i st =
     (let nh_id = word_of_nat i in
      cbind (nh_info st nh_id) (\<lambda>info.
      if \<not> in_use info then Inr st
      else if unat (prefix info) \<le> TBL_PREFIX_LEN then build_route_lte_24 sm nh_id st
      else build_route_gt_24 sm nh_id st))"

definition clear_tables :: "rt_state \<Rightarrow> rt_state cres" where
  "clear_tables st =
     cbind (c_for 0 TBL24_TABLE_SIZE (\<lambda>i t. awrite t i INVALID_NH_ID) (tbl24_table st)) (\<lambda>t24.
     cbind (c_for 0 TBLLONG_TABLE_SIZE (\<lambda>i t.
              cbind (aread t i) (\<lambda>ent.
              cbind (c_for 0 TBLLONG_ENTRY_SIZE (\<lambda>j ent. awrite ent j INVALID_NH_ID) ent) (\<lambda>ent'.
              awrite t i ent'))) (tbllong_table st)) (\<lambda>tlong.
     Inr (st\<lparr>tbllong_table_idx := 0, tbl24_table := t24, tbllong_table := tlong\<rparr>)))"

definition build_routing_table :: "shift_model \<Rightarrow> rt_state \<Rightarrow> rt_state cres" where
  "build_routing_table sm st =
     cbind (clear_tables st) (\<lambda>st.
     cbind (c_for 0 (unat (nh_id_to_info_idx st)) (build_route sm) st) (\<lambda>st.
     Inr (st\<lparr>nh_id_to_info_idx := 0\<rparr>)))"

section \<open>Looking an address up\<close>

definition get_next_hop :: "uint32 \<Rightarrow> rt_state \<Rightarrow> nat option cres" where
  "get_next_hop ip st =
     (let idx = unat (drop_bit (32 - TBL_PREFIX_LEN) ip) in
      cbind (tbl24_read st idx) (\<lambda>e.
      if e = INVALID_NH_ID then Inr None
      else if is_long e = 0 then
        cbind (nh_info st (next_id e)) (\<lambda>_. Inr (Some (unat (next_id e))))
      else
        let ent_idx = unat (ip AND (push_bit (32 - TBL_PREFIX_LEN) 1 - 1)) in
        cbind (tbllong_read st (unat (next_id e)) ent_idx) (\<lambda>nh_id.
        if nh_id = INVALID_NH_ID then Inr None
        else cbind (nh_info st nh_id) (\<lambda>_. Inr (Some (unat nh_id))))))"

text \<open>What the caller reads through the pointer \<open>get_next_hop\<close> returned.\<close>

definition deref_next_hop :: "rt_state \<Rightarrow> nat \<Rightarrow> routing_table_entry cres" where
  "deref_next_hop st p = cbind (aread (nh_id_to_info st) p) (\<lambda>info. Inr (next_hop info))"

section \<open>The bit fields\<close>

lemma mask15: "(0x7FFF :: uint16) = mask 15"
  by (simp add: mask_eq_exp_minus_1)

lemma not_mask15: "(0x8000 :: uint16) = NOT (mask 15)"
  by (simp add: mask_eq_exp_minus_1)

lemma next_id_eq: "next_id e = take_bit 15 e"
  by (simp add: next_id_def mask15 take_bit_eq_mask)

lemma unat_next_id: "unat (next_id e) = unat e mod 2 ^ 15"
  by (simp only: next_id_def mask15 unat_mask_mod)

lemma is_long_0_iff: "is_long e = 0 \<longleftrightarrow> unat e < 2 ^ 15"
proof -
  have "is_long e = 0 \<longleftrightarrow> unat e div 2 ^ 15 = 0"
    unfolding is_long_def by (metis unat_drop_bit_div unat_0 word_unat_eq_iff)
  then show ?thesis by (simp add: div_eq_0_iff)
qed

lemma next_id_short [simp]: "is_long e = 0 \<Longrightarrow> next_id e = e"
proof -
  assume "is_long e = 0"
  then have "unat (next_id e) = unat e" by (simp add: is_long_0_iff unat_next_id)
  then show ?thesis by (simp add: word_unat_eq_iff)
qed

lemma next_id_set_next_id [simp]: "next_id (set_next_id v e) = next_id v"
  unfolding next_id_def set_next_id_def mask15 not_mask15
  by (rule bit_word_eqI) (auto simp: bit_simps)

lemma is_long_set_next_id [simp]: "is_long (set_next_id v e) = is_long e"
  unfolding is_long_def set_next_id_def mask15 not_mask15
  by (rule bit_word_eqI) (auto simp: bit_simps dest: bit_imp_le_length)

lemma next_id_set_is_long [simp]: "next_id (set_is_long b e) = next_id e"
  unfolding next_id_def set_is_long_def mask15
  by (rule bit_word_eqI) (auto simp: bit_simps dest: bit_imp_le_length)

lemma is_long_set_is_long [simp]: "is_long (set_is_long b e) = b AND 1"
  unfolding is_long_def set_is_long_def mask15
  by (rule bit_word_eqI) (auto simp: bit_simps dest: bit_imp_le_length)

lemma short_entry_id: "is_long e = 0 \<Longrightarrow> unat nh < 2 ^ 15 \<Longrightarrow> set_next_id nh e = nh"
  using next_id_short [of "set_next_id nh e"] next_id_short [of nh]
  by (simp add: is_long_0_iff)

lemma fresh_entry_id: "unat nh < 2 ^ 15 \<Longrightarrow> set_is_long 0 (set_next_id nh e) = nh"
  using next_id_short [of "set_is_long 0 (set_next_id nh e)"] next_id_short [of nh]
  by (simp add: is_long_0_iff)

lemma set_is_long_0_short: "unat nh < 2 ^ 15 \<Longrightarrow> set_is_long 0 nh = nh"
  using next_id_short [of "set_is_long 0 nh"] next_id_short [of nh]
  by (simp add: is_long_0_iff)

end
