(* ===== verification/RoutingTable_Correct.thy ===== *)
theory RoutingTable_Correct
  imports RoutingTable
begin

text \<open>
  The DIR-24-8 table computes longest prefix match. The arrays are read as a map from
  pairs of an upper part (24 bits) and a low byte to route numbers (\<open>cell\<close>); each
  building step offers one route to the cells it covers and leaves the others alone.
\<close>

section \<open>The table as a map of cells\<close>

type_synonym infos = "nat \<Rightarrow> next_hop_info"

definition cell :: "rt_state \<Rightarrow> nat \<Rightarrow> nat \<Rightarrow> uint16" where
  "cell st idx off =
     (let e = aget (tbl24_table st) idx in
      if is_long e = 0 then e else aget (aget (tbllong_table st) (unat (next_id e))) off)"

definition offer :: "infos \<Rightarrow> uint16 \<Rightarrow> uint16 \<Rightarrow> uint16" where
  "offer infos nh c =
     (if c = INVALID_NH_ID \<or> prefix (infos (unat c)) \<le> prefix (infos (unat nh)) then nh else c)"

abbreviation infos_of :: "rt_state \<Rightarrow> infos" where
  "infos_of st \<equiv> aget (nh_id_to_info st)"

definition valid_id :: "nat \<Rightarrow> uint16 \<Rightarrow> bool" where
  "valid_id K c \<longleftrightarrow> c = INVALID_NH_ID \<or> unat c < K"

text \<open>The sizes of the arrays, which no operation changes.\<close>

definition rt_sizes :: "rt_state \<Rightarrow> bool" where
  "rt_sizes st \<longleftrightarrow>
     alen (tbl24_table st) = TBL24_TABLE_SIZE \<and>
     alen (tbllong_table st) = TBLLONG_TABLE_SIZE \<and>
     (\<forall>l<TBLLONG_TABLE_SIZE. alen (aget (tbllong_table st) l) = TBLLONG_ENTRY_SIZE) \<and>
     alen (nh_id_to_info st) = NH_ID_TO_INFO_SIZE"

text \<open>
  The structural invariant while the routes numbered below \<open>K\<close> may occur: first-level
  entries that are route numbers belong to routes of at most 24 bits, second-level
  arrays are allocated from the front, never shared, and unused ones are blank.
\<close>

definition entry_ok :: "rt_state \<Rightarrow> nat \<Rightarrow> tbl24_entry \<Rightarrow> bool" where
  "entry_ok st K e \<longleftrightarrow>
     (if is_long e = 0
      then e = INVALID_NH_ID \<or> unat e < K \<and> unat (prefix (infos_of st (unat e))) \<le> TBL_PREFIX_LEN
      else unat (next_id e) < unat (tbllong_table_idx st))"

definition rt_struct :: "rt_state \<Rightarrow> nat \<Rightarrow> bool" where
  "rt_struct st K \<longleftrightarrow>
     rt_sizes st \<and> K \<le> TBLLONG_TABLE_SIZE \<and> unat (tbllong_table_idx st) \<le> TBLLONG_TABLE_SIZE \<and>
     (\<forall>idx<TBL24_TABLE_SIZE. entry_ok st K (aget (tbl24_table st) idx)) \<and>
     (\<forall>i<TBL24_TABLE_SIZE. \<forall>j<TBL24_TABLE_SIZE.
        is_long (aget (tbl24_table st) i) \<noteq> 0 \<longrightarrow> is_long (aget (tbl24_table st) j) \<noteq> 0 \<longrightarrow>
        next_id (aget (tbl24_table st) i) = next_id (aget (tbl24_table st) j) \<longrightarrow> i = j) \<and>
     (\<forall>l<TBLLONG_TABLE_SIZE. \<forall>off<TBLLONG_ENTRY_SIZE.
        valid_id K (aget (aget (tbllong_table st) l) off) \<and>
        (unat (tbllong_table_idx st) \<le> l \<longrightarrow>
           aget (aget (tbllong_table st) l) off = INVALID_NH_ID))"

lemmas rt_size_defs =
  TBL_PREFIX_LEN_def TBL24_TABLE_SIZE_def TBLLONG_ENTRY_SIZE_def TBLLONG_TABLE_SIZE_def
  NH_ID_TO_INFO_SIZE_def INVALID_NH_ID_def

section \<open>Second-level arrays\<close>

text \<open>The effect of a loop over the cells from \<open>lo\<close> up to \<open>hi\<close> of second-level array \<open>l\<close>.\<close>

definition map_long :: "(uint16 \<Rightarrow> uint16) \<Rightarrow> nat \<Rightarrow> nat \<Rightarrow> nat \<Rightarrow> rt_state \<Rightarrow> rt_state" where
  "map_long f lo hi l st =
     st\<lparr>tbllong_table := CArray (alen (tbllong_table st)) ((aget (tbllong_table st))(l :=
        CArray (alen (aget (tbllong_table st) l))
          (\<lambda>i. if lo \<le> i \<and> i < hi then f (aget (aget (tbllong_table st) l) i)
               else aget (aget (tbllong_table st) l) i)))\<rparr>"

lemma map_long_simps [simp]:
  "tbl24_table (map_long f lo hi l st) = tbl24_table st"
  "tbllong_table_idx (map_long f lo hi l st) = tbllong_table_idx st"
  "nh_id_to_info (map_long f lo hi l st) = nh_id_to_info st"
  "nh_id_to_info_idx (map_long f lo hi l st) = nh_id_to_info_idx st"
  "alen (tbllong_table (map_long f lo hi l st)) = alen (tbllong_table st)"
  "alen (aget (tbllong_table (map_long f lo hi l st)) l') = alen (aget (tbllong_table st) l')"
  by (simp_all add: map_long_def)

lemma aget_map_long:
  "aget (aget (tbllong_table (map_long f lo hi l st)) l') i =
     (if l' = l \<and> lo \<le> i \<and> i < hi then f (aget (aget (tbllong_table st) l) i)
      else aget (aget (tbllong_table st) l') i)"
  by (simp add: map_long_def)

lemma map_long_empty: "hi \<le> lo \<Longrightarrow> map_long f lo hi l st = st"
proof -
  assume "hi \<le> lo"
  then have "(\<lambda>i. if lo \<le> i \<and> i < hi then f (aget (aget (tbllong_table st) l) i)
               else aget (aget (tbllong_table st) l) i) = aget (aget (tbllong_table st) l)"
    by (auto simp: fun_eq_iff)
  then show ?thesis by (simp add: map_long_def)
qed

lemma map_long_extend:
  assumes "lo \<le> n"
  shows "map_long f n (Suc n) l (map_long f lo n l st) = map_long f lo (Suc n) l st"
  using assms by (auto simp: map_long_def fun_eq_iff less_Suc_eq intro!: arg_cong [where f = "\<lambda>t. st\<lparr>tbllong_table := t\<rparr>"])

lemma c_for_map_long:
  assumes step: "\<And>i s. lo \<le> i \<Longrightarrow> i < hi \<Longrightarrow> s = map_long f lo i l st \<Longrightarrow>
             body i s = Inr (map_long f i (Suc i) l s)"
  shows "c_for lo hi body st = Inr (map_long f lo hi l st)"
proof (cases "lo \<le> hi")
  case True
  then show ?thesis using step
  proof (induction hi rule: dec_induct)
    case base
    then show ?case by (simp add: map_long_empty)
  next
    case (step n)
    then show ?case by (simp add: c_for_last map_long_extend)
  qed
qed (simp add: map_long_empty)

lemma tbllong_write_map:
  assumes "l < alen (tbllong_table st)" and "i < alen (aget (tbllong_table st) l)"
  shows "tbllong_write l i v st = Inr (map_long (\<lambda>_. v) i (Suc i) l st)"
  using assms by (auto simp: tbllong_write_def map_long_def fun_eq_iff
      intro!: arg_cong [where f = "\<lambda>t. st\<lparr>tbllong_table := t\<rparr>"])

lemma map_long_id: "f (aget (aget (tbllong_table st) l) i) = aget (aget (tbllong_table st) l) i \<Longrightarrow>
    map_long f i (Suc i) l st = st"
proof -
  assume "f (aget (aget (tbllong_table st) l) i) = aget (aget (tbllong_table st) l) i"
  then have "(\<lambda>j. if i \<le> j \<and> j < Suc i then f (aget (aget (tbllong_table st) l) j)
               else aget (aget (tbllong_table st) l) j) = aget (aget (tbllong_table st) l)"
    by (auto simp: fun_eq_iff less_Suc_eq)
  then show ?thesis by (simp add: map_long_def)
qed

lemma nh_info_ok [simp]: "unat nh < alen (nh_id_to_info st) \<Longrightarrow> nh_info st nh = Inr (infos_of st (unat nh))"
  by (simp add: nh_info_def)

lemma replace_long_cell_map:
  assumes l: "unat l < alen (tbllong_table st)" and i: "i < alen (aget (tbllong_table st) (unat l))"
    and nh: "unat nh < alen (nh_id_to_info st)"
    and c: "valid_id (alen (nh_id_to_info st)) (aget (aget (tbllong_table st) (unat l)) i)"
  shows "replace_long_cell nh l i st = Inr (map_long (offer (infos_of st) nh) i (Suc i) (unat l) st)"
proof -
  let ?c = "aget (aget (tbllong_table st) (unat l)) i"
  have read: "tbllong_read st (unat l) i = Inr ?c"
    using l i by (simp add: tbllong_read_def)
  have wr: "tbllong_write (unat l) i nh st =
      Inr (map_long (offer (infos_of st) nh) i (Suc i) (unat l) st)"
    if "offer (infos_of st) nh ?c = nh"
    using that l i by (auto simp: tbllong_write_map map_long_def fun_eq_iff less_Suc_eq
        intro!: arg_cong [where f = "\<lambda>t. st\<lparr>tbllong_table := t\<rparr>"])
  show ?thesis
  proof (cases "offer (infos_of st) nh ?c = nh")
    case True
    with wr c nh show ?thesis
      by (auto simp: replace_long_cell_def read offer_def valid_id_def map_long_id split: if_splits)
  next
    case False
    with c nh show ?thesis
      by (auto simp: replace_long_cell_def read offer_def valid_id_def map_long_id)
  qed
qed

lemma replace_loop:
  assumes l: "unat l < alen (tbllong_table st)" and hi: "hi \<le> alen (aget (tbllong_table st) (unat l))"
    and nh: "unat nh < alen (nh_id_to_info st)"
    and c: "\<And>i. i < hi \<Longrightarrow> valid_id (alen (nh_id_to_info st)) (aget (aget (tbllong_table st) (unat l)) i)"
  shows "c_for lo hi (replace_long_cell nh l) st =
           Inr (map_long (offer (infos_of st) nh) lo hi (unat l) st)"
proof (rule c_for_map_long)
  fix i s
  assume i: "lo \<le> i" "i < hi" and s: "s = map_long (offer (infos_of st) nh) lo i (unat l) st"
  have "aget (aget (tbllong_table s) (unat l)) i = aget (aget (tbllong_table st) (unat l)) i"
    by (simp add: s aget_map_long)
  then show "replace_long_cell nh l i s = Inr (map_long (offer (infos_of st) nh) i (Suc i) (unat l) s)"
    using replace_long_cell_map [of l s i nh] l hi nh c [OF i(2)] i by (simp add: s)
qed

lemma write_loop:
  assumes "l < alen (tbllong_table st)" and "hi \<le> alen (aget (tbllong_table st) l)"
  shows "c_for lo hi (\<lambda>i. tbllong_write l i v) st = Inr (map_long (\<lambda>_. v) lo hi l st)"
  using assms by (intro c_for_map_long) (simp add: tbllong_write_map)

section \<open>What the invariant gives\<close>

lemma rt_struct_sizes:
  assumes "rt_struct st K"
  shows "alen (tbl24_table st) = TBL24_TABLE_SIZE" "alen (tbllong_table st) = TBLLONG_TABLE_SIZE"
    "alen (nh_id_to_info st) = NH_ID_TO_INFO_SIZE"
    "l < TBLLONG_TABLE_SIZE \<Longrightarrow> alen (aget (tbllong_table st) l) = TBLLONG_ENTRY_SIZE"
    "K \<le> TBLLONG_TABLE_SIZE" "unat (tbllong_table_idx st) \<le> TBLLONG_TABLE_SIZE"
  using assms by (auto simp: rt_struct_def rt_sizes_def)

lemma rt_struct_entry:
  "rt_struct st K \<Longrightarrow> idx < TBL24_TABLE_SIZE \<Longrightarrow> entry_ok st K (aget (tbl24_table st) idx)"
  by (simp add: rt_struct_def)

lemma rt_struct_long:
  assumes "rt_struct st K" "idx < TBL24_TABLE_SIZE" "is_long (aget (tbl24_table st) idx) \<noteq> 0"
  shows "unat (next_id (aget (tbl24_table st) idx)) < unat (tbllong_table_idx st)"
    and "unat (next_id (aget (tbl24_table st) idx)) < TBLLONG_TABLE_SIZE"
  using rt_struct_entry [OF assms(1,2)] assms(3) rt_struct_sizes(6) [OF assms(1)]
  by (auto simp: entry_ok_def)

lemma rt_struct_cell:
  "rt_struct st K \<Longrightarrow> l < TBLLONG_TABLE_SIZE \<Longrightarrow> off < TBLLONG_ENTRY_SIZE \<Longrightarrow>
   valid_id K (aget (aget (tbllong_table st) l) off)"
  by (simp add: rt_struct_def)

lemma valid_id_mono: "valid_id K c \<Longrightarrow> K \<le> K' \<Longrightarrow> valid_id K' c"
  by (auto simp: valid_id_def)

lemma rt_struct_cell_info:
  assumes "rt_struct st K" "l < TBLLONG_TABLE_SIZE" "off < TBLLONG_ENTRY_SIZE"
  shows "valid_id NH_ID_TO_INFO_SIZE (aget (aget (tbllong_table st) l) off)"
  using rt_struct_cell [OF assms] rt_struct_sizes(5) [OF assms(1)]
  by (auto intro: valid_id_mono simp: rt_size_defs)

lemma rt_struct_mono:
  assumes "rt_struct st K" "K \<le> K'" "K' \<le> TBLLONG_TABLE_SIZE"
  shows "rt_struct st K'"
proof -
  have "entry_ok st K' e" if "entry_ok st K e" for e
    using that assms(2) by (auto simp: entry_ok_def split: if_splits)
  moreover have "valid_id K' c" if "valid_id K c" for c
    using that assms(2) by (rule valid_id_mono)
  ultimately show ?thesis using assms unfolding rt_struct_def by blast
qed

lemma offer_valid: "valid_id K c \<Longrightarrow> unat nh < K \<Longrightarrow> valid_id K (offer infos nh c)"
  by (auto simp: offer_def valid_id_def)

text \<open>Rewriting the cells of an allocated second-level array keeps the invariant.\<close>

lemma rt_struct_map_long:
  assumes st: "rt_struct st K" and l: "l < unat (tbllong_table_idx st)"
    and f: "\<And>c. valid_id K c \<Longrightarrow> valid_id K (f c)"
  shows "rt_struct (map_long f lo hi l st) K"
  using st l f unfolding rt_struct_def rt_sizes_def entry_ok_def
  by (auto simp: aget_map_long)

lemma cell_map_long:
  assumes st: "rt_struct st K" and i: "i < TBL24_TABLE_SIZE" "is_long (aget (tbl24_table st) i) \<noteq> 0"
    and j: "j < TBL24_TABLE_SIZE"
  shows "cell (map_long f lo hi (unat (next_id (aget (tbl24_table st) i))) st) j off =
     (if j = i \<and> lo \<le> off \<and> off < hi then f (cell st j off) else cell st j off)"
proof -
  have "j = i" if "is_long (aget (tbl24_table st) j) \<noteq> 0"
    "next_id (aget (tbl24_table st) j) = next_id (aget (tbl24_table st) i)"
    using st i j that unfolding rt_struct_def by blast
  then show ?thesis
    using i by (auto simp: cell_def Let_def aget_map_long word_unat_eq_iff)
qed

section \<open>First-level entries\<close>

definition put24 :: "nat \<Rightarrow> tbl24_entry \<Rightarrow> rt_state \<Rightarrow> rt_state" where
  "put24 idx e st =
     st\<lparr>tbl24_table := CArray (alen (tbl24_table st)) ((aget (tbl24_table st))(idx := e))\<rparr>"

lemma put24_simps [simp]:
  "tbllong_table (put24 idx e st) = tbllong_table st"
  "tbllong_table_idx (put24 idx e st) = tbllong_table_idx st"
  "nh_id_to_info (put24 idx e st) = nh_id_to_info st"
  "nh_id_to_info_idx (put24 idx e st) = nh_id_to_info_idx st"
  "alen (tbl24_table (put24 idx e st)) = alen (tbl24_table st)"
  "aget (tbl24_table (put24 idx e st)) j = (if j = idx then e else aget (tbl24_table st) j)"
  by (simp_all add: put24_def)

lemma put24_same: "put24 idx (aget (tbl24_table st) idx) st = st"
  by (simp add: put24_def)

lemma tbl24_write_put: "idx < alen (tbl24_table st) \<Longrightarrow> tbl24_write idx e st = Inr (put24 idx e st)"
  by (simp add: tbl24_write_def put24_def)

lemma entry_ok_put24 [simp]: "entry_ok (put24 idx e st) = entry_ok st"
  by (simp add: entry_ok_def fun_eq_iff)

lemma rt_struct_put24_short:
  assumes "rt_struct st K" "is_long e = 0" "entry_ok st K e"
  shows "rt_struct (put24 idx e st) K"
  using assms unfolding rt_struct_def rt_sizes_def by auto

lemma cell_put24_short:
  "is_long e = 0 \<Longrightarrow> cell (put24 idx e st) j off = (if j = idx then e else cell st j off)"
  by (simp add: cell_def Let_def)

text \<open>What building steps never touch.\<close>

definition rt_frame :: "rt_state \<Rightarrow> rt_state \<Rightarrow> bool" where
  "rt_frame st st' \<longleftrightarrow> nh_id_to_info st' = nh_id_to_info st \<and>
     nh_id_to_info_idx st' = nh_id_to_info_idx st"

lemma rt_frame_refl [simp]: "rt_frame st st"
  by (simp add: rt_frame_def)

lemma rt_frame_updates [simp]:
  "rt_frame st (put24 idx e st') = rt_frame st st'"
  "rt_frame st (map_long f lo hi l st') = rt_frame st st'"
  by (simp_all add: rt_frame_def)

lemma rt_frame_trans: "rt_frame a b \<Longrightarrow> rt_frame b c \<Longrightarrow> rt_frame a c"
  by (simp add: rt_frame_def)

lemma is_long_route_id: "unat nh < TBLLONG_TABLE_SIZE \<Longrightarrow> is_long nh = 0"
  by (simp add: is_long_0_iff TBLLONG_TABLE_SIZE_def)

lemma is_long_INVALID [simp]: "is_long INVALID_NH_ID = 0"
  by (simp add: is_long_0_iff INVALID_NH_ID_def)

lemma build_route_lte_24_idx_short:
  assumes st: "rt_struct st K" and nh: "unat nh < K" and idx: "idx < TBL24_TABLE_SIZE"
    and short: "is_long (aget (tbl24_table st) idx) = 0"
  shows "build_route_lte_24_idx nh idx st =
     Inr (put24 idx (offer (infos_of st) nh (aget (tbl24_table st) idx)) st)"
proof -
  let ?e = "aget (tbl24_table st) idx"
  note sizes = rt_struct_sizes [OF st]
  have nh': "unat nh < 2 ^ 15" "unat nh < alen (nh_id_to_info st)"
    using nh sizes by (simp_all add: rt_size_defs)
  have e: "?e = INVALID_NH_ID \<or> unat ?e < alen (nh_id_to_info st)"
    using rt_struct_entry [OF st idx] short sizes
    by (auto simp: entry_ok_def rt_size_defs)
  show ?thesis
    using e nh' idx sizes short put24_same [of idx st]
    by (auto simp: build_route_lte_24_idx_def tbl24_read_def tbl24_write_put offer_def
        fresh_entry_id short_entry_id set_is_long_0_short)
qed

lemma build_route_lte_24_idx_long:
  assumes st: "rt_struct st K" and nh: "unat nh < K" and idx: "idx < TBL24_TABLE_SIZE"
    and long: "is_long (aget (tbl24_table st) idx) \<noteq> 0"
  shows "build_route_lte_24_idx nh idx st =
     Inr (map_long (offer (infos_of st) nh) 0 TBLLONG_ENTRY_SIZE
            (unat (next_id (aget (tbl24_table st) idx))) st)"
proof -
  let ?e = "aget (tbl24_table st) idx"
  note sizes = rt_struct_sizes [OF st]
  note l = rt_struct_long [OF st idx long]
  have "?e \<noteq> INVALID_NH_ID" using long by auto
  moreover have "build_route_lte_24_long_idx nh (next_id ?e) st =
      Inr (map_long (offer (infos_of st) nh) 0 TBLLONG_ENTRY_SIZE (unat (next_id ?e)) st)"
    unfolding build_route_lte_24_long_idx_def
    by (rule replace_loop)
      (use l nh sizes rt_struct_cell_info [OF st l(2)] in \<open>simp_all add: rt_size_defs\<close>)
  ultimately show ?thesis
    using long idx sizes by (simp add: build_route_lte_24_idx_def tbl24_read_def)
qed

definition cells_offered ::
  "uint16 \<Rightarrow> (nat \<Rightarrow> nat \<Rightarrow> bool) \<Rightarrow> rt_state \<Rightarrow> rt_state \<Rightarrow> bool" where
  "cells_offered nh P st st' \<longleftrightarrow>
     (\<forall>j<TBL24_TABLE_SIZE. \<forall>off<TBLLONG_ENTRY_SIZE.
        cell st' j off = (if P j off then offer (infos_of st) nh (cell st j off) else cell st j off))"

lemma build_route_lte_24_idx_step:
  assumes st: "rt_struct st K" and nh: "unat nh < K" and idx: "idx < TBL24_TABLE_SIZE"
    and pfx: "unat (prefix (infos_of st (unat nh))) \<le> TBL_PREFIX_LEN"
  shows "\<exists>st'. build_route_lte_24_idx nh idx st = Inr st' \<and> rt_struct st' K \<and> rt_frame st st' \<and>
     tbllong_table_idx st' = tbllong_table_idx st \<and> cells_offered nh (\<lambda>j off. j = idx) st st'"
proof (cases "is_long (aget (tbl24_table st) idx) = 0")
  case True
  let ?e = "aget (tbl24_table st) idx"
  note sizes = rt_struct_sizes [OF st]
  have nh_short: "is_long nh = 0" using nh sizes by (simp add: is_long_route_id)
  have "entry_ok st K nh" using nh pfx nh_short by (simp add: entry_ok_def)
  with rt_struct_entry [OF st idx] True nh_short
  have "is_long (offer (infos_of st) nh ?e) = 0 \<and> entry_ok st K (offer (infos_of st) nh ?e)"
    by (simp add: offer_def)
  then show ?thesis
    using build_route_lte_24_idx_short [OF st nh idx True] True
    by (auto simp: cells_offered_def rt_struct_put24_short [OF st] cell_put24_short)
      (simp add: cell_def)
next
  case False
  show ?thesis
    using build_route_lte_24_idx_long [OF st nh idx False] rt_struct_long [OF st idx False] nh
    by (auto simp: cells_offered_def cell_map_long [OF st idx False] offer_valid
        intro!: rt_struct_map_long [OF st])
qed

section \<open>Routes of at most 24 bits\<close>

text \<open>
  The routes for which building is defined. A default route shifts a 32-bit value by 32;
  on x86-64 the count is taken modulo 32 and the result is right when the low byte of
  the route's address is zero.
\<close>

definition route_ok :: "shift_model \<Rightarrow> next_hop_info \<Rightarrow> bool" where
  "route_ok sm info \<longleftrightarrow> in_use info \<and> unat (prefix info) \<le> 32 \<and>
     (prefix info = 0 \<longrightarrow> sm = X86_64 \<and> take_bit 8 (ip_addr info) = 0)"

abbreviation plen :: "next_hop_info \<Rightarrow> nat" where
  "plen info \<equiv> unat (prefix info)"

definition route_of :: "next_hop_info \<Rightarrow> uint32 \<times> nat" where
  "route_of info = (ip_addr info, plen info)"

definition covers :: "next_hop_info \<Rightarrow> nat \<Rightarrow> nat \<Rightarrow> bool" where
  "covers info j off \<longleftrightarrow>
     (j * TBLLONG_ENTRY_SIZE + off) div 2 ^ (32 - plen info) = unat (ip_addr info) div 2 ^ (32 - plen info)"

lemma lte_24_bounds:
  assumes "n \<le> 24"
  shows "unat (drop_bit (32 - n) (w :: uint32)) * 2 ^ (24 - n) < 2 ^ 24"
proof -
  have "unat (drop_bit (32 - n) w) < 2 ^ n"
  proof -
    have "unat w < 2 ^ (32 - n) * 2 ^ n"
      using unat_lt2p [of w] assms by (simp flip: power_add)
    then show ?thesis
      by (simp add: unat_drop_bit_div less_mult_imp_div_less mult.commute)
  qed
  then have "unat (drop_bit (32 - n) w) * 2 ^ (24 - n) < 2 ^ n * 2 ^ (24 - n)"
    by simp
  with assms show ?thesis by (simp flip: power_add)
qed

lemma push_24_zero: "take_bit 8 (w :: uint32) = 0 \<Longrightarrow> push_bit 24 w = 0"
proof -
  assume "take_bit 8 w = 0"
  moreover have "push_bit 24 w = push_bit 24 (take_bit 8 w)"
    by (rule bit_word_eqI) (auto simp: bit_simps)
  ultimately show ?thesis by simp
qed

lemma build_route_lte_24_loop:
  assumes info: "infos_of st (unat nh) = info" "unat nh < alen (nh_id_to_info st)"
    and ok: "route_ok sm info" and p: "plen info \<le> TBL_PREFIX_LEN"
  defines "lo \<equiv> unat (ip_addr info) div 2 ^ (32 - plen info) * 2 ^ (24 - plen info)"
  shows "build_route_lte_24 sm nh st =
     c_for lo (lo + 2 ^ (24 - plen info)) (build_route_lte_24_idx nh) st"
proof -
  let ?p = "plen info"
  have p24: "?p \<le> 24" using p by (simp add: TBL_PREFIX_LEN_def)
  have up: "uint (prefix info) = int ?p" by simp
  obtain hi where hi: "c_shr32 sm (ip_addr info) (32 - uint (prefix info)) = Inr hi"
    and lo: "unat (push_bit (24 - ?p) hi) = lo"
    and max: "unat (push_bit (24 - ?p) hi OR mask (24 - ?p)) = lo + (2 ^ (24 - ?p) - 1)"
  proof (cases "?p = 0")
    case True
    then have p0: "prefix info = 0" by (simp add: unat_eq_0)
    with ok have x: "sm = X86_64" "push_bit 24 (ip_addr info) = 0"
      by (simp_all add: route_ok_def push_24_zero)
    have "lo = 0" using True unat_lt2p [of "ip_addr info"] by (simp add: lo_def)
    with x True show ?thesis
      by (intro that [of "ip_addr info"]) (simp_all add: p0 c_shr32_def unat_mask mask_eq_exp_minus_1)
  next
    case False
    note b = lte_24_bounds [OF p24, of "ip_addr info"]
    have eq: "unat (drop_bit (32 - ?p) (ip_addr info)) * 2 ^ (24 - ?p) = lo"
      by (simp only: lo_def unat_drop_bit_div)
    show ?thesis
      using False p24 b eq
      by (intro that [of "drop_bit (32 - ?p) (ip_addr info)"])
        (simp_all add: unat_push_bit unat_push_or_mask c_shr32_sub)
  qed
  have "build_route_lte_24 sm nh st =
     c_for (unat (push_bit (24 - ?p) hi)) (Suc (unat (push_bit (24 - ?p) hi OR mask (24 - ?p))))
       (build_route_lte_24_idx nh) st"
    using info hi p24
    by (simp add: build_route_lte_24_def TBL_PREFIX_LEN_def c_shl32_sub Let_def
        flip: mask_eq_exp_minus_1)
  also have "Suc (unat (push_bit (24 - ?p) hi OR mask (24 - ?p))) = lo + 2 ^ (24 - ?p)"
    by (simp add: max)
  finally show ?thesis by (simp only: lo)
qed

lemma covers_lte_24:
  assumes "plen info \<le> TBL_PREFIX_LEN" and "off < TBLLONG_ENTRY_SIZE"
  defines "lo \<equiv> unat (ip_addr info) div 2 ^ (32 - plen info) * 2 ^ (24 - plen info)"
  shows "covers info j off \<longleftrightarrow> lo \<le> j \<and> j < lo + 2 ^ (24 - plen info)"
proof -
  have "(2 :: nat) ^ (32 - plen info) = 256 * 2 ^ (24 - plen info)"
    using assms(1) power_add [of "2 :: nat" 8 "24 - plen info"] by (simp add: TBL_PREFIX_LEN_def)
  then have "(j * 256 + off) div 2 ^ (32 - plen info) = (j * 256 + off) div 256 div 2 ^ (24 - plen info)"
    by (simp add: div_mult2_eq)
  also have "(j * 256 + off) div 256 = j"
    using assms(2) by (simp add: TBLLONG_ENTRY_SIZE_def TBL_PREFIX_LEN_def)
  finally have "covers info j off \<longleftrightarrow>
      j div 2 ^ (24 - plen info) = unat (ip_addr info) div 2 ^ (32 - plen info)"
    by (simp add: covers_def TBLLONG_ENTRY_SIZE_def TBL_PREFIX_LEN_def)
  also have "\<dots> \<longleftrightarrow> lo \<le> j \<and> j < lo + 2 ^ (24 - plen info)"
    unfolding lo_def by (rule nat_div_eq_iff) simp
  finally show ?thesis .
qed

lemma lte_24_in_table:
  assumes "plen info \<le> TBL_PREFIX_LEN"
  shows "unat (ip_addr info) div 2 ^ (32 - plen info) * 2 ^ (24 - plen info) + 2 ^ (24 - plen info)
    \<le> TBL24_TABLE_SIZE"
proof -
  let ?p = "plen info" and ?q = "unat (ip_addr info) div 2 ^ (32 - plen info)"
  have "unat (ip_addr info) < 2 ^ ?p * 2 ^ (32 - ?p)"
    using unat_lt2p [of "ip_addr info"] assms by (simp add: TBL_PREFIX_LEN_def flip: power_add)
  then have "Suc ?q \<le> 2 ^ ?p" by (simp add: less_mult_imp_div_less Suc_le_eq)
  then have "Suc ?q * 2 ^ (24 - ?p) \<le> 2 ^ ?p * 2 ^ (24 - ?p)" by (rule mult_le_mono1)
  also have "\<dots> = TBL24_TABLE_SIZE"
    using assms by (simp add: TBL24_TABLE_SIZE_def TBL_PREFIX_LEN_def flip: power_add)
  finally show ?thesis by simp
qed

text \<open>What entering one route does: it is offered to exactly the cells it covers.\<close>

definition route_built :: "nat \<Rightarrow> uint16 \<Rightarrow> rt_state \<Rightarrow> rt_state \<Rightarrow> bool" where
  "route_built K nh st st' \<longleftrightarrow>
     rt_struct st' K \<and> rt_frame st st' \<and>
     unat (tbllong_table_idx st') \<le> Suc (unat (tbllong_table_idx st)) \<and>
     cells_offered nh (covers (infos_of st (unat nh))) st st'"

lemma build_route_lte_24_correct:
  assumes st: "rt_struct st K" and nh: "unat nh < K"
    and ok: "route_ok sm (infos_of st (unat nh))"
    and p: "plen (infos_of st (unat nh)) \<le> TBL_PREFIX_LEN"
  shows "\<exists>st'. build_route_lte_24 sm nh st = Inr st' \<and> route_built K nh st st'"
proof -
  define info where "info = infos_of st (unat nh)"
  define lo where "lo = unat (ip_addr info) div 2 ^ (32 - plen info) * 2 ^ (24 - plen info)"
  let ?hi = "lo + 2 ^ (24 - plen info)"
  let ?I = "\<lambda>i s. rt_struct s K \<and> rt_frame st s \<and> tbllong_table_idx s = tbllong_table_idx st \<and>
     cells_offered nh (\<lambda>j off. lo \<le> j \<and> j < i) st s"
  have nh256: "unat nh < alen (nh_id_to_info st)"
    using nh rt_struct_sizes [OF st] by (simp add: rt_size_defs)
  have in_table: "?hi \<le> TBL24_TABLE_SIZE"
    using lte_24_in_table p unfolding lo_def info_def by blast
  have step: "\<exists>s'. build_route_lte_24_idx nh i s = Inr s' \<and> ?I (Suc i) s'"
    if i: "lo \<le> i" "i < ?hi" and I: "?I i s" for i s
  proof -
    have same: "infos_of s = infos_of st" using I by (simp add: rt_frame_def)
    obtain s' where s': "build_route_lte_24_idx nh i s = Inr s'" "rt_struct s' K" "rt_frame s s'"
      "tbllong_table_idx s' = tbllong_table_idx s" "cells_offered nh (\<lambda>j off. j = i) s s'"
      using build_route_lte_24_idx_step [of s K nh i] I nh i in_table p same by auto
    have "cells_offered nh (\<lambda>j off. lo \<le> j \<and> j < Suc i) st s'"
      using s'(5) I i same by (auto simp: cells_offered_def less_Suc_eq)
    with s' I show ?thesis by (auto intro: rt_frame_trans)
  qed
  have "?I lo st" using st by (auto simp: cells_offered_def)
  then have "\<exists>s'. c_for lo ?hi (build_route_lte_24_idx nh) st = Inr s' \<and> ?I ?hi s'"
    using step by (intro c_for_rule [where I = ?I]) auto
  then obtain st' where st': "c_for lo ?hi (build_route_lte_24_idx nh) st = Inr st'" "?I ?hi st'"
    by blast
  moreover have "cells_offered nh (covers info) st st'"
    using st'(2) covers_lte_24 p unfolding cells_offered_def lo_def info_def by simp
  ultimately show ?thesis
    using build_route_lte_24_loop [OF _ nh256 ok p] unfolding lo_def info_def
    by (auto simp: route_built_def)
qed

section \<open>Routes of more than 24 bits\<close>

abbreviation long_lo :: "next_hop_info \<Rightarrow> nat" where
  "long_lo info \<equiv> unat (ip_addr info) mod TBLLONG_ENTRY_SIZE div 2 ^ (32 - plen info) * 2 ^ (32 - plen info)"

lemma entry_size_split:
  assumes "TBL_PREFIX_LEN < plen info" "plen info \<le> 32"
  shows "TBLLONG_ENTRY_SIZE = 2 ^ (plen info - 24) * 2 ^ (32 - plen info)"
  using assms by (simp add: TBLLONG_ENTRY_SIZE_def TBL_PREFIX_LEN_def flip: power_add)

lemma long_range_ok:
  assumes p: "TBL_PREFIX_LEN < plen info" "plen info \<le> 32"
  shows "\<exists>min_i max_i. long_range sm info = Inr (min_i, max_i) \<and> unat min_i = long_lo info \<and>
     Suc (unat max_i) = long_lo info + 2 ^ (32 - plen info)"
proof -
  let ?n = "32 - plen info"
  define w where "w = drop_bit ?n (ip_addr info AND mask (32 - TBL_PREFIX_LEN))"
  have w: "unat w * 2 ^ ?n = long_lo info"
    unfolding w_def unat_drop_bit_div unat_mask_mod TBLLONG_ENTRY_SIZE_def ..
  have "long_lo info \<le> unat (ip_addr info)"
    by (rule order_trans [OF div_times_less_eq_dividend mod_less_eq_dividend])
  also have "\<dots> < 2 ^ LENGTH(32)" by (rule unat_lt2p)
  finally have b: "unat w * 2 ^ ?n < 2 ^ LENGTH(32)" unfolding w .
  have sh: "c_shl32 sm 1 (32 - uint (prefix info)) = Inr (push_bit ?n 1)"
    using p by (intro c_shl32_sub) (simp_all add: TBL_PREFIX_LEN_def)
  have "long_range sm info = Inr (push_bit ?n w, push_bit ?n w OR mask ?n)"
    unfolding long_range_def sh cbind_Inr Let_def push_bit_minus_mask and_not_mask w_def ..
  moreover have "unat (push_bit ?n w) = long_lo info"
    unfolding w [symmetric] using b by (rule unat_push_bit)
  moreover have "Suc (unat (push_bit ?n w OR mask ?n)) = long_lo info + 2 ^ ?n"
    unfolding w [symmetric] using unat_push_or_mask [OF b] by simp
  ultimately show ?thesis by blast
qed

lemma long_hi_in_entry:
  assumes p: "TBL_PREFIX_LEN < plen info" "plen info \<le> 32"
  shows "long_lo info + 2 ^ (32 - plen info) \<le> TBLLONG_ENTRY_SIZE"
proof -
  let ?d = "2 ^ (32 - plen info) :: nat" and ?m = "2 ^ (plen info - 24) :: nat"
  have "unat (ip_addr info) mod (?m * ?d) < ?m * ?d" by simp
  then have "Suc (unat (ip_addr info) mod (?m * ?d) div ?d) \<le> ?m"
    by (simp add: less_mult_imp_div_less Suc_le_eq)
  then have "Suc (unat (ip_addr info) mod (?m * ?d) div ?d) * ?d \<le> ?m * ?d"
    by (rule mult_le_mono1)
  then show ?thesis by (simp add: entry_size_split [OF p])
qed

lemma split_div_eq:
  fixes a a' b b' m d :: nat
  assumes "b < m * d" "b' < m * d"
  shows "(a * (m * d) + b) div d = (a' * (m * d) + b') div d \<longleftrightarrow> a = a' \<and> b div d = b' div d"
proof (cases "d = 0")
  case False
  have eq: "(x * (m * d) + y) div d = x * m + y div d" for x y
    using False by (simp flip: mult.assoc)
  have "b div d < m" "b' div d < m" using assms by (simp_all add: less_mult_imp_div_less)
  then have "a * m + b div d = a' * m + b' div d \<longleftrightarrow> a = a' \<and> b div d = b' div d"
    by (metis add_right_cancel div_mult_self3 div_less add.commute add_0 not_less0)
  then show ?thesis by (simp add: eq)
qed (use assms in simp)

lemma covers_gt_24:
  assumes p: "TBL_PREFIX_LEN < plen info" "plen info \<le> 32" and off: "off < TBLLONG_ENTRY_SIZE"
  shows "covers info j off \<longleftrightarrow> j = unat (ip_addr info) div TBLLONG_ENTRY_SIZE \<and>
     long_lo info \<le> off \<and> off < long_lo info + 2 ^ (32 - plen info)"
proof -
  let ?A = "unat (ip_addr info)" and ?d = "2 ^ (32 - plen info) :: nat"
    and ?m = "2 ^ (plen info - 24) :: nat"
  note sz = entry_size_split [OF p]
  have A: "?A = ?A div (?m * ?d) * (?m * ?d) + ?A mod (?m * ?d)"
    by (simp only: div_mult_mod_eq)
  have "covers info j off \<longleftrightarrow> (j * (?m * ?d) + off) div ?d =
      (?A div (?m * ?d) * (?m * ?d) + ?A mod (?m * ?d)) div ?d"
    unfolding covers_def sz A [symmetric] ..
  also have "\<dots> \<longleftrightarrow> j = ?A div (?m * ?d) \<and> off div ?d = ?A mod (?m * ?d) div ?d"
    using off by (intro split_div_eq) (simp_all add: sz)
  also have "off div ?d = ?A mod (?m * ?d) div ?d \<longleftrightarrow>
      long_lo info \<le> off \<and> off < long_lo info + ?d"
    unfolding sz by (rule nat_div_eq_iff) simp
  finally show ?thesis by (simp add: sz)
qed

text \<open>Taking a fresh second-level array for a first-level entry.\<close>

definition alloc_long :: "nat \<Rightarrow> rt_state \<Rightarrow> rt_state" where
  "alloc_long idx st =
     put24 idx (set_is_long 1 (set_next_id (tbllong_table_idx st) (aget (tbl24_table st) idx)))
       (st\<lparr>tbllong_table_idx := tbllong_table_idx st + 1\<rparr>)"

lemma alloc_long_simps [simp]:
  "tbllong_table (alloc_long idx st) = tbllong_table st"
  "tbllong_table_idx (alloc_long idx st) = tbllong_table_idx st + 1"
  "nh_id_to_info (alloc_long idx st) = nh_id_to_info st"
  "rt_frame st' (alloc_long idx st) = rt_frame st' st"
  "j \<noteq> idx \<Longrightarrow> aget (tbl24_table (alloc_long idx st)) j = aget (tbl24_table st) j"
  "is_long (aget (tbl24_table (alloc_long idx st)) idx) = 1"
  "alen (tbl24_table (alloc_long idx st)) = alen (tbl24_table st)"
  by (simp_all add: alloc_long_def rt_frame_def)

lemma unat_next_idx:
  "unat (tbllong_table_idx st) < TBLLONG_TABLE_SIZE \<Longrightarrow>
   unat (tbllong_table_idx st + 1) = Suc (unat (tbllong_table_idx st))"
  by (simp add: TBLLONG_TABLE_SIZE_def unat_word_ariths)

lemma next_id_alloc_long:
  "unat (tbllong_table_idx st) < TBLLONG_TABLE_SIZE \<Longrightarrow>
   next_id (aget (tbl24_table (alloc_long idx st)) idx) = tbllong_table_idx st"
  by (simp add: alloc_long_def is_long_route_id)

lemma rt_struct_alloc_long:
  assumes st: "rt_struct st K" and t: "unat (tbllong_table_idx st) < TBLLONG_TABLE_SIZE"
  shows "rt_struct (alloc_long idx st) K"
proof -
  let ?st = "alloc_long idx st"
  have idx: "unat (tbllong_table_idx ?st) = Suc (unat (tbllong_table_idx st))"
    using unat_next_idx [OF t] by simp
  have entry: "entry_ok ?st K (aget (tbl24_table ?st) j)" if "j < TBL24_TABLE_SIZE" for j
    using rt_struct_entry [OF st that] idx next_id_alloc_long [OF t]
    by (cases "j = idx") (auto simp: entry_ok_def)
  have inj: "i = j" if ij: "i < TBL24_TABLE_SIZE" "j < TBL24_TABLE_SIZE"
    "is_long (aget (tbl24_table ?st) i) \<noteq> 0" "is_long (aget (tbl24_table ?st) j) \<noteq> 0"
    "next_id (aget (tbl24_table ?st) i) = next_id (aget (tbl24_table ?st) j)" for i j
  proof -
    have old: "next_id (aget (tbl24_table st) k) \<noteq> tbllong_table_idx st"
      if "k < TBL24_TABLE_SIZE" "is_long (aget (tbl24_table st) k) \<noteq> 0" for k
      using rt_struct_long(1) [OF st that] by auto
    have "i = j" if "i \<noteq> idx" "j \<noteq> idx"
      using that ij st unfolding rt_struct_def by (metis alloc_long_simps(5))
    then show ?thesis
      using ij old [of i] old [of j] next_id_alloc_long [OF t, of idx]
      by (metis alloc_long_simps(5))
  qed
  show ?thesis
    using st idx t entry inj unfolding rt_struct_def rt_sizes_def by auto
qed

lemma cell_alloc_long:
  assumes st: "rt_struct st K" and t: "unat (tbllong_table_idx st) < TBLLONG_TABLE_SIZE"
    and off: "off < TBLLONG_ENTRY_SIZE"
  shows "cell (alloc_long idx st) j off = (if j = idx then INVALID_NH_ID else cell st j off)"
  using st t off next_id_alloc_long [OF t, of idx]
  by (cases "j = idx") (auto simp: cell_def Let_def rt_struct_def)

lemma build_route_gt_24_idx_eq:
  assumes st: "rt_struct st K" and nh: "unat nh < K" and idx: "idx < TBL24_TABLE_SIZE"
    and t: "unat (tbllong_table_idx st) < TBLLONG_TABLE_SIZE"
    and p: "TBL_PREFIX_LEN < plen (infos_of st (unat nh))" "plen (infos_of st (unat nh)) \<le> 32"
  defines "info \<equiv> infos_of st (unat nh)"
  shows "build_route_gt_24_idx sm nh idx st =
     Inr (map_long (\<lambda>_. nh) (long_lo info) (long_lo info + 2 ^ (32 - plen info))
            (unat (tbllong_table_idx st)) (alloc_long idx st))"
proof -
  note sizes = rt_struct_sizes [OF st]
  let ?l = "unat (tbllong_table_idx st)"
  obtain min_i max_i where r: "long_range sm info = Inr (min_i, max_i)" "unat min_i = long_lo info"
    "Suc (unat max_i) = long_lo info + 2 ^ (32 - plen info)"
    using long_range_ok [of info sm] p unfolding info_def by blast
  have l: "next_id (tbllong_table_idx st) = tbllong_table_idx st"
    using t by (simp add: is_long_route_id)
  have wr: "tbl24_write idx (set_is_long 1 (set_next_id (tbllong_table_idx st) (aget (tbl24_table st) idx)))
      (st\<lparr>tbllong_table_idx := tbllong_table_idx st + 1\<rparr>) = Inr (alloc_long idx st)"
    using idx sizes by (simp add: tbl24_write_put alloc_long_def)
  have "c_for (unat min_i) (Suc (unat max_i)) (\<lambda>i. tbllong_write ?l i nh) (alloc_long idx st) =
     Inr (map_long (\<lambda>_. nh) (long_lo info) (long_lo info + 2 ^ (32 - plen info)) ?l (alloc_long idx st))"
    unfolding r(2,3) using sizes t long_hi_in_entry [of info] p
    by (intro write_loop) (simp_all add: info_def)
  moreover have "unat nh < alen (nh_id_to_info st)" using nh sizes by (simp add: rt_size_defs)
  ultimately show ?thesis
    using t idx sizes wr r l
    by (simp add: build_route_gt_24_idx_def tbl24_read_def info_def)
qed

lemma offer_short_then_long:
  assumes "unat nh < K" "K \<le> TBLLONG_TABLE_SIZE" and "prefix (infos (unat c)) < prefix (infos (unat nh))"
  shows "offer infos c nh = nh" and "offer infos nh c = nh"
  using assms by (auto simp: offer_def rt_size_defs)

lemma ip_index_in_table: "unat ip div TBLLONG_ENTRY_SIZE < TBL24_TABLE_SIZE" for ip :: uint32
  using unat_lt2p [of ip]
  by (simp add: rt_size_defs less_mult_imp_div_less)

lemma unat_ip_index: "unat (drop_bit (32 - TBL_PREFIX_LEN) ip) = unat ip div TBLLONG_ENTRY_SIZE"
  by (simp only: unat_drop_bit_div TBLLONG_ENTRY_SIZE_def)

lemma build_route_gt_24_alloc:
  assumes st: "rt_struct st K" and nh: "unat nh < K"
    and t: "unat (tbllong_table_idx st) < TBLLONG_TABLE_SIZE"
    and p: "TBL_PREFIX_LEN < plen (infos_of st (unat nh))" "plen (infos_of st (unat nh)) \<le> 32"
  defines "idx \<equiv> unat (ip_addr (infos_of st (unat nh))) div TBLLONG_ENTRY_SIZE"
  shows "\<exists>st'. build_route_gt_24_idx sm nh idx st = Inr st' \<and> rt_struct st' K \<and> rt_frame st st' \<and>
     tbllong_table_idx st' = tbllong_table_idx st + 1 \<and>
     aget (tbl24_table st') idx = aget (tbl24_table (alloc_long idx st)) idx \<and>
     (\<forall>j<TBL24_TABLE_SIZE. \<forall>off<TBLLONG_ENTRY_SIZE.
        cell st' j off = (if covers (infos_of st (unat nh)) j off then nh
                          else if j = idx then INVALID_NH_ID else cell st j off))"
proof -
  let ?info = "infos_of st (unat nh)"
  let ?st = "alloc_long idx st"
  let ?lo = "long_lo ?info" and ?hi = "long_lo ?info + 2 ^ (32 - plen ?info)"
  have idx: "idx < TBL24_TABLE_SIZE" unfolding idx_def by (rule ip_index_in_table)
  note stA = rt_struct_alloc_long [OF st t, of idx]
  have longA: "is_long (aget (tbl24_table ?st) idx) \<noteq> 0" by simp
  have l: "unat (tbllong_table_idx st) = unat (next_id (aget (tbl24_table ?st) idx))"
    by (simp add: next_id_alloc_long [OF t])
  let ?st' = "map_long (\<lambda>_. nh) ?lo ?hi (unat (tbllong_table_idx st)) ?st"
  have "rt_struct ?st' K"
    using unat_next_idx [OF t] nh by (intro rt_struct_map_long [OF stA]) (auto simp: valid_id_def)
  moreover have "cell ?st' j off = (if covers ?info j off then nh
      else if j = idx then INVALID_NH_ID else cell st j off)"
    if "j < TBL24_TABLE_SIZE" "off < TBLLONG_ENTRY_SIZE" for j off
    unfolding l using cell_map_long [OF stA idx longA that(1), of "\<lambda>_. nh" ?lo ?hi off]
      cell_alloc_long [OF st t that(2), of idx j] covers_gt_24 [OF p that(2), of j]
    unfolding idx_def [symmetric] by (simp split: if_splits)
  ultimately show ?thesis
    unfolding build_route_gt_24_idx_eq [OF st nh idx t p, of sm] by simp
qed

lemma build_route_gt_24_cases:
  assumes st: "rt_struct st K" and nh: "unat nh < K"
  defines "idx \<equiv> unat (ip_addr (infos_of st (unat nh))) div TBLLONG_ENTRY_SIZE"
  defines "e \<equiv> aget (tbl24_table st) idx"
  shows "build_route_gt_24 sm nh st =
     (if e = INVALID_NH_ID then build_route_gt_24_idx sm nh idx st
      else if is_long e = 0 then
        cbind (build_route_gt_24_idx sm nh idx st) (\<lambda>st.
        cbind (tbl24_read st idx) (\<lambda>e'. build_route_lte_24_long_idx (next_id e) (next_id e') st))
      else build_route_gt_24_long_idx sm nh (next_id e) st)"
  using nh rt_struct_sizes [OF st] ip_index_in_table [of "ip_addr (infos_of st (unat nh))"]
  by (simp add: build_route_gt_24_def tbl24_read_def unat_ip_index idx_def e_def Let_def
      TBLLONG_TABLE_SIZE_def NH_ID_TO_INFO_SIZE_def)

lemma build_route_gt_24_long:
  assumes st: "rt_struct st K" and nh: "unat nh < K"
    and p: "TBL_PREFIX_LEN < plen (infos_of st (unat nh))" "plen (infos_of st (unat nh)) \<le> 32"
  defines "idx \<equiv> unat (ip_addr (infos_of st (unat nh))) div TBLLONG_ENTRY_SIZE"
  assumes long: "is_long (aget (tbl24_table st) idx) \<noteq> 0"
  shows "\<exists>st'. build_route_gt_24 sm nh st = Inr st' \<and> route_built K nh st st'"
proof -
  let ?info = "infos_of st (unat nh)" and ?e = "aget (tbl24_table st) idx"
  let ?f = "offer (infos_of st) nh" and ?lo = "long_lo ?info"
    and ?hi = "long_lo ?info + 2 ^ (32 - plen ?info)"
  let ?st' = "map_long ?f ?lo ?hi (unat (next_id ?e)) st"
  note sizes = rt_struct_sizes [OF st]
  have idx: "idx < TBL24_TABLE_SIZE" unfolding idx_def by (rule ip_index_in_table)
  have nh256: "unat nh < NH_ID_TO_INFO_SIZE" using nh sizes by (simp add: rt_size_defs)
  note l = rt_struct_long [OF st idx long]
  obtain min_i max_i where r: "long_range sm ?info = Inr (min_i, max_i)" "unat min_i = ?lo"
    "Suc (unat max_i) = ?hi"
    using long_range_ok [OF p] by blast
  have "c_for ?lo ?hi (replace_long_cell nh (next_id ?e)) st = Inr ?st'"
    by (rule replace_loop)
      (use l nh256 sizes long_hi_in_entry [OF p] rt_struct_cell_info [OF st l(2)] in simp_all)
  with r nh256 sizes have "build_route_gt_24_long_idx sm nh (next_id ?e) st = Inr ?st'"
    by (simp add: build_route_gt_24_long_idx_def)
  moreover have "?e \<noteq> INVALID_NH_ID" using long by auto
  ultimately have "build_route_gt_24 sm nh st = Inr ?st'"
    using build_route_gt_24_cases [OF st nh, of sm] long by (simp add: idx_def)
  moreover have "rt_struct ?st' K"
    using l nh by (intro rt_struct_map_long [OF st]) (auto simp: offer_valid)
  moreover have "cells_offered nh (covers ?info) st ?st'"
    unfolding cells_offered_def
    using cell_map_long [OF st idx long] covers_gt_24 [OF p] by (auto simp: idx_def)
  ultimately show ?thesis by (auto simp: route_built_def)
qed

lemma build_route_gt_24_short:
  assumes st: "rt_struct st K" and nh: "unat nh < K"
    and t: "unat (tbllong_table_idx st) < TBLLONG_TABLE_SIZE"
    and p: "TBL_PREFIX_LEN < plen (infos_of st (unat nh))" "plen (infos_of st (unat nh)) \<le> 32"
  defines "idx \<equiv> unat (ip_addr (infos_of st (unat nh))) div TBLLONG_ENTRY_SIZE"
  assumes short: "is_long (aget (tbl24_table st) idx) = 0"
  shows "\<exists>st'. build_route_gt_24 sm nh st = Inr st' \<and> route_built K nh st st'"
proof -
  let ?info = "infos_of st (unat nh)" and ?e = "aget (tbl24_table st) idx"
  note cases = build_route_gt_24_cases [OF st nh, of sm, folded idx_def]
  have idx: "idx < TBL24_TABLE_SIZE" unfolding idx_def by (rule ip_index_in_table)
  have covers_idx: "\<not> covers ?info j off" if "j \<noteq> idx" "off < TBLLONG_ENTRY_SIZE" for j off
    using that covers_gt_24 [OF p that(2)] by (simp add: idx_def)
  have celle: "cell st idx off = ?e" for off using short by (simp add: cell_def)
  obtain st1 where st1: "build_route_gt_24_idx sm nh idx st = Inr st1" "rt_struct st1 K"
    "rt_frame st st1" "tbllong_table_idx st1 = tbllong_table_idx st + 1"
    "aget (tbl24_table st1) idx = aget (tbl24_table (alloc_long idx st)) idx"
    "\<And>j off. j < TBL24_TABLE_SIZE \<Longrightarrow> off < TBLLONG_ENTRY_SIZE \<Longrightarrow>
       cell st1 j off = (if covers ?info j off then nh
                         else if j = idx then INVALID_NH_ID else cell st j off)"
    using build_route_gt_24_alloc [OF st nh t p, of sm] unfolding idx_def by blast
  have same: "infos_of st1 = infos_of st" using st1(3) by (simp add: rt_frame_def)
  show ?thesis
  proof (cases "?e = INVALID_NH_ID")
    case invalid: True
    have "cells_offered nh (covers ?info) st st1"
      unfolding cells_offered_def
    proof (intro allI impI)
      fix j off assume "j < TBL24_TABLE_SIZE" "off < TBLLONG_ENTRY_SIZE"
      with st1(6) [of j off] covers_idx celle [of off] invalid
      show "cell st1 j off = (if covers ?info j off then offer (infos_of st) nh (cell st j off)
          else cell st j off)"
        by (cases "j = idx") (simp_all add: offer_def)
    qed
    then show ?thesis
      using cases invalid st1 unat_next_idx [OF t] by (auto simp: route_built_def)
  next
    case used: False
    have e: "unat ?e < K" "plen (infos_of st (unat ?e)) \<le> TBL_PREFIX_LEN"
      using rt_struct_entry [OF st idx] short used by (auto simp: entry_ok_def)
    then have less: "prefix (infos_of st (unat ?e)) < prefix ?info"
      using p by (simp add: word_less_nat_alt)
    have long1: "is_long (aget (tbl24_table st1) idx) \<noteq> 0" using st1(5) by simp
    then have lte: "build_route_lte_24_idx ?e idx st1 =
        build_route_lte_24_long_idx ?e (next_id (aget (tbl24_table st1) idx)) st1"
      using idx rt_struct_sizes [OF st1(2)]
      by (auto simp: build_route_lte_24_idx_def tbl24_read_def)
    obtain st2 where st2: "build_route_lte_24_idx ?e idx st1 = Inr st2" "rt_struct st2 K"
      "rt_frame st1 st2" "tbllong_table_idx st2 = tbllong_table_idx st1"
      "cells_offered ?e (\<lambda>j off. j = idx) st1 st2"
      using build_route_lte_24_idx_step [OF st1(2) e(1) idx] e(2) same by auto
    have "build_route_gt_24 sm nh st = Inr st2"
      using cases used short st1(1) st2(1) lte idx rt_struct_sizes [OF st1(2)]
      by (simp add: tbl24_read_def)
    moreover have "cells_offered nh (covers ?info) st st2"
      unfolding cells_offered_def
    proof (intro allI impI)
      fix j off assume jo: "j < TBL24_TABLE_SIZE" "off < TBLLONG_ENTRY_SIZE"
      have inv: "offer (infos_of st) ?e INVALID_NH_ID = ?e" by (simp add: offer_def)
      from st2(5) jo have "cell st2 j off =
          (if j = idx then offer (infos_of st) ?e (cell st1 j off) else cell st1 j off)"
        by (simp add: cells_offered_def same)
      with st1(6) [OF jo] covers_idx celle [of off] jo inv
        offer_short_then_long [OF nh rt_struct_sizes(5) [OF st] less]
      show "cell st2 j off = (if covers ?info j off then offer (infos_of st) nh (cell st j off)
          else cell st j off)"
        by (cases "j = idx") simp_all
    qed
    moreover have "unat (tbllong_table_idx st2) \<le> Suc (unat (tbllong_table_idx st))"
      using st2(4) st1(4) unat_next_idx [OF t] by simp
    ultimately show ?thesis
      using st2 st1(3) by (auto simp: route_built_def intro: rt_frame_trans)
  qed
qed

lemma build_route_gt_24_correct:
  assumes "rt_struct st K" "unat nh < K" "unat (tbllong_table_idx st) < TBLLONG_TABLE_SIZE"
    "TBL_PREFIX_LEN < plen (infos_of st (unat nh))" "plen (infos_of st (unat nh)) \<le> 32"
  shows "\<exists>st'. build_route_gt_24 sm nh st = Inr st' \<and> route_built K nh st st'"
  using build_route_gt_24_short [OF assms] build_route_gt_24_long [OF assms(1,2,4,5)] by blast

section \<open>Building the whole table\<close>

definition id_code :: "nat option \<Rightarrow> uint16" where
  "id_code r = (case r of None \<Rightarrow> INVALID_NH_ID | Some i \<Rightarrow> word_of_nat i)"

definition routes_of :: "rt_state \<Rightarrow> routes" where
  "routes_of st i = route_of (infos_of st i)"

definition ip_at :: "nat \<Rightarrow> nat \<Rightarrow> uint32" where
  "ip_at j off = word_of_nat (j * TBLLONG_ENTRY_SIZE + off)"

text \<open>After the first \<open>k\<close> routes every cell holds their longest prefix match.\<close>

definition rt_built :: "rt_state \<Rightarrow> nat \<Rightarrow> bool" where
  "rt_built st k \<longleftrightarrow>
     rt_struct st k \<and> unat (tbllong_table_idx st) \<le> k \<and>
     (\<forall>j<TBL24_TABLE_SIZE. \<forall>off<TBLLONG_ENTRY_SIZE.
        cell st j off = id_code (lpm (routes_of st) k (ip_at j off)))"

lemma unat_ip_at:
  assumes "j < TBL24_TABLE_SIZE" "off < TBLLONG_ENTRY_SIZE"
  shows "unat (ip_at j off) = j * TBLLONG_ENTRY_SIZE + off"
proof -
  have "j * TBLLONG_ENTRY_SIZE + off < 2 ^ LENGTH(32)" using assms by (simp add: rt_size_defs)
  then show ?thesis
    unfolding ip_at_def by (rule unat_of_nat_eq)
qed

lemma covers_matches:
  assumes "j < TBL24_TABLE_SIZE" "off < TBLLONG_ENTRY_SIZE"
  shows "covers info j off \<longleftrightarrow> prefix_matches (route_of info) (ip_at j off)"
  by (simp add: covers_def prefix_matches_unat unat_ip_at [OF assms] route_of_def)

lemma unat_id: "i < TBLLONG_TABLE_SIZE \<Longrightarrow> unat (word_of_nat i :: uint16) = i"
  by (simp add: TBLLONG_TABLE_SIZE_def unat_of_nat_eq)

lemma offer_lpm_better:
  assumes "k < TBLLONG_TABLE_SIZE" "\<And>i. r = Some i \<Longrightarrow> i < k" "prefix_matches (rs k) ip"
    and rs: "\<And>i. rs i = route_of (infos i)"
  shows "offer infos (word_of_nat k) (id_code r) = id_code (lpm_better rs ip r k)"
proof (cases r)
  case None
  with assms show ?thesis by (simp add: offer_def id_code_def lpm_better_def)
next
  case (Some i)
  with assms have "i < TBLLONG_TABLE_SIZE" by fastforce
  then have "(word_of_nat i :: uint16) \<noteq> INVALID_NH_ID"
    using unat_id [of i] by (auto simp: rt_size_defs)
  with Some assms \<open>i < TBLLONG_TABLE_SIZE\<close> show ?thesis
    by (simp add: offer_def id_code_def lpm_better_def rs route_of_def unat_id word_le_nat_alt)
qed

lemma build_route_step:
  assumes st: "rt_built st k" and k: "k < TBLLONG_TABLE_SIZE" and ok: "route_ok sm (infos_of st k)"
  shows "\<exists>st'. build_route sm k st = Inr st' \<and> rt_built st' (Suc k) \<and> rt_frame st st'"
proof -
  define nh :: uint16 where "nh = word_of_nat k"
  have nh: "unat nh = k" using k by (simp add: nh_def unat_id)
  have stK: "rt_struct st (Suc k)" and t: "unat (tbllong_table_idx st) \<le> k"
    using st k by (auto simp: rt_built_def intro: rt_struct_mono)
  have info: "nh_info st nh = Inr (infos_of st k)"
    using rt_struct_sizes [OF stK] k nh by (simp add: nh_info_def rt_size_defs)
  have "\<exists>st'. build_route sm k st = Inr st' \<and> route_built (Suc k) nh st st'"
  proof (cases "plen (infos_of st k) \<le> TBL_PREFIX_LEN")
    case True
    with build_route_lte_24_correct [OF stK, of nh sm] ok nh info show ?thesis
      by (auto simp: build_route_def route_ok_def nh_def [symmetric])
  next
    case False
    with build_route_gt_24_correct [OF stK, of nh sm] ok nh info t k show ?thesis
      by (auto simp: build_route_def route_ok_def nh_def [symmetric])
  qed
  then obtain st' where st': "build_route sm k st = Inr st'" "route_built (Suc k) nh st st'"
    by blast
  have same: "infos_of st' = infos_of st" using st'(2) by (simp add: route_built_def rt_frame_def)
  have "cell st' j off = id_code (lpm (routes_of st') (Suc k) (ip_at j off))"
    if jo: "j < TBL24_TABLE_SIZE" "off < TBLLONG_ENTRY_SIZE" for j off
  proof -
    let ?r = "lpm (routes_of st) k (ip_at j off)"
    have old: "cell st j off = id_code ?r" using st jo by (simp add: rt_built_def)
    have "routes_of st' = routes_of st" by (simp add: routes_of_def same fun_eq_iff)
    moreover have "cell st' j off = id_code (lpm_better (routes_of st) (ip_at j off) ?r k)"
    proof (cases "prefix_matches (routes_of st k) (ip_at j off)")
      case True
      then have "offer (infos_of st) nh (id_code ?r) =
          id_code (lpm_better (routes_of st) (ip_at j off) ?r k)"
        unfolding nh_def using k by (intro offer_lpm_better) (auto dest: lpm_less simp: routes_of_def)
      with True st'(2) jo old nh show ?thesis
        by (simp add: route_built_def cells_offered_def covers_matches routes_of_def)
    next
      case False
      with st'(2) jo old nh show ?thesis
        by (simp add: route_built_def cells_offered_def covers_matches routes_of_def lpm_better_def)
    qed
    ultimately show ?thesis by simp
  qed
  then have "rt_built st' (Suc k)"
    using st'(2) t by (auto simp: rt_built_def route_built_def)
  then show ?thesis using st' by (auto simp: route_built_def)
qed

lemma clear_long_prefix:
  assumes "alen t = TBLLONG_TABLE_SIZE" "\<forall>l<TBLLONG_TABLE_SIZE. alen (aget t l) = TBLLONG_ENTRY_SIZE"
    "n \<le> TBLLONG_TABLE_SIZE"
  shows "c_for 0 n (\<lambda>i t.
            cbind (aread t i) (\<lambda>ent.
            cbind (c_for 0 TBLLONG_ENTRY_SIZE (\<lambda>j ent. awrite ent j INVALID_NH_ID) ent) (\<lambda>ent'.
            awrite t i ent'))) t =
     Inr (CArray TBLLONG_TABLE_SIZE (\<lambda>l. if l < n
        then CArray TBLLONG_ENTRY_SIZE (\<lambda>i. if i < TBLLONG_ENTRY_SIZE then INVALID_NH_ID else aget (aget t l) i)
        else aget t l))"
  using assms(3)
proof (induction n)
  case 0
  show ?case using assms(1) by (cases t) simp
next
  case (Suc n)
  then show ?case
    using assms(1,2) by (auto simp: c_for_last afill_prefix fun_eq_iff less_Suc_eq)
qed

lemma clear_tables_ok:
  assumes st: "rt_sizes st"
  shows "\<exists>st'. clear_tables st = Inr st' \<and> rt_built st' 0 \<and> rt_frame st st'"
proof -
  define t24 where "t24 = CArray TBL24_TABLE_SIZE
    (\<lambda>i. if i < TBL24_TABLE_SIZE then INVALID_NH_ID else aget (tbl24_table st) i)"
  define tlong where "tlong = CArray TBLLONG_TABLE_SIZE (\<lambda>l. if l < TBLLONG_TABLE_SIZE
    then CArray TBLLONG_ENTRY_SIZE
      (\<lambda>i. if i < TBLLONG_ENTRY_SIZE then INVALID_NH_ID else aget (aget (tbllong_table st) l) i)
    else aget (tbllong_table st) l)"
  let ?st = "st\<lparr>tbllong_table_idx := 0, tbl24_table := t24, tbllong_table := tlong\<rparr>"
  have "clear_tables st = Inr ?st"
    using st clear_long_prefix [of "tbllong_table st" TBLLONG_TABLE_SIZE]
    by (simp add: clear_tables_def afill_prefix rt_sizes_def t24_def tlong_def)
  moreover have "rt_built ?st 0"
    using st by (simp add: rt_built_def rt_struct_def rt_sizes_def t24_def tlong_def entry_ok_def
        valid_id_def cell_def id_code_def)
  ultimately show ?thesis by (simp add: rt_frame_def)
qed

definition routes_ok :: "shift_model \<Rightarrow> rt_state \<Rightarrow> bool" where
  "routes_ok sm st \<longleftrightarrow> (\<forall>i<unat (nh_id_to_info_idx st). route_ok sm (infos_of st i))"

lemma cell_idx [simp]: "cell (st\<lparr>nh_id_to_info_idx := x\<rparr>) = cell st"
  by (simp add: cell_def fun_eq_iff Let_def)

lemma routes_of_idx [simp]: "routes_of (st\<lparr>nh_id_to_info_idx := x\<rparr>) = routes_of st"
  by (simp add: routes_of_def fun_eq_iff)

lemma entry_ok_idx [simp]: "entry_ok (st\<lparr>nh_id_to_info_idx := x\<rparr>) = entry_ok st"
  by (simp add: entry_ok_def fun_eq_iff)

lemma rt_built_idx: "rt_built (st\<lparr>nh_id_to_info_idx := x\<rparr>) n = rt_built st n"
  by (simp add: rt_built_def rt_struct_def rt_sizes_def)

lemma build_routing_table_built:
  assumes st: "rt_sizes st" and n: "unat (nh_id_to_info_idx st) \<le> TBLLONG_TABLE_SIZE"
    and ok: "routes_ok sm st"
  shows "\<exists>st'. build_routing_table sm st = Inr st' \<and> rt_built st' (unat (nh_id_to_info_idx st)) \<and>
     nh_id_to_info st' = nh_id_to_info st \<and> nh_id_to_info_idx st' = 0"
proof -
  let ?n = "unat (nh_id_to_info_idx st)"
  let ?I = "\<lambda>k s. rt_built s k \<and> rt_frame st s"
  obtain st0 where st0: "clear_tables st = Inr st0" "?I 0 st0"
    using clear_tables_ok [OF st] by blast
  have "\<exists>s'. c_for 0 ?n (build_route sm) st0 = Inr s' \<and> ?I ?n s'"
  proof (rule c_for_rule [where I = ?I])
    fix i s assume i: "i < ?n" and I: "?I i s"
    then have "route_ok sm (infos_of s i)" using ok by (simp add: routes_ok_def rt_frame_def)
    with build_route_step [of s i sm] I i n show "\<exists>s'. build_route sm i s = Inr s' \<and> ?I (Suc i) s'"
      by (auto intro: rt_frame_trans)
  qed (use st0 in auto)
  then obtain st1 where st1: "c_for 0 ?n (build_route sm) st0 = Inr st1" "?I ?n st1" by blast
  have "nh_id_to_info_idx st0 = nh_id_to_info_idx st" using st0(2) by (simp add: rt_frame_def)
  with st0(1) st1(1) have eq: "build_routing_table sm st = Inr (st1\<lparr>nh_id_to_info_idx := 0\<rparr>)"
    by (simp add: build_routing_table_def)
  show ?thesis using eq st1(2) by (simp add: rt_frame_def rt_built_idx)
qed

section \<open>Lookup\<close>

lemma ip_split:
  fixes ip :: uint32
  shows "ip_at (unat ip div TBLLONG_ENTRY_SIZE) (unat ip mod TBLLONG_ENTRY_SIZE) = ip"
  unfolding ip_at_def by simp

lemma unat_ent_idx: "unat (ip AND (push_bit (32 - TBL_PREFIX_LEN) 1 - 1)) = unat ip mod TBLLONG_ENTRY_SIZE"
  for ip :: uint32
  by (simp only: push_bit_minus_mask unat_mask_mod TBLLONG_ENTRY_SIZE_def)

lemma id_code_lpm:
  assumes "n \<le> TBLLONG_TABLE_SIZE"
  shows "id_code (lpm rs n ip) = INVALID_NH_ID \<longleftrightarrow> lpm rs n ip = None"
    and "id_code (lpm rs n ip) \<noteq> INVALID_NH_ID \<Longrightarrow>
      Some (unat (id_code (lpm rs n ip))) = lpm rs n ip \<and> unat (id_code (lpm rs n ip)) < n"
proof -
  have id: "unat (word_of_nat i :: uint16) = i" "(word_of_nat i :: uint16) \<noteq> INVALID_NH_ID"
    if "lpm rs n ip = Some i" for i
  proof -
    from lpm_less [OF that] assms have i: "i < TBLLONG_TABLE_SIZE" by simp
    show "unat (word_of_nat i :: uint16) = i" by (rule unat_id [OF i])
    then show "(word_of_nat i :: uint16) \<noteq> INVALID_NH_ID" using i by (auto simp: rt_size_defs)
  qed
  show "id_code (lpm rs n ip) = INVALID_NH_ID \<longleftrightarrow> lpm rs n ip = None"
    using id by (auto simp: id_code_def split: option.splits)
  show "Some (unat (id_code (lpm rs n ip))) = lpm rs n ip \<and> unat (id_code (lpm rs n ip)) < n"
    if "id_code (lpm rs n ip) \<noteq> INVALID_NH_ID"
    using that id by (auto simp: id_code_def lpm_less split: option.splits)
qed

lemma get_next_hop_lpm:
  assumes st: "rt_built st n"
  shows "get_next_hop ip st = Inr (lpm (routes_of st) n ip)"
proof -
  let ?j = "unat ip div TBLLONG_ENTRY_SIZE" and ?off = "unat ip mod TBLLONG_ENTRY_SIZE"
  let ?e = "aget (tbl24_table st) ?j" and ?r = "lpm (routes_of st) n ip"
  have S: "rt_struct st n" using st by (simp add: rt_built_def)
  note sizes = rt_struct_sizes [OF S]
  have j: "?j < TBL24_TABLE_SIZE" by (rule ip_index_in_table)
  have off: "?off < TBLLONG_ENTRY_SIZE" by (simp add: rt_size_defs)
  have c: "cell st ?j ?off = id_code ?r"
    using st j off ip_split [of ip] by (simp add: rt_built_def)
  note r = id_code_lpm [OF sizes(5), of "routes_of st" ip]
  have read: "tbl24_read st (unat (drop_bit (32 - TBL_PREFIX_LEN) ip)) = Inr ?e"
    using j sizes by (simp add: tbl24_read_def unat_ip_index)
  have info: "nh_info st (id_code ?r) = Inr (infos_of st (unat (id_code ?r)))"
    if "id_code ?r \<noteq> INVALID_NH_ID"
    using r(2) that sizes by (simp add: nh_info_def rt_size_defs)
  show ?thesis
  proof (cases "is_long ?e = 0")
    case True
    then have "?e = id_code ?r" using c by (simp add: cell_def)
    with True r info read show ?thesis
      by (cases "?e = INVALID_NH_ID") (simp_all add: get_next_hop_def)
  next
    case False
    then have long: "?e \<noteq> INVALID_NH_ID" by auto
    have "tbllong_read st (unat (next_id ?e)) ?off = Inr (id_code ?r)"
      using rt_struct_long(2) [OF S j False] sizes off c False
      by (simp add: tbllong_read_def cell_def)
    with long False r info read show ?thesis
      by (cases "id_code ?r = INVALID_NH_ID") (simp_all add: get_next_hop_def unat_ent_idx Let_def del: push_bit_of_1)
  qed
qed

end
