(* ===== verification/RoutingTable_Props.thy ===== *)
theory RoutingTable_Props
  imports RoutingTable_Correct
begin

text \<open>
  The routing table as the rest of the program uses it: the states that calls of
  \<open>add_route\<close> and \<open>build_routing_table\<close> can produce, what holds in all of them, when
  building succeeds, and what a lookup returns.
\<close>

section \<open>Reachable states\<close>

inductive rt_reachable :: "shift_model \<Rightarrow> rt_state \<Rightarrow> bool" for sm where
  initial: "rt_reachable sm rt_initial"
| add: "rt_reachable sm st \<Longrightarrow> add_route ip pfx mac port st = Inr st' \<Longrightarrow> rt_reachable sm st'"
| build: "rt_reachable sm st \<Longrightarrow> build_routing_table sm st = Inr st' \<Longrightarrow> rt_reachable sm st'"

definition rt_wf :: "rt_state \<Rightarrow> bool" where
  "rt_wf st \<longleftrightarrow>
     rt_sizes st \<and> unat (nh_id_to_info_idx st) \<le> TBLLONG_TABLE_SIZE \<and>
     (\<forall>i<NH_ID_TO_INFO_SIZE. plen (infos_of st i) \<le> 32) \<and>
     (\<forall>i<unat (nh_id_to_info_idx st). in_use (infos_of st i)) \<and>
     \<not> in_use (infos_of st TBLLONG_TABLE_SIZE)"

text \<open>Every index a lookup follows is inside the array it indexes.\<close>

definition lookup_safe :: "rt_state \<Rightarrow> bool" where
  "lookup_safe st \<longleftrightarrow>
     rt_sizes st \<and>
     (\<forall>idx<TBL24_TABLE_SIZE.
        if is_long (aget (tbl24_table st) idx) = 0
        then unat (aget (tbl24_table st) idx) < NH_ID_TO_INFO_SIZE
        else unat (next_id (aget (tbl24_table st) idx)) < TBLLONG_TABLE_SIZE) \<and>
     (\<forall>l<TBLLONG_TABLE_SIZE. \<forall>off<TBLLONG_ENTRY_SIZE.
        unat (aget (aget (tbllong_table st) l) off) < NH_ID_TO_INFO_SIZE)"

section \<open>Adding a route\<close>

lemma idx_word_iff: "nh_id_to_info_idx st \<ge> INVALID_NH_ID \<longleftrightarrow>
    \<not> unat (nh_id_to_info_idx st) < TBLLONG_TABLE_SIZE"
  by (simp add: word_le_nat_alt rt_size_defs not_less)

definition new_info :: "uint32 \<Rightarrow> uint8 \<Rightarrow> ether_addr \<Rightarrow> uint8 \<Rightarrow> next_hop_info" where
  "new_info ip pfx mac port =
     \<lparr>ip_addr = ip, prefix = (if pfx \<le> 32 then pfx else 32),
      next_hop = \<lparr>dst_mac = mac, dst_port = port\<rparr>, in_use = True\<rparr>"

lemma info_overwritten:
  "old\<lparr>ip_addr := a, prefix := p, next_hop := h, in_use := u\<rparr> =
   \<lparr>ip_addr = a, prefix = p, next_hop = h, in_use = u\<rparr>"
  by simp

lemma add_route_eq:
  assumes "rt_sizes st"
  shows "add_route ip pfx mac port st =
     (if unat (nh_id_to_info_idx st) < TBLLONG_TABLE_SIZE
      then Inr (st\<lparr>nh_id_to_info := CArray NH_ID_TO_INFO_SIZE
                    ((infos_of st)(unat (nh_id_to_info_idx st) := new_info ip pfx mac port)),
                   nh_id_to_info_idx := nh_id_to_info_idx st + 1\<rparr>)
      else Inl Exit_failure)"
proof (cases "unat (nh_id_to_info_idx st) < TBLLONG_TABLE_SIZE")
  case True
  then have "unat (nh_id_to_info_idx st) < alen (nh_id_to_info st)"
    using assms by (simp add: rt_sizes_def rt_size_defs)
  moreover have "\<not> INVALID_NH_ID \<le> nh_id_to_info_idx st" using True idx_word_iff by blast
  ultimately show ?thesis
    using True assms
    by (simp add: add_route_def new_info_def ether_addr_copy_def rt_sizes_def info_overwritten)
next
  case False
  then have "INVALID_NH_ID \<le> nh_id_to_info_idx st" using idx_word_iff by blast
  then show ?thesis using False by (simp add: add_route_def)
qed

lemma unat_idx_Suc:
  "unat (nh_id_to_info_idx st) < TBLLONG_TABLE_SIZE \<Longrightarrow>
   unat (nh_id_to_info_idx st + 1) = Suc (unat (nh_id_to_info_idx st))"
  by (simp add: TBLLONG_TABLE_SIZE_def unat_word_ariths)

lemma plen_new_info: "plen (new_info ip pfx mac port) \<le> 32"
  by (simp add: new_info_def word_le_nat_alt)

lemma rt_wf_add_route:
  assumes wf: "rt_wf st" and "add_route ip pfx mac port st = Inr st'"
  shows "rt_wf st'"
proof -
  have sz: "rt_sizes st" using wf by (simp add: rt_wf_def)
  have lt: "unat (nh_id_to_info_idx st) < TBLLONG_TABLE_SIZE"
    and st': "st' = st\<lparr>nh_id_to_info := CArray NH_ID_TO_INFO_SIZE
        ((infos_of st)(unat (nh_id_to_info_idx st) := new_info ip pfx mac port)),
        nh_id_to_info_idx := nh_id_to_info_idx st + 1\<rparr>"
    using assms(2) add_route_eq [OF sz] by (auto split: if_splits)
  show ?thesis
    using wf lt unat_idx_Suc [OF lt] plen_new_info
    unfolding rt_wf_def rt_sizes_def st'
    by (auto simp: new_info_def less_Suc_eq word_le_nat_alt)
qed

section \<open>When building succeeds\<close>

lemma build_route_default_fails:
  assumes built: "rt_built st k" and k: "k < TBLLONG_TABLE_SIZE"
    and info: "in_use (infos_of st k)" "plen (infos_of st k) \<le> 32" "\<not> route_ok sm (infos_of st k)"
  shows "build_route sm k st =
     Inl (case sm of ISO_C \<Rightarrow> Undefined_shift | X86_64 \<Rightarrow> Out_of_bounds)"
proof -
  define nh :: uint16 where "nh = word_of_nat k"
  let ?ip = "ip_addr (infos_of st k)"
  have S: "rt_struct st k" using built by (simp add: rt_built_def)
  note sizes = rt_struct_sizes [OF S]
  have nh: "unat nh = k" using k by (simp add: nh_def unat_id)
  have p0: "prefix (infos_of st k) = 0" and bad: "sm = X86_64 \<Longrightarrow> take_bit 8 ?ip \<noteq> 0"
    using info by (auto simp: route_ok_def)
  have rd: "nh_info st nh = Inr (infos_of st k)"
    using k nh sizes by (simp add: nh_info_def rt_size_defs)
  then have br: "build_route sm k st = build_route_lte_24 sm nh st"
    using info p0 by (simp add: build_route_def nh_def)
  show ?thesis
  proof (cases sm)
    case ISO_C
    then show ?thesis using br rd p0 by (simp add: build_route_lte_24_def c_shr32_def)
  next
    case X86_64
    let ?min = "push_bit 24 ?ip" and ?max = "push_bit 24 ?ip OR mask 24"
    have eq: "build_route_lte_24 sm nh st =
        c_for (unat ?min) (Suc (unat ?max)) (build_route_lte_24_idx nh) st"
      using rd p0 X86_64
      by (simp add: build_route_lte_24_def c_shr32_def TBL_PREFIX_LEN_def mask_eq_exp_minus_1)
    have "?min = push_bit 24 (take_bit 8 ?ip)"
      by (rule bit_word_eqI) (auto simp: bit_simps)
    moreover have "unat (take_bit 8 ?ip) * 2 ^ 24 < 2 ^ LENGTH(32)"
    proof -
      have "unat (?ip AND mask 8) < 256" unfolding unat_mask_mod by simp
      then show ?thesis by (simp add: take_bit_eq_mask)
    qed
    ultimately have "unat ?min = unat (take_bit 8 ?ip) * 2 ^ 24" by (simp only: unat_push_bit)
    moreover have "0 < unat (take_bit 8 ?ip)" using bad X86_64 by (simp add: unat_gt_0)
    ultimately have "\<not> unat ?min < TBL24_TABLE_SIZE" by (simp add: rt_size_defs)
    then have fails: "build_route_lte_24_idx nh (unat ?min) st = Inl Out_of_bounds"
      using sizes by (simp add: build_route_lte_24_idx_def tbl24_read_def)
    have "?min \<le> ?max" by (rule le_word_or2)
    then have "unat ?min < Suc (unat ?max)" by (simp add: word_le_nat_alt)
    with fails show ?thesis
      using br eq X86_64 by (simp add: c_for_step)
  qed
qed

lemma route_not_ok_cases:
  assumes wf: "rt_wf st" and "\<not> routes_ok sm st"
  obtains i where "i < unat (nh_id_to_info_idx st)" "\<not> route_ok sm (infos_of st i)"
    "\<And>j. j < i \<Longrightarrow> route_ok sm (infos_of st j)"
proof -
  let ?P = "\<lambda>i. i < unat (nh_id_to_info_idx st) \<and> \<not> route_ok sm (infos_of st i)"
  obtain i where "?P i" using assms(2) by (auto simp: routes_ok_def)
  then have "?P (LEAST i. ?P i)" by (rule LeastI)
  moreover have "route_ok sm (infos_of st j)" if "j < (LEAST i. ?P i)" for j
    using not_less_Least [OF that] that calculation by auto
  ultimately show ?thesis using that by blast
qed

lemma build_fails_if_not_ok:
  assumes wf: "rt_wf st" and bad: "\<not> routes_ok sm st"
  shows "build_routing_table sm st =
     Inl (case sm of ISO_C \<Rightarrow> Undefined_shift | X86_64 \<Rightarrow> Out_of_bounds)"
proof -
  obtain i where i: "i < unat (nh_id_to_info_idx st)" "\<not> route_ok sm (infos_of st i)"
    "\<And>j. j < i \<Longrightarrow> route_ok sm (infos_of st j)"
    using route_not_ok_cases [OF wf bad] by blast
  let ?I = "\<lambda>k s. rt_built s k \<and> rt_frame st s"
  have lt: "i < TBLLONG_TABLE_SIZE" using i(1) wf by (simp add: rt_wf_def)
  obtain st0 where st0: "clear_tables st = Inr st0" "?I 0 st0"
    using clear_tables_ok wf unfolding rt_wf_def by blast
  have "\<exists>s'. c_for 0 i (build_route sm) st0 = Inr s' \<and> ?I i s'"
  proof (rule c_for_rule [where I = ?I])
    fix j s assume j: "j < i" and I: "?I j s"
    then have "route_ok sm (infos_of s j)" using i(3) by (simp add: rt_frame_def)
    with build_route_step [of s j sm] I j lt show "\<exists>s'. build_route sm j s = Inr s' \<and> ?I (Suc j) s'"
      by (auto intro: rt_frame_trans)
  qed (use st0 in auto)
  then obtain s where s: "c_for 0 i (build_route sm) st0 = Inr s" "?I i s" by blast
  then have same: "infos_of s = infos_of st" by (simp add: rt_frame_def)
  have "build_route sm i s = Inl (case sm of ISO_C \<Rightarrow> Undefined_shift | X86_64 \<Rightarrow> Out_of_bounds)"
    using s(2) lt i wf same
    by (intro build_route_default_fails) (auto simp: rt_wf_def rt_size_defs)
  then have "c_for 0 (unat (nh_id_to_info_idx st)) (build_route sm) st0 =
      Inl (case sm of ISO_C \<Rightarrow> Undefined_shift | X86_64 \<Rightarrow> Out_of_bounds)"
    using i(1) s(1) by (intro c_for_fails_at) auto
  moreover have "nh_id_to_info_idx st0 = nh_id_to_info_idx st" using st0(2) by (simp add: rt_frame_def)
  ultimately show ?thesis using st0(1) by (simp add: build_routing_table_def)
qed

lemma rt_wf_build:
  assumes wf: "rt_wf st" and b: "build_routing_table sm st = Inr st'"
  shows "rt_wf st'" and "rt_built st' (unat (nh_id_to_info_idx st))"
    and "nh_id_to_info st' = nh_id_to_info st" and "nh_id_to_info_idx st' = 0" and "routes_ok sm st"
proof -
  show ok: "routes_ok sm st" using build_fails_if_not_ok [OF wf] b by force
  with build_routing_table_built [of st sm] wf b
  show built: "rt_built st' (unat (nh_id_to_info_idx st))"
    and info: "nh_id_to_info st' = nh_id_to_info st" and idx: "nh_id_to_info_idx st' = 0"
    by (auto simp: rt_wf_def)
  from built have "rt_sizes st'" by (simp add: rt_built_def rt_struct_def)
  then show "rt_wf st'" using wf info idx by (simp add: rt_wf_def)
qed

lemma rt_wf_initial: "rt_wf rt_initial"
  by (simp add: rt_wf_def rt_initial_def rt_sizes_def zero_nh_info_def)

lemma reachable_wf: "rt_reachable sm st \<Longrightarrow> rt_wf st"
  by (induction rule: rt_reachable.induct) (auto intro: rt_wf_initial rt_wf_add_route rt_wf_build)

section \<open>Lookups never leave the arrays\<close>

lemma lookup_safe_initial: "lookup_safe rt_initial"
  by (simp add: lookup_safe_def rt_initial_def rt_sizes_def rt_size_defs is_long_0_iff)

lemma lookup_safe_built: "rt_built st n \<Longrightarrow> lookup_safe st"
proof -
  assume b: "rt_built st n"
  then have S: "rt_struct st n" by (simp add: rt_built_def)
  have n: "n \<le> TBLLONG_TABLE_SIZE" by (rule rt_struct_sizes(5) [OF S])
  have "if is_long e = 0 then unat e < NH_ID_TO_INFO_SIZE else unat (next_id e) < TBLLONG_TABLE_SIZE"
    if "entry_ok st n e" for e
    using that n rt_struct_sizes(6) [OF S] by (auto simp: entry_ok_def rt_size_defs split: if_splits)
  moreover have "unat c < NH_ID_TO_INFO_SIZE" if "valid_id n c" for c
    using that n by (auto simp: valid_id_def rt_size_defs)
  ultimately show ?thesis using S unfolding lookup_safe_def rt_struct_def by blast
qed

lemma lookup_safe_add_route:
  "lookup_safe st \<Longrightarrow> rt_sizes st \<Longrightarrow> add_route ip pfx mac port st = Inr st' \<Longrightarrow> lookup_safe st'"
  by (auto simp: add_route_eq lookup_safe_def rt_sizes_def split: if_splits)

lemma reachable_lookup_safe: "rt_reachable sm st \<Longrightarrow> lookup_safe st"
proof (induction rule: rt_reachable.induct)
  case initial
  show ?case by (rule lookup_safe_initial)
next
  case (add st ip pfx mac port st')
  then show ?case using lookup_safe_add_route reachable_wf unfolding rt_wf_def by blast
next
  case (build st st')
  then show ?case using rt_wf_build(2) [OF reachable_wf] lookup_safe_built by blast
qed

lemma get_next_hop_safe:
  assumes "lookup_safe st"
  shows "\<exists>r. get_next_hop ip st = Inr r \<and> (\<forall>i. r = Some i \<longrightarrow> i < NH_ID_TO_INFO_SIZE)"
proof -
  let ?j = "unat ip div TBLLONG_ENTRY_SIZE" and ?off = "unat ip mod TBLLONG_ENTRY_SIZE"
  let ?e = "aget (tbl24_table st) ?j"
  have j: "?j < TBL24_TABLE_SIZE" by (rule ip_index_in_table)
  have off: "?off < TBLLONG_ENTRY_SIZE" by (simp add: rt_size_defs)
  have read: "tbl24_read st (unat (drop_bit (32 - TBL_PREFIX_LEN) ip)) = Inr ?e"
    using assms j by (simp add: tbl24_read_def unat_ip_index lookup_safe_def rt_sizes_def)
  have e: "if is_long ?e = 0 then unat ?e < NH_ID_TO_INFO_SIZE
      else unat (next_id ?e) < TBLLONG_TABLE_SIZE"
    using assms j unfolding lookup_safe_def by blast
  show ?thesis
  proof (cases "is_long ?e = 0")
    case True
    with e assms read show ?thesis
      by (auto simp: get_next_hop_def nh_info_def lookup_safe_def rt_sizes_def)
  next
    case False
    with e assms off have "tbllong_read st (unat (next_id ?e)) ?off =
        Inr (aget (aget (tbllong_table st) (unat (next_id ?e))) ?off)"
      by (simp add: tbllong_read_def lookup_safe_def rt_sizes_def)
    moreover have "unat (aget (aget (tbllong_table st) (unat (next_id ?e))) ?off) < NH_ID_TO_INFO_SIZE"
      using assms e False off unfolding lookup_safe_def by auto
    ultimately show ?thesis
      using False read assms
      by (auto simp: get_next_hop_def nh_info_def unat_ent_idx Let_def lookup_safe_def rt_sizes_def
          simp del: push_bit_of_1)
  qed
qed

section \<open>The routes of the repository's own test\<close>

definition test_mac :: "uint8 \<Rightarrow> ether_addr" where
  "test_mac i = \<lparr>addr_bytes = replicate 6 i\<rparr>"

definition test_infos :: infos where
  "test_infos = (\<lambda>_. zero_nh_info)
     (0 := new_info 0x0A000A00 24 (test_mac 0) 0, 1 := new_info 0x0A000A0A 32 (test_mac 1) 1)"

definition test_state :: rt_state where
  "test_state = rt_initial\<lparr>nh_id_to_info := CArray NH_ID_TO_INFO_SIZE test_infos, nh_id_to_info_idx := 2\<rparr>"

lemma test_state_added:
  "cbind (add_route 0x0A000A00 24 (test_mac 0) 0 rt_initial) (add_route 0x0A000A0A 32 (test_mac 1) 1) =
     Inr test_state"
  by (simp add: add_route_def rt_initial_def nh_info_def rt_size_defs ether_addr_copy_def
      test_state_def test_infos_def new_info_def info_overwritten word_le_nat_alt)

lemma test_state_reachable: "rt_reachable sm test_state"
  using test_state_added rt_reachable.intros unfolding cbind_eq_Inr_iff by metis

lemma test_state_sel [simp]:
  "unat (nh_id_to_info_idx test_state) = 2" "nh_id_to_info test_state = CArray NH_ID_TO_INFO_SIZE test_infos"
  by (simp_all add: test_state_def)

lemma test_routes_ok: "routes_ok sm test_state"
proof -
  have "i = 0 \<or> i = 1" if "i < 2" for i :: nat using that by arith
  then show ?thesis by (fastforce simp: routes_ok_def route_ok_def test_infos_def new_info_def)
qed

lemma lpm_2: "lpm rs 2 ip = lpm_better rs ip (lpm_better rs ip None 0) 1"
  by (simp add: numeral_2_eq_2)

lemma test_lpm:
  "lpm (routes_of test_state) 2 0x0A000A0A = Some 1"
  "lpm (routes_of test_state) 2 0x0A000A09 = Some 0"
  "lpm (routes_of test_state) 2 0x0A0009FF = None"
  by (simp_all add: lpm_2 lpm_better_def prefix_matches_def routes_of_def route_of_def
      test_infos_def new_info_def)

section \<open>Next hops\<close>

definition lookup_hop :: "rt_state \<Rightarrow> uint32 \<Rightarrow> routing_table_entry option cres" where
  "lookup_hop st ip =
     cbind (get_next_hop ip st) (\<lambda>r.
       case r of None \<Rightarrow> Inr None
       | Some p \<Rightarrow> cbind (deref_next_hop st p) (\<lambda>h. Inr (Some h)))"

text \<open>The next hop of the longest matching prefix among the first \<open>n\<close> routes.\<close>

definition lpm_hop :: "rt_state \<Rightarrow> nat \<Rightarrow> uint32 \<Rightarrow> routing_table_entry option" where
  "lpm_hop rt n ip = map_option (\<lambda>i. next_hop (infos_of rt i)) (lpm (routes_of rt) n ip)"

lemma lookup_hop_lpm:
  assumes "rt_built st n"
  shows "lookup_hop st ip = Inr (lpm_hop st n ip)"
proof -
  have sz: "n \<le> TBLLONG_TABLE_SIZE" "alen (nh_id_to_info st) = NH_ID_TO_INFO_SIZE"
    using assms rt_struct_sizes [of st n] by (auto simp: rt_built_def)
  then have "deref_next_hop st i = Inr (next_hop (infos_of st i))" if "i < n" for i
    using that by (simp add: deref_next_hop_def rt_size_defs)
  then show ?thesis
    using lpm_less [of "routes_of st" n ip]
    by (auto simp: lookup_hop_def lpm_hop_def get_next_hop_lpm [OF assms] split: option.split)
qed

text \<open>Routes collected one after the other.\<close>

type_synonym new_route = "uint32 \<times> uint8 \<times> ether_addr \<times> uint8"

fun new_route_info :: "new_route \<Rightarrow> next_hop_info" where
  "new_route_info (addr, len, mac, port) = new_info addr len mac port"

definition add_all :: "new_route list \<Rightarrow> rt_state \<Rightarrow> rt_state cres" where
  "add_all rs = c_iter rs (\<lambda>(addr, len, mac, port). add_route addr len mac port)"

lemma add_all_Nil [simp]: "add_all [] st = Inr st"
  by (simp add: add_all_def)

lemma add_all_Cons [simp]:
  "add_all ((ip, pfx, mac, port) # rs) st = cbind (add_route ip pfx mac port st) (add_all rs)"
  by (simp add: add_all_def)

lemma add_all_eq:
  assumes "length rs \<le> TBLLONG_TABLE_SIZE"
  shows "\<exists>st. add_all rs rt_initial = Inr st \<and> rt_reachable sm st
           \<and> unat (nh_id_to_info_idx st) = length rs
           \<and> (\<forall>i<length rs. infos_of st i = new_route_info (rs ! i))"
  using assms
proof (induction rs rule: rev_induct)
  case Nil
  then show ?case
    by (auto simp: add_all_def rt_reachable.initial) (simp add: rt_initial_def)
next
  case (snoc r rs)
  then obtain st where st: "add_all rs rt_initial = Inr st" "rt_reachable sm st"
    "unat (nh_id_to_info_idx st) = length rs" "\<forall>i<length rs. infos_of st i = new_route_info (rs ! i)"
    by auto
  have lt: "unat (nh_id_to_info_idx st) < TBLLONG_TABLE_SIZE"
    using snoc.prems st(3) by simp
  obtain addr len mac port where r: "r = (addr, len, mac, port)" by (cases r)
  have sz: "rt_sizes st" using reachable_wf [OF st(2)] by (simp add: rt_wf_def)
  obtain st' where st': "add_route addr len mac port st = Inr st'"
    "nh_id_to_info_idx st' = nh_id_to_info_idx st + 1"
    "infos_of st' = (infos_of st)(length rs := new_info addr len mac port)"
    using add_route_eq [OF sz, of addr len mac port] lt st(3) by auto
  have "rt_reachable sm st'" by (rule rt_reachable.add [OF st(2) st'(1)])
  then show ?case
    using st st' unat_idx_Suc [OF lt] r
    by (auto simp: add_all_def c_iter_append nth_append less_Suc_eq)
qed

lemma lpm_Suc_cases:
  "lpm rs (Suc n) ip =
     (if prefix_matches (rs n) ip \<and> (\<forall>i<n. prefix_matches (rs i) ip \<longrightarrow> snd (rs i) \<le> snd (rs n)) then Some n else lpm rs n ip)"
  using lpm_is_lpm [of rs n ip]
  by (cases "lpm rs n ip") (fastforce simp: lpm_better_def is_lpm_def)+

lemma unbuilt_lookup:
  assumes "tbl24_table st = tbl24_table rt_initial" and "rt_sizes st"
  shows "get_next_hop ip st = Inr (Some 0)"
  using assms ip_index_in_table [of ip]
  by (simp add: get_next_hop_def rt_initial_def tbl24_read_def unat_ip_index nh_info_def
      INVALID_NH_ID_def is_long_0_iff NH_ID_TO_INFO_SIZE_def rt_sizes_def)

lemma add_all_frame:
  assumes "add_all rs st = Inr st'" and "rt_sizes st" and "0 < unat (nh_id_to_info_idx st)"
  shows "tbl24_table st' = tbl24_table st" "rt_sizes st'" "infos_of st' 0 = infos_of st 0"
proof -
  have "tbl24_table st' = tbl24_table st \<and> rt_sizes st' \<and> infos_of st' 0 = infos_of st 0"
    using assms
  proof (induction rs arbitrary: st)
    case (Cons r rs)
    obtain ip pfx mac port where r: "r = (ip, pfx, mac, port)" by (cases r)
    then obtain st1 where s: "add_route ip pfx mac port st = Inr st1" "add_all rs st1 = Inr st'"
      using Cons.prems(1) by (auto simp: cbind_eq_Inr_iff)
    then have st1: "st1 = st\<lparr>nh_id_to_info := CArray NH_ID_TO_INFO_SIZE ((infos_of st)(unat (nh_id_to_info_idx st) := new_info ip pfx mac port)),
        nh_id_to_info_idx := nh_id_to_info_idx st + 1\<rparr>" and lt: "unat (nh_id_to_info_idx st) < TBLLONG_TABLE_SIZE"
      using add_route_eq [OF Cons.prems(2)] by (auto split: if_splits)
    have "rt_sizes st1" using Cons.prems(2) by (simp add: st1 rt_sizes_def)
    moreover have "0 < unat (nh_id_to_info_idx st1)" using unat_idx_Suc [OF lt] by (simp add: st1)
    ultimately show ?case using Cons.IH [OF s(2)] Cons.prems(3) by (simp add: st1)
  qed simp
  then show "tbl24_table st' = tbl24_table st" "rt_sizes st'" "infos_of st' 0 = infos_of st 0" by auto
qed

section \<open>Properties\<close>

text \<open>
  C1. The table computes longest prefix match. In every state that calls of
  \<open>add_route\<close> and \<open>build_routing_table\<close> can produce, if the shifts of building are defined for
  all collected routes (\<open>routes_ok\<close>: in ISO C no route has prefix length 0), building them
  succeeds, and afterwards the lookup of any address returns the matching route of
  greatest prefix length, the one added last among equals, or NULL when none matches.
\<close>

theorem lookup_is_longest_prefix_match:
  assumes "rt_reachable sm st" and "routes_ok sm st"
  shows "\<exists>st'. build_routing_table sm st = Inr st' \<and>
     (\<forall>ip. \<exists>r. get_next_hop ip st' = Inr r \<and>
        is_lpm (routes_of st) (unat (nh_id_to_info_idx st)) ip r)"
proof -
  let ?n = "unat (nh_id_to_info_idx st)"
  from reachable_wf [OF assms(1)] have wf: "rt_wf st" .
  then obtain st' where st': "build_routing_table sm st = Inr st'" "rt_built st' ?n"
    "nh_id_to_info st' = nh_id_to_info st"
    using build_routing_table_built [of st sm] assms(2) unfolding rt_wf_def by blast
  have "routes_of st' = routes_of st" using st'(3) by (simp add: routes_of_def fun_eq_iff)
  with get_next_hop_lpm [OF st'(2)] st'(1) show ?thesis by (simp add: lpm_is_lpm)
qed

theorem lookup_is_longest_prefix_match_witness:
  "rt_reachable ISO_C test_state \<and> routes_ok ISO_C test_state \<and>
   (\<exists>st'. build_routing_table ISO_C test_state = Inr st' \<and>
      get_next_hop 0x0A000A0A st' = Inr (Some 1) \<and>
      get_next_hop 0x0A000A09 st' = Inr (Some 0) \<and>
      get_next_hop 0x0A0009FF st' = Inr None)"
proof -
  obtain st' where "build_routing_table ISO_C test_state = Inr st'"
    "get_next_hop ip st' = Inr (lpm (routes_of test_state) 2 ip)" for ip
    using lookup_is_longest_prefix_match [OF test_state_reachable test_routes_ok, of ISO_C]
    by (auto simp: is_lpm_iff)
  then show ?thesis
    using test_state_reachable test_routes_ok by (simp add: test_lpm)
qed

text \<open>
  C9. Building stops the program only for a default route. In every reachable state
  \<open>build_routing_table\<close> returns exactly when all collected routes are ones its shifts
  are defined for: no array is left, and the exit for a full second-level table is
  never taken.
\<close>

theorem build_returns_iff_routes_ok:
  assumes "rt_reachable sm st"
  shows "(\<exists>st'. build_routing_table sm st = Inr st') \<longleftrightarrow> routes_ok sm st"
proof
  show "routes_ok sm st" if "\<exists>st'. build_routing_table sm st = Inr st'"
    using that rt_wf_build(5) [OF reachable_wf [OF assms]] by blast
  show "\<exists>st'. build_routing_table sm st = Inr st'" if "routes_ok sm st"
    using build_routing_table_built [of st sm] that reachable_wf [OF assms]
    unfolding rt_wf_def by blast
qed

theorem build_returns_iff_routes_ok_witness:
  "rt_reachable X86_64 test_state \<and> (\<exists>st'. build_routing_table X86_64 test_state = Inr st')"
  using build_returns_iff_routes_ok [OF test_state_reachable [of X86_64]] test_state_reachable
    test_routes_ok by blast

text \<open>
  C10. A default route makes building undefined in ISO C: \<open>_build_route_lte_24\<close> shifts the
  32-bit address by 32. As long as one collected route has prefix length 0, building
  stops at that shift, although the option parser accepts prefix length 0.
\<close>

theorem default_route_undefined:
  assumes "rt_reachable ISO_C st" and "i < unat (nh_id_to_info_idx st)"
    and "prefix (aget (nh_id_to_info st) i) = 0"
  shows "build_routing_table ISO_C st = Inl Undefined_shift"
proof -
  have "\<not> routes_ok ISO_C st" using assms(2,3) by (auto simp: routes_ok_def route_ok_def)
  with build_fails_if_not_ok [OF reachable_wf [OF assms(1)]] show ?thesis by simp
qed

theorem default_route_undefined_witness:
  "\<exists>st. rt_reachable ISO_C st \<and> 0 < unat (nh_id_to_info_idx st) \<and>
     prefix (aget (nh_id_to_info st) 0) = 0 \<and> build_routing_table ISO_C st = Inl Undefined_shift"
proof -
  obtain st where st: "add_route 0 0 (test_mac 0) 0 rt_initial = Inr st"
    "unat (nh_id_to_info_idx st) = 1" "prefix (aget (nh_id_to_info st) 0) = 0"
    by (simp add: add_route_def rt_initial_def nh_info_def rt_size_defs info_overwritten)
  then have "rt_reachable ISO_C st" by (blast intro: rt_reachable.intros)
  with default_route_undefined [of st 0] st show ?thesis by auto
qed

text \<open>
  C11. No lookup leaves an array: in every reachable state, built or not, \<open>get_next_hop\<close>
  returns NULL or a pointer to one of the 256 route records.
\<close>

theorem lookup_in_bounds:
  assumes "rt_reachable sm st"
  shows "\<exists>r. get_next_hop ip st = Inr r \<and> (r = None \<or> (\<exists>i<NH_ID_TO_INFO_SIZE. r = Some i))"
  using get_next_hop_safe [OF reachable_lookup_safe [OF assms], of ip] by (metis option.exhaust)

theorem lookup_in_bounds_witness:
  "\<exists>r. get_next_hop 0xFFFFFFFF test_state = Inr r"
  using lookup_in_bounds [OF test_state_reachable [of ISO_C]] by blast

text \<open>
  C12. The invariant of the route list: array sizes are kept, at most 255 routes are
  collected, every collected route is in use with a prefix length of at most 32, and
  the last record is never in use.
\<close>

theorem route_list_invariant:
  assumes "rt_reachable sm st"
  shows "rt_wf st"
  using assms by (rule reachable_wf)

theorem route_list_invariant_witness: "rt_wf test_state"
  using route_list_invariant [OF test_state_reachable [of ISO_C]] .

text \<open>
  C13. Adding a route changes exactly what it should. Building once without and once with a further
  route, the next hop of an address is the one of the new route when the route, its prefix length
  capped at 32, matches the address and no longer collected route does; for every other address it
  is the next hop without the route.
\<close>

theorem added_route_found:
  assumes "rt_reachable sm st" and "build_routing_table sm st = Inr st1"
    and "add_route ip pfx mac port st = Inr st'" and "build_routing_table sm st' = Inr st2"
  shows "lookup_hop st2 a =
     (if prefix_matches (ip, min (unat pfx) 32) a
        \<and> (\<forall>i<unat (nh_id_to_info_idx st). prefix_matches (routes_of st i) a \<longrightarrow> snd (routes_of st i) \<le> min (unat pfx) 32)
      then Inr (Some \<lparr>dst_mac = mac, dst_port = port\<rparr>) else lookup_hop st1 a)"
proof -
  let ?n = "unat (nh_id_to_info_idx st)"
  note wf = reachable_wf [OF assms(1)]
  have r': "rt_reachable sm st'" using assms(1,3) by (rule rt_reachable.add)
  note b1 = rt_wf_build [OF wf assms(2)] and b2 = rt_wf_build [OF reachable_wf [OF r'] assms(4)]
  have sz: "rt_sizes st" using wf by (simp add: rt_wf_def)
  have st': "st' = st\<lparr>nh_id_to_info := CArray NH_ID_TO_INFO_SIZE ((infos_of st)(?n := new_info ip pfx mac port)),
      nh_id_to_info_idx := nh_id_to_info_idx st + 1\<rparr>" and lt: "?n < TBLLONG_TABLE_SIZE"
    using assms(3) add_route_eq [OF sz] by (auto split: if_splits)
  have n': "unat (nh_id_to_info_idx st') = Suc ?n" using unat_idx_Suc [OF lt] by (simp add: st')
  have infos: "infos_of st1 = infos_of st" "infos_of st2 = (infos_of st)(?n := new_info ip pfx mac port)"
    using b1(3) b2(3) by (simp_all add: st')
  have plen: "plen (new_info ip pfx mac port) = min (unat pfx) 32"
    by (simp add: new_info_def min_def word_le_nat_alt)
  have routes: "routes_of st1 = routes_of st" "routes_of st2 = (routes_of st)(?n := (ip, min (unat pfx) 32))"
    using infos plen by (auto simp: routes_of_def route_of_def fun_eq_iff new_info_def)
  have "lpm (routes_of st2) ?n a = lpm (routes_of st) ?n a" by (rule lpm_cong) (simp add: routes)
  moreover have "next_hop (infos_of st2 i) = next_hop (infos_of st1 i)" if "lpm (routes_of st) ?n a = Some i" for i
    using lpm_less [OF that] by (simp add: infos)
  moreover have "next_hop (new_info ip pfx mac port) = \<lparr>dst_mac = mac, dst_port = port\<rparr>" by (simp add: new_info_def)
  ultimately show ?thesis
    using lookup_hop_lpm [OF b1(2), of a] lookup_hop_lpm [OF b2(2), of a] lpm_Suc_cases [of "routes_of st2" ?n a]
    by (cases "lpm (routes_of st) ?n a") (auto simp: n' lpm_hop_def routes infos)
qed

theorem added_route_found_witness:
  "\<exists>st1 st' st2. build_routing_table ISO_C test_state = Inr st1 \<and> add_route 0x0A000A08 30 (test_mac 2) 2 test_state = Inr st'
     \<and> build_routing_table ISO_C st' = Inr st2
     \<and> lookup_hop st2 0x0A000A09 = Inr (Some \<lparr>dst_mac = test_mac 2, dst_port = 2\<rparr>)
     \<and> lookup_hop st2 0x0A000A0A = lookup_hop st1 0x0A000A0A"
proof -
  note r = test_state_reachable [of ISO_C]
  have sz: "rt_sizes test_state" using reachable_wf [OF r] by (simp add: rt_wf_def)
  obtain st1 where st1: "build_routing_table ISO_C test_state = Inr st1"
    using build_routing_table_built [of test_state ISO_C] reachable_wf [OF r] test_routes_ok unfolding rt_wf_def by blast
  obtain st' where st': "add_route 0x0A000A08 30 (test_mac 2) 2 test_state = Inr st'"
    "st' = test_state\<lparr>nh_id_to_info := CArray NH_ID_TO_INFO_SIZE (test_infos(2 := new_info 0x0A000A08 30 (test_mac 2) 2)), nh_id_to_info_idx := 3\<rparr>"
    using add_route_eq [OF sz, of "0x0A000A08" 30 "test_mac 2" 2] by (simp add: TBLLONG_TABLE_SIZE_def test_state_def)
  have r': "rt_reachable ISO_C st'" by (rule rt_reachable.add [OF r st'(1)])
  have "i = 0 \<or> i = 1 \<or> i = 2" if "i < 3" for i :: nat using that by arith
  then have "routes_ok ISO_C st'"
    by (fastforce simp: routes_ok_def route_ok_def st'(2) test_infos_def new_info_def)
  then obtain st2 where st2: "build_routing_table ISO_C st' = Inr st2"
    using build_routing_table_built [of st' ISO_C] reachable_wf [OF r'] unfolding rt_wf_def by blast
  have all: "(\<forall>i<2. P i) \<longleftrightarrow> P 0 \<and> P (1 :: nat)" for P by (auto simp: less_2_cases_iff)
  note look = added_route_found [OF r st1 st'(1) st2]
  have "lookup_hop st2 0x0A000A09 = Inr (Some \<lparr>dst_mac = test_mac 2, dst_port = 2\<rparr>)"
    using look [of "0x0A000A09"] by (simp add: all routes_of_def route_of_def test_infos_def new_info_def prefix_matches_def)
  moreover have "lookup_hop st2 0x0A000A0A = lookup_hop st1 0x0A000A0A"
    using look [of "0x0A000A0A"] by (simp add: all routes_of_def route_of_def test_infos_def new_info_def prefix_matches_def)
  ultimately show ?thesis using st1 st'(1) st2 by blast
qed

text \<open>
  C14. The table built before is not protected against later routes. Building resets the
  route counter, so the next \<open>add_route\<close> overwrites record 0; lookups still return the
  same pointers, and an address that resolved to record 0 is from then on forwarded
  with the new route's next hop, whether the new route covers it or not.
\<close>

theorem add_after_build_redirects:
  assumes "rt_reachable sm st" and "build_routing_table sm st = Inr st1"
    and "add_route ip pfx mac port st1 = Inr st2" and "get_next_hop a st1 = Inr (Some 0)"
  shows "get_next_hop a st2 = Inr (Some 0) \<and>
     deref_next_hop st2 0 = Inr \<lparr>dst_mac = mac, dst_port = port\<rparr>"
proof -
  note wf = rt_wf_build [OF reachable_wf [OF assms(1)] assms(2)]
  have sz: "rt_sizes st1" using wf(1) by (simp add: rt_wf_def)
  have st2: "st2 = st1\<lparr>nh_id_to_info := CArray NH_ID_TO_INFO_SIZE ((infos_of st1)(0 := new_info ip pfx mac port)),
      nh_id_to_info_idx := 1\<rparr>"
    using assms(3) add_route_eq [OF sz] wf(4) by (simp add: TBLLONG_TABLE_SIZE_def)
  have "get_next_hop a st2 = get_next_hop a st1"
    using sz unfolding st2
    by (simp add: get_next_hop_def tbl24_read_def tbllong_read_def nh_info_def Let_def rt_sizes_def aread_def
        cong: if_cong)
  then show ?thesis
    using assms(4) by (simp add: deref_next_hop_def st2 new_info_def NH_ID_TO_INFO_SIZE_def)
qed

theorem add_after_build_redirects_witness:
  "\<exists>st1 st2. build_routing_table ISO_C test_state = Inr st1 \<and>
     add_route 0xC0A80000 16 (test_mac 7) 7 st1 = Inr st2 \<and>
     get_next_hop 0x0A000A09 st1 = Inr (Some 0) \<and>
     get_next_hop 0x0A000A09 st2 = Inr (Some 0) \<and>
     deref_next_hop st2 0 = Inr \<lparr>dst_mac = test_mac 7, dst_port = 7\<rparr>"
proof -
  note r = test_state_reachable [of ISO_C]
  obtain st1 where st1: "build_routing_table ISO_C test_state = Inr st1"
    using build_routing_table_built [of test_state ISO_C] reachable_wf [OF r] test_routes_ok
    unfolding rt_wf_def by blast
  note wf = rt_wf_build [OF reachable_wf [OF r] st1]
  have "routes_of st1 = routes_of test_state" using wf(3) by (simp add: routes_of_def fun_eq_iff)
  then have look: "get_next_hop 0x0A000A09 st1 = Inr (Some 0)"
    using get_next_hop_lpm [OF wf(2), of "0x0A000A09"] by (simp add: test_lpm)
  obtain st2 where st2: "add_route 0xC0A80000 16 (test_mac 7) 7 st1 = Inr st2"
    using add_route_eq [of st1 "0xC0A80000" 16 "test_mac 7" 7] wf(1,4) unfolding rt_wf_def by (simp add: TBLLONG_TABLE_SIZE_def)
  show ?thesis
    using add_after_build_redirects [OF r st1 st2 look] st1 st2 look by blast
qed

text \<open>
  C15. Before the first build the zeroed table answers every lookup with record 0 instead
  of NULL, because the zero entry is not the unused marker: however many routes have been collected,
  every address gets the next hop of the first of them, or the zeroed record when there is none.
\<close>

theorem lookup_before_build:
  assumes "add_all rs rt_initial = Inr st"
  shows "lookup_hop st ip = Inr (Some
     (case rs of [] \<Rightarrow> next_hop zero_nh_info | (_, _, mac, port) # _ \<Rightarrow> \<lparr>dst_mac = mac, dst_port = port\<rparr>))"
proof -
  have sz: "rt_sizes rt_initial" using rt_wf_initial by (simp add: rt_wf_def)
  have look: "lookup_hop st ip = Inr (Some (next_hop (infos_of st 0)))"
    if "tbl24_table st = tbl24_table rt_initial" "rt_sizes st"
    using unbuilt_lookup [OF that, of ip] that(2)
    by (simp add: lookup_hop_def deref_next_hop_def rt_sizes_def rt_size_defs)
  show ?thesis
  proof (cases rs)
    case Nil
    then have st: "st = rt_initial" using assms by simp
    have "infos_of rt_initial 0 = zero_nh_info" by (simp add: rt_initial_def)
    then show ?thesis using look sz Nil by (simp add: st)
  next
    case (Cons r rs')
    obtain i pfx mac port where r: "r = (i, pfx, mac, port)" by (cases r)
    define st1 where "st1 = rt_initial\<lparr>nh_id_to_info := CArray NH_ID_TO_INFO_SIZE ((infos_of rt_initial)(0 := new_info i pfx mac port)),
        nh_id_to_info_idx := 1\<rparr>"
    have "add_route i pfx mac port rt_initial = Inr st1"
      using add_route_eq [OF sz, of i pfx mac port] by (simp add: st1_def TBLLONG_TABLE_SIZE_def rt_initial_def)
    then have rest: "add_all rs' st1 = Inr st" using assms Cons r by simp
    have s1: "rt_sizes st1" "0 < unat (nh_id_to_info_idx st1)" "tbl24_table st1 = tbl24_table rt_initial"
      using sz by (simp_all add: st1_def rt_sizes_def)
    note f = add_all_frame [OF rest s1(1,2)]
    have "infos_of st1 0 = new_info i pfx mac port" by (simp add: st1_def)
    then show ?thesis using look f s1(3) Cons r by (simp add: new_info_def)
  qed
qed

theorem lookup_before_build_witness:
  "\<exists>st. add_all [(0x0A000A00, 24, test_mac 0, 0), (0x0A000A0A, 32, test_mac 1, 1)] rt_initial = Inr st
     \<and> lookup_hop st 0xC0A80001 = Inr (Some \<lparr>dst_mac = test_mac 0, dst_port = 0\<rparr>)"
proof -
  have a: "add_all [(0x0A000A00, 24, test_mac 0, 0), (0x0A000A0A, 32, test_mac 1, 1)] rt_initial = Inr test_state"
    using test_state_added by (auto simp: cbind_eq_Inr_iff)
  show ?thesis using lookup_before_build [OF a, of "0xC0A80001"] a by simp
qed

end
