(* ===== verification/PointerList.thy ===== *)
theory PointerList
  imports CPrelude "HOL-Library.Sorting_Algorithms"
begin

text \<open>
  The growable pointer array of \<^verbatim>\<open>utils/pointer_list.c\<close>. A \<open>generic_ptr\<close> is an optional
  value, \<open>None\<close> being \<open>NULL\<close>; the block \<open>_list\<close> points to is a list of cells, each of them
  uninitialised or holding a pointer. The allocator is the one of glibc: \<open>malloc(0)\<close>
  returns a block, \<open>realloc(p, 0)\<close> frees \<open>p\<close> and returns \<open>NULL\<close>; whether a request for more
  memory is granted is the parameter \<open>grants\<close>.

  Each operation refines the corresponding operation on HOL lists. The interface the
  clients of the list use is the locale \<open>pointer_seq\<close>, interpreted on these operations.
\<close>

section \<open>Definitions\<close>

type_synonym 'a gptr = "'a option"

record 'a pointer_list =
  pl_list :: "'a gptr option list option"
  pl_len :: uint32
  pl_cap :: uint32

definition SIZEOF_PTR :: nat where [c_defs]: "SIZEOF_PTR = 8"

definition pl_malloc :: "(nat \<Rightarrow> bool) \<Rightarrow> nat \<Rightarrow> 'a gptr option list option" where
  "pl_malloc grants n = (if n = 0 \<or> grants (n * SIZEOF_PTR) then Some (replicate n None) else None)"

definition pl_realloc ::
  "(nat \<Rightarrow> bool) \<Rightarrow> 'a gptr option list option \<Rightarrow> nat \<Rightarrow> 'a gptr option list option" where
  "pl_realloc grants p n =
     (case p of
        None \<Rightarrow> pl_malloc grants n
      | Some cells \<Rightarrow>
          if n = 0 then None
          else if grants (n * SIZEOF_PTR)
          then Some (take n cells @ replicate (n - length cells) None) else None)"

definition pl_read :: "'a pointer_list \<Rightarrow> nat \<Rightarrow> 'a gptr cres" where
  "pl_read self i =
     (case pl_list self of
        None \<Rightarrow> Inl Null_deref
      | Some cells \<Rightarrow>
          if i < length cells then (case cells ! i of None \<Rightarrow> Inl Uninit_read | Some p \<Rightarrow> Inr p)
          else Inl Out_of_bounds)"

definition pl_write :: "'a pointer_list \<Rightarrow> nat \<Rightarrow> 'a gptr \<Rightarrow> 'a pointer_list cres" where
  "pl_write self i p =
     (case pl_list self of
        None \<Rightarrow> Inl Null_deref
      | Some cells \<Rightarrow>
          if i < length cells then Inr (self\<lparr>pl_list := Some (cells[i := Some p])\<rparr>)
          else Inl Out_of_bounds)"

definition pointer_list_init :: "(nat \<Rightarrow> bool) \<Rightarrow> 'a pointer_list" where
  "pointer_list_init grants = \<lparr>pl_list = pl_malloc grants 0, pl_len = 0, pl_cap = 0\<rparr>"

definition pointer_list_realloc ::
  "(nat \<Rightarrow> bool) \<Rightarrow> 'a pointer_list \<Rightarrow> uint32 \<Rightarrow> 'a pointer_list cres" where
  "pointer_list_realloc grants self new_cap =
     (case pl_realloc grants (pl_list self) (unat new_cap) of
        None \<Rightarrow> Inl Exit_failure
      | Some cells \<Rightarrow> Inr (self\<lparr>pl_list := Some cells, pl_cap := new_cap\<rparr>))"

definition pointer_list_expand :: "(nat \<Rightarrow> bool) \<Rightarrow> 'a pointer_list \<Rightarrow> 'a pointer_list cres" where
  "pointer_list_expand grants self =
     (let new_cap = pl_cap self + pl_cap self div 2 + 1 in
      if new_cap \<le> pl_cap self then Inl Exit_failure
      else pointer_list_realloc grants self new_cap)"

definition pointer_list_contracted_cap :: "'a pointer_list \<Rightarrow> uint32" where
  "pointer_list_contracted_cap self =
     (if pl_cap self \<le> 0 then 0
      else if pl_cap self < 3 then pl_cap self - 1
      else pl_cap self - pl_cap self div 3)"

definition pointer_list_contract ::
  "(nat \<Rightarrow> bool) \<Rightarrow> 'a pointer_list \<Rightarrow> uint32 \<Rightarrow> 'a pointer_list cres" where
  "pointer_list_contract grants self min_cap =
     (let new_cap = pointer_list_contracted_cap self;
          new_cap = (if new_cap < min_cap then min_cap else new_cap)
      in if pl_cap self \<le> new_cap then Inr self
         else pointer_list_realloc grants self new_cap)"

definition pointer_list_append ::
  "(nat \<Rightarrow> bool) \<Rightarrow> 'a pointer_list \<Rightarrow> 'a gptr \<Rightarrow> 'a pointer_list cres" where
  "pointer_list_append grants self ptr =
     cbind (if pl_cap self \<le> pl_len self then pointer_list_expand grants self else Inr self) (\<lambda>self.
     cbind (pl_write self (unat (pl_len self)) ptr) (\<lambda>self.
     Inr (self\<lparr>pl_len := pl_len self + 1\<rparr>)))"

definition pointer_list_remove ::
  "(nat \<Rightarrow> bool) \<Rightarrow> 'a pointer_list \<Rightarrow> uint32 \<Rightarrow> 'a pointer_list cres" where
  "pointer_list_remove grants self index =
     (if pl_len self \<le> index then Inr self else
      cbind (c_for (unat index) (unat (pl_len self - 1))
               (\<lambda>i self. cbind (pl_read self (i + 1)) (pl_write self i)) self) (\<lambda>self.
      let self = self\<lparr>pl_len := pl_len self - 1\<rparr> in
      if pl_len self \<le> pointer_list_contracted_cap self then pointer_list_contract grants self 0
      else Inr self))"

definition pointer_list_pop ::
  "(nat \<Rightarrow> bool) \<Rightarrow> 'a pointer_list \<Rightarrow> ('a gptr \<times> 'a pointer_list) cres" where
  "pointer_list_pop grants self =
     (if pl_len self \<le> 0 then Inr (None, self) else
      cbind (pl_read self (unat (pl_len self - 1))) (\<lambda>last.
      cbind (pointer_list_remove grants self (pl_len self - 1)) (\<lambda>self.
      Inr (last, self))))"

definition pointer_list_get :: "'a pointer_list \<Rightarrow> uint32 \<Rightarrow> 'a gptr cres" where
  "pointer_list_get self index =
     (if pl_len self \<le> index then Inr None else pl_read self (unat index))"

definition pointer_list_set :: "'a pointer_list \<Rightarrow> uint32 \<Rightarrow> 'a gptr \<Rightarrow> 'a pointer_list cres" where
  "pointer_list_set self index ptr =
     (if pl_len self \<le> index then Inr self else pl_write self (unat index) ptr)"

definition pointer_list_len :: "'a pointer_list \<Rightarrow> uint32" where
  "pointer_list_len self = pl_len self"

definition pointer_list_cap :: "'a pointer_list \<Rightarrow> uint32" where
  "pointer_list_cap self = pl_cap self"

definition pointer_list_insert ::
  "(nat \<Rightarrow> bool) \<Rightarrow> 'a pointer_list \<Rightarrow> 'a gptr \<Rightarrow> uint32 \<Rightarrow> 'a pointer_list cres" where
  "pointer_list_insert grants self ptr pos =
     (if pointer_list_len self < pos then Inr self else
      cbind (pointer_list_append grants self None) (\<lambda>self.
      cbind (c_for (unat pos) (unat (pointer_list_len self))
               (\<lambda>i (self, curr). cbind (pl_read self i) (\<lambda>nxt.
                  cbind (pl_write self i curr) (\<lambda>self. Inr (self, nxt)))) (self, ptr)) (\<lambda>(self, curr).
      Inr self)))"

definition pointer_list_clear :: "'a pointer_list \<Rightarrow> 'a pointer_list" where
  "pointer_list_clear self =
     (if pl_list self = None then self else \<lparr>pl_list = None, pl_len = 0, pl_cap = 0\<rparr>)"

text \<open>The pointers passed to \<open>free\<close>, in order, and the cleared list.\<close>

definition pointer_list_deep_clear :: "'a pointer_list \<Rightarrow> ('a gptr list \<times> 'a pointer_list) cres" where
  "pointer_list_deep_clear self =
     cbind (c_for 0 (unat (pointer_list_len self))
              (\<lambda>i freed. cbind (pointer_list_get self (of_nat i)) (\<lambda>p. Inr (freed @ [p]))) []) (\<lambda>freed.
     Inr (freed, pointer_list_clear self))"

definition pointer_list_print :: "'a pointer_list \<Rightarrow> ('a gptr \<Rightarrow> string) \<Rightarrow> string cres" where
  "pointer_list_print self fn =
     c_for 0 (unat (pointer_list_len self))
       (\<lambda>i out. cbind (pointer_list_get self (of_nat i)) (\<lambda>p. Inr (out @ fn p))) []"

text \<open>
  \<open>qsort\<close> reads and writes the first \<open>_len\<close> cells; glibc sorts them by merging, so the
  result is the stable sort under the comparison.
\<close>

definition pointer_list_sort :: "'a pointer_list \<Rightarrow> 'a gptr comparator \<Rightarrow> 'a pointer_list cres" where
  "pointer_list_sort self cmp =
     cbind (c_for 0 (unat (pl_len self))
              (\<lambda>i xs. cbind (pl_read self i) (\<lambda>p. Inr (xs @ [p]))) []) (\<lambda>xs.
     c_for 0 (unat (pl_len self))
       (\<lambda>i self. pl_write self i (Sorting_Algorithms.sort cmp xs ! i)) self)"

section \<open>The list a pointer list represents\<close>

definition pl_rep :: "'a pointer_list \<Rightarrow> 'a gptr list \<Rightarrow> bool" where
  "pl_rep self xs \<longleftrightarrow>
     unat (pl_len self) = length xs \<and> length xs \<le> unat (pl_cap self)
     \<and> (case pl_list self of
          None \<Rightarrow> pl_cap self = 0
        | Some cells \<Rightarrow> length cells = unat (pl_cap self) \<and> take (length xs) cells = map Some xs)"

lemma pl_rep_init: "pl_rep (pointer_list_init grants) []"
  by (simp add: pl_rep_def pointer_list_init_def pl_malloc_def)

lemma pl_rep_read: "pl_rep self xs \<Longrightarrow> i < length xs \<Longrightarrow> pl_read self i = Inr (xs ! i)"
proof -
  assume r: "pl_rep self xs" and i: "i < length xs"
  then obtain cells where c: "pl_list self = Some cells" "length xs \<le> length cells"
    "take (length xs) cells = map Some xs"
    by (auto simp: pl_rep_def split: option.splits)
  have "cells ! i = Some (xs ! i)"
    using c(3) i by (metis nth_map nth_take)
  then show ?thesis
    using c i by (simp add: pl_read_def)
qed

lemma pl_rep_write:
  assumes "pl_rep self xs" and "i < length xs"
  shows "\<exists>self'. pl_write self i p = Inr self' \<and> pl_rep self' (xs[i := p])
           \<and> pl_len self' = pl_len self \<and> pl_cap self' = pl_cap self"
proof -
  obtain cells where c: "pl_list self = Some cells" "length cells = unat (pl_cap self)"
    "length xs \<le> length cells" "take (length xs) cells = map Some xs"
    using assms by (auto simp: pl_rep_def split: option.splits)
  have "take (length xs) (cells[i := Some p]) = map Some (xs[i := p])"
    using c(4) by (simp add: take_update_swap map_update)
  then show ?thesis
    using assms c by (simp add: pl_write_def pl_rep_def)
qed

section \<open>Growing\<close>

text \<open>A list of capacity \<open>cap\<close> can grow: the new capacity is a 32-bit number and granted.\<close>

definition can_grow :: "(nat \<Rightarrow> bool) \<Rightarrow> uint32 \<Rightarrow> bool" where
  "can_grow grants cap \<longleftrightarrow>
     unat cap + unat cap div 2 + 1 < 2 ^ 32 \<and> grants ((unat cap + unat cap div 2 + 1) * SIZEOF_PTR)"

lemma expand_cap:
  fixes cap :: uint32
  defines "n \<equiv> unat cap + unat cap div 2 + 1"
  shows "cap + cap div 2 + 1 \<le> cap \<longleftrightarrow> \<not> n < 2 ^ 32"
    and "n < 2 ^ 32 \<Longrightarrow> unat (cap + cap div 2 + 1) = n"
proof -
  have "unat (cap div 2) = unat cap div 2"
    by (simp add: unat_div_distrib)
  then have "(of_nat (unat cap div 2) :: uint32) = cap div 2"
    by (metis of_nat_unat ucast_id)
  then have "cap + cap div 2 + 1 = of_nat n"
    by (simp add: n_def)
  then have u: "unat (cap + cap div 2 + 1) = n mod 2 ^ 32"
    by (simp add: unsigned_of_nat take_bit_eq_mod)
  have "unat cap < 2 ^ 32"
    using unat_lt2p [of cap] by simp
  moreover have "n mod 2 ^ 32 = n - 2 ^ 32" if "\<not> n < 2 ^ 32"
    using that \<open>unat cap < 2 ^ 32\<close> by (simp add: n_def mod_if)
  ultimately show "cap + cap div 2 + 1 \<le> cap \<longleftrightarrow> \<not> n < 2 ^ 32"
    unfolding word_le_nat_alt u by (auto simp: n_def)
  show "n < 2 ^ 32 \<Longrightarrow> unat (cap + cap div 2 + 1) = n"
    by (simp add: u)
qed

lemma pl_rep_realloc:
  assumes "pl_rep self xs" and "length xs \<le> unat n" and "n \<noteq> 0"
  shows "if grants (unat n * SIZEOF_PTR)
         then \<exists>self'. pointer_list_realloc grants self n = Inr self' \<and> pl_rep self' xs
                \<and> pl_len self' = pl_len self \<and> pl_cap self' = n
         else pointer_list_realloc grants self n = Inl Exit_failure"
proof (cases "pl_list self")
  case None
  then have "xs = []"
    using assms(1) by (auto simp: pl_rep_def)
  then show ?thesis
    using assms None
    by (simp add: pointer_list_realloc_def pl_realloc_def pl_malloc_def pl_rep_def unat_eq_0)
next
  case (Some cells)
  then have c: "length cells = unat (pl_cap self)" "take (length xs) cells = map Some xs"
    "length xs \<le> length cells" "unat (pl_len self) = length xs"
    using assms(1) by (simp_all add: pl_rep_def)
  have "take (length xs) (take (unat n) cells @ replicate (unat n - length cells) None) = map Some xs"
    using assms(2) c by (simp add: min_def)
  then show ?thesis
    using assms Some c
    by (auto simp: pointer_list_realloc_def pl_realloc_def pl_rep_def unat_eq_0)
qed

lemma pl_rep_expand:
  assumes "pl_rep self xs"
  shows "if can_grow grants (pl_cap self)
         then \<exists>self'. pointer_list_expand grants self = Inr self' \<and> pl_rep self' xs
                \<and> pl_len self' = pl_len self \<and> length xs < unat (pl_cap self')
         else pointer_list_expand grants self = Inl Exit_failure"
proof (cases "unat (pl_cap self) + unat (pl_cap self) div 2 + 1 < 2 ^ 32")
  case True
  let ?n = "pl_cap self + pl_cap self div 2 + 1"
  have u: "unat ?n = unat (pl_cap self) + unat (pl_cap self) div 2 + 1"
    by (rule expand_cap(2) [OF True])
  have le: "length xs \<le> unat (pl_cap self)"
    using assms by (simp add: pl_rep_def)
  have "?n \<noteq> 0" using u by (metis add_is_0 one_neq_zero unat_0)
  moreover have "length xs \<le> unat ?n"
    using le u by linarith
  moreover have "pointer_list_expand grants self = pointer_list_realloc grants self ?n"
    using expand_cap(1) [of "pl_cap self"] True by (simp add: pointer_list_expand_def)
  ultimately show ?thesis
    using pl_rep_realloc [OF assms, of ?n grants] True u le
    by (auto simp: can_grow_def split: if_splits)
next
  case False
  then show ?thesis
    using expand_cap(1) [of "pl_cap self"]
    by (simp add: pointer_list_expand_def can_grow_def)
qed

lemma pl_rep_push:
  assumes "pl_rep self xs" and "length xs < unat (pl_cap self)"
  shows "\<exists>self'. cbind (pl_write self (unat (pl_len self)) p) (\<lambda>self. Inr (self\<lparr>pl_len := pl_len self + 1\<rparr>)) = Inr self'
           \<and> pl_rep self' (xs @ [p])"
proof -
  obtain cells where c: "pl_list self = Some cells" "length cells = unat (pl_cap self)"
    "take (length xs) cells = map Some xs" "unat (pl_len self) = length xs"
    using assms by (auto simp: pl_rep_def split: option.splits)
  have "unat (pl_cap self) < 2 ^ 32"
    using unat_lt2p [of "pl_cap self"] by simp
  then have "unat (pl_len self + 1) = length xs + 1"
    using assms(2) c(4) by (simp add: unat_word_ariths)
  moreover have "take (length xs + 1) (cells[length xs := Some p]) = map Some (xs @ [p])"
    using assms(2) c(2,3) by (simp add: take_Suc_conv_app_nth)
  ultimately show ?thesis
    using assms(2) c by (simp add: pl_write_def pl_rep_def)
qed

lemma append_refines:
  assumes "pl_rep self xs"
  shows "if length xs < unat (pl_cap self) \<or> can_grow grants (pl_cap self)
         then \<exists>self'. pointer_list_append grants self p = Inr self' \<and> pl_rep self' (xs @ [p])
         else pointer_list_append grants self p = Inl Exit_failure"
proof -
  have len: "unat (pl_len self) = length xs" "length xs \<le> unat (pl_cap self)"
    using assms by (simp_all add: pl_rep_def)
  have full: "pl_cap self \<le> pl_len self \<longleftrightarrow> \<not> length xs < unat (pl_cap self)"
    by (simp add: word_le_nat_alt len not_less)
  show ?thesis
  proof (cases "length xs < unat (pl_cap self)")
    case True
    then show ?thesis
      using pl_rep_push [OF assms True, of p] full by (simp add: pointer_list_append_def)
  next
    case False
    show ?thesis
    proof (cases "can_grow grants (pl_cap self)")
      case True
      then obtain self' where "pointer_list_expand grants self = Inr self'" "pl_rep self' xs"
        "length xs < unat (pl_cap self')"
        using pl_rep_expand [OF assms, of grants] by auto
      then show ?thesis
        using pl_rep_push [of self' xs p] True False full by (simp add: pointer_list_append_def)
    next
      case False
      then show ?thesis
        using pl_rep_expand [OF assms, of grants] \<open>\<not> length xs < unat (pl_cap self)\<close> full
        by (simp add: pointer_list_append_def)
    qed
  qed
qed

section \<open>Removing\<close>

definition shift_left :: "nat \<Rightarrow> nat \<Rightarrow> 'b list \<Rightarrow> 'b list" where
  "shift_left idx i xs = map (\<lambda>j. if idx \<le> j \<and> j < i then xs ! (j + 1) else xs ! j) [0..<length xs]"

lemma shift_left_simps [simp]:
  "length (shift_left idx i xs) = length xs"
  "j < length xs \<Longrightarrow> shift_left idx i xs ! j = (if idx \<le> j \<and> j < i then xs ! (j + 1) else xs ! j)"
  by (simp_all add: shift_left_def)

lemma remove_loop:
  assumes "pl_rep self xs" and "idx < length xs"
  shows "\<exists>self'. c_for idx (length xs - 1)
             (\<lambda>i self. cbind (pl_read self (i + 1)) (pl_write self i)) self = Inr self'
           \<and> (pl_rep self' (shift_left idx (length xs - 1) xs)
              \<and> pl_len self' = pl_len self \<and> pl_cap self' = pl_cap self)"
proof (rule c_for_rule [where I = "\<lambda>i self'. pl_rep self' (shift_left idx i xs)
          \<and> pl_len self' = pl_len self \<and> pl_cap self' = pl_cap self"])
  show "idx \<le> length xs - 1" using assms(2) by simp
  have "shift_left idx idx xs = xs"
    by (rule nth_equalityI) auto
  then show "pl_rep self (shift_left idx idx xs) \<and> pl_len self = pl_len self \<and> pl_cap self = pl_cap self"
    using assms(1) by simp
next
  fix i s
  assume i: "idx \<le> i" "i < length xs - 1"
    and s: "pl_rep s (shift_left idx i xs) \<and> pl_len s = pl_len self \<and> pl_cap s = pl_cap self"
  have r: "pl_read s (i + 1) = Inr (xs ! (i + 1))"
    using pl_rep_read [of s "shift_left idx i xs" "i + 1"] s i by simp
  have "(shift_left idx i xs)[i := xs ! (i + 1)] = shift_left idx (Suc i) xs"
    using i by (intro nth_equalityI) (auto simp: nth_list_update less_Suc_eq)
  then show "\<exists>s'. cbind (pl_read s (i + 1)) (pl_write s i) = Inr s'
      \<and> (pl_rep s' (shift_left idx (Suc i) xs) \<and> pl_len s' = pl_len self \<and> pl_cap s' = pl_cap self)"
    using pl_rep_write [of s "shift_left idx i xs" i "xs ! (i + 1)"] s i r by auto
qed

lemma shift_left_all:
  assumes "idx < length xs"
  shows "take (length xs - 1) (shift_left idx (length xs - 1) xs) = take idx xs @ drop (idx + 1) xs"
  using assms by (intro nth_equalityI) (auto simp: nth_append min_absorb2)

lemma pl_rep_drop_last:
  assumes "pl_rep self xs" and "xs \<noteq> []"
  shows "pl_rep (self\<lparr>pl_len := pl_len self - 1\<rparr>) (take (length xs - 1) xs)"
proof -
  have "unat (pl_len self) = length xs" using assms(1) by (simp add: pl_rep_def)
  moreover then have "unat (pl_len self - 1) = length xs - 1"
    using assms(2) by (metis length_0_conv unat_0 unat_minus_one)
  moreover have "take (length xs - 1) cells = map Some (take (length xs - 1) xs)"
    if "take (length xs) cells = map Some xs" for cells :: "'a gptr option list"
    using that by (metis diff_le_self min.absorb1 take_map take_take)
  ultimately show ?thesis
    using assms(1) by (auto simp: pl_rep_def split: option.splits)
qed

text \<open>The capacity after a contraction.\<close>

definition shrunk_cap :: "nat \<Rightarrow> nat" where
  "shrunk_cap cap = (if cap < 3 then cap - 1 else cap - cap div 3)"

lemma shrunk_cap_less: "0 < n \<Longrightarrow> shrunk_cap n < n"
  by (auto simp: shrunk_cap_def intro!: diff_less)

lemma contracted_cap: "unat (pointer_list_contracted_cap self) = shrunk_cap (unat (pl_cap self))"
proof -
  have "unat (pl_cap self - pl_cap self div 3) = unat (pl_cap self) - unat (pl_cap self) div 3"
    by (subst unat_sub) (simp_all add: word_le_nat_alt unat_div_distrib)
  moreover have "unat (pl_cap self - 1) = unat (pl_cap self) - 1" if "0 < unat (pl_cap self)"
    by (rule unat_minus_one) (use that in auto)
  ultimately show ?thesis
    by (auto simp: pointer_list_contracted_cap_def shrunk_cap_def word_less_nat_alt word_le_nat_alt)
qed

lemma contract_refines:
  assumes "pl_rep self xs" and "pl_cap self \<noteq> 0"
    and "length xs \<le> shrunk_cap (unat (pl_cap self))"
  shows "if shrunk_cap (unat (pl_cap self)) \<noteq> 0
            \<and> grants (shrunk_cap (unat (pl_cap self)) * SIZEOF_PTR)
         then \<exists>self'. pointer_list_contract grants self 0 = Inr self' \<and> pl_rep self' xs
                \<and> unat (pl_cap self') = shrunk_cap (unat (pl_cap self))
         else pointer_list_contract grants self 0 = Inl Exit_failure"
proof -
  let ?n = "pointer_list_contracted_cap self"
  note u = contracted_cap [of self]
  have pos: "0 < unat (pl_cap self)"
    using assms(2) by (simp add: unat_gt_0)
  have "\<not> pl_cap self \<le> ?n"
    using shrunk_cap_less [OF pos] by (simp add: word_le_nat_alt u)
  then have eq: "pointer_list_contract grants self 0 = pointer_list_realloc grants self ?n"
    by (simp add: pointer_list_contract_def)
  show ?thesis
  proof (cases "?n = 0")
    case True
    have "pl_list self \<noteq> None"
      using assms(1,2) by (auto simp: pl_rep_def split: option.splits)
    then have "pointer_list_realloc grants self ?n = Inl Exit_failure"
      using True by (auto simp: pointer_list_realloc_def pl_realloc_def)
    moreover have "shrunk_cap (unat (pl_cap self)) = 0"
      using True u by simp
    ultimately show ?thesis
      by (simp add: eq)
  next
    case False
    then have "shrunk_cap (unat (pl_cap self)) \<noteq> 0"
      using u by (metis unat_eq_zero)
    then show ?thesis
      using pl_rep_realloc [OF assms(1), of ?n grants] False assms(3) u by (auto simp: eq)
  qed
qed

definition remove_nth :: "nat \<Rightarrow> 'b list \<Rightarrow> 'b list" where
  "remove_nth i xs = take i xs @ drop (i + 1) xs"

lemma length_remove_nth: "i < length xs \<Longrightarrow> length (remove_nth i xs) = length xs - 1"
  by (simp add: remove_nth_def)

lemma remove_refines:
  assumes "pl_rep self xs" and "unat index < length xs"
  shows "if length xs - 1 \<le> shrunk_cap (unat (pl_cap self))
            \<and> \<not> (shrunk_cap (unat (pl_cap self)) \<noteq> 0
                 \<and> grants (shrunk_cap (unat (pl_cap self)) * SIZEOF_PTR))
         then pointer_list_remove grants self index = Inl Exit_failure
         else \<exists>self'. pointer_list_remove grants self index = Inr self'
                \<and> pl_rep self' (remove_nth (unat index) xs)"
proof -
  have len: "unat (pl_len self) = length xs" "length xs \<le> unat (pl_cap self)"
    using assms(1) by (simp_all add: pl_rep_def)
  have in_range: "\<not> pl_len self \<le> index"
    using assms(2) len by (simp add: word_le_nat_alt)
  have len1: "unat (pl_len self - 1) = length xs - 1"
    using assms(2) len by (metis less_nat_zero_code unat_0 unat_minus_one)
  obtain s where s: "c_for (unat index) (length xs - 1)
      (\<lambda>i self. cbind (pl_read self (i + 1)) (pl_write self i)) self = Inr s"
    "pl_rep s (shift_left (unat index) (length xs - 1) xs)"
    "pl_len s = pl_len self" "pl_cap s = pl_cap self"
    using remove_loop [OF assms] by blast
  define s' where "s' = s\<lparr>pl_len := pl_len s - 1\<rparr>"
  have rep: "pl_rep s' (remove_nth (unat index) xs)"
  proof -
    have ne: "shift_left (unat index) (length xs - 1) xs \<noteq> []"
      using assms(2) by (metis less_nat_zero_code list.size(3) shift_left_simps(1))
    show ?thesis
      using pl_rep_drop_last [OF s(2) ne] shift_left_all [OF assms(2)]
      by (simp add: s'_def remove_nth_def)
  qed
  have cap: "pl_cap s' = pl_cap self" "pl_cap s' \<noteq> 0"
    using assms(2) len s(4) by (auto simp: s'_def)
  have eq: "pointer_list_remove grants self index =
      (if pl_len s' \<le> pointer_list_contracted_cap s' then pointer_list_contract grants s' 0 else Inr s')"
    using in_range s(1) len1 by (simp add: pointer_list_remove_def s'_def Let_def)
  have cond: "pl_len s' \<le> pointer_list_contracted_cap s' \<longleftrightarrow> length xs - 1 \<le> shrunk_cap (unat (pl_cap self))"
    using len1 s(3,4) by (simp add: word_le_nat_alt contracted_cap s'_def)
  show ?thesis
    using contract_refines [OF rep cap(2), of grants] rep length_remove_nth [OF assms(2)]
    by (auto simp: eq cond cap(1))
qed

section \<open>The other operations\<close>

lemma get_refines:
  "pl_rep self xs \<Longrightarrow>
   pointer_list_get self i = Inr (if unat i < length xs then xs ! unat i else None)"
  using pl_rep_read [of self xs "unat i"]
  by (auto simp: pointer_list_get_def word_le_nat_alt pl_rep_def)

lemma set_refines:
  assumes "pl_rep self xs"
  shows "\<exists>self'. pointer_list_set self i p = Inr self' \<and> pl_rep self' (xs[unat i := p])"
proof (cases "unat i < length xs")
  case True
  then show ?thesis
    using assms pl_rep_write [OF assms True, of p]
    by (auto simp: pointer_list_set_def word_le_nat_alt pl_rep_def)
next
  case False
  then have "pl_len self \<le> i"
    using assms by (simp add: word_le_nat_alt pl_rep_def)
  then show ?thesis
    using assms False by (simp add: pointer_list_set_def list_update_beyond)
qed

lemma pop_refines:
  assumes "pl_rep self xs" and "xs \<noteq> []"
    and "pointer_list_remove grants self (pl_len self - 1) = Inr self'"
    and "pl_rep self' (remove_nth (length xs - 1) xs)"
  shows "pointer_list_pop grants self = Inr (last xs, self') \<and> pl_rep self' (butlast xs)"
proof -
  have len: "unat (pl_len self) = length xs"
    using assms(1) by (simp add: pl_rep_def)
  then have len1: "unat (pl_len self - 1) = length xs - 1" and ne: "\<not> pl_len self \<le> 0"
    using assms(2) by (metis length_0_conv unat_0 unat_minus_one, simp add: word_le_nat_alt)
  have "pl_read self (length xs - 1) = Inr (last xs)"
    using pl_rep_read [OF assms(1), of "length xs - 1"] assms(2) by (simp add: last_conv_nth)
  then show ?thesis
    using assms ne len1 by (simp add: pointer_list_pop_def remove_nth_def butlast_conv_take)
qed

definition shift_right :: "nat \<Rightarrow> nat \<Rightarrow> 'b \<Rightarrow> 'b list \<Rightarrow> 'b list" where
  "shift_right pos i p ys =
     map (\<lambda>j. if pos \<le> j \<and> j < i then (if j = pos then p else ys ! (j - 1)) else ys ! j) [0..<length ys]"

lemma shift_right_simps [simp]:
  "length (shift_right pos i p ys) = length ys"
  "j < length ys \<Longrightarrow> shift_right pos i p ys ! j =
     (if pos \<le> j \<and> j < i then (if j = pos then p else ys ! (j - 1)) else ys ! j)"
  by (simp_all add: shift_right_def)

lemma insert_loop:
  assumes "pl_rep self ys" and "pos \<le> length ys"
  shows "\<exists>r. c_for pos (length ys)
           (\<lambda>i (self, curr). cbind (pl_read self i) (\<lambda>nxt.
              cbind (pl_write self i curr) (\<lambda>self. Inr (self, nxt)))) (self, p) = Inr r
         \<and> (pl_rep (fst r) (shift_right pos (length ys) p ys)
            \<and> snd r = (if length ys = pos then p else ys ! (length ys - 1)))"
proof (rule c_for_rule [where I = "\<lambda>i r. pl_rep (fst r) (shift_right pos i p ys)
          \<and> snd r = (if i = pos then p else ys ! (i - 1))"])
  show "pos \<le> length ys" by (rule assms(2))
  have "shift_right pos pos p ys = ys"
    by (rule nth_equalityI) auto
  then show "pl_rep (fst (self, p)) (shift_right pos pos p ys)
      \<and> snd (self, p) = (if pos = pos then p else ys ! (pos - 1))"
    using assms(1) by simp
next
  fix i and r :: "'a pointer_list \<times> 'a gptr"
  assume i: "pos \<le> i" "i < length ys"
    and r: "pl_rep (fst r) (shift_right pos i p ys) \<and> snd r = (if i = pos then p else ys ! (i - 1))"
  have rd: "pl_read (fst r) i = Inr (ys ! i)"
    using pl_rep_read [of "fst r" "shift_right pos i p ys" i] r i by simp
  have "(shift_right pos i p ys)[i := snd r] = shift_right pos (Suc i) p ys"
    using i r by (intro nth_equalityI) (auto simp: nth_list_update less_Suc_eq)
  then obtain s where "pl_write (fst r) i (snd r) = Inr s" "pl_rep s (shift_right pos (Suc i) p ys)"
    using pl_rep_write [of "fst r" "shift_right pos i p ys" i "snd r"] r i by auto
  then show "\<exists>r'. (case r of (self, cur) \<Rightarrow> cbind (pl_read self i) (\<lambda>nxt.
              cbind (pl_write self i cur) (\<lambda>self. Inr (self, nxt)))) = Inr r'
      \<and> (pl_rep (fst r') (shift_right pos (Suc i) p ys)
         \<and> snd r' = (if Suc i = pos then p else ys ! (Suc i - 1)))"
    using i rd by (cases r) auto
qed

lemma shift_right_all:
  "pos \<le> length xs \<Longrightarrow> shift_right pos (length xs + 1) p (xs @ [q]) = take pos xs @ p # drop pos xs"
  by (intro nth_equalityI) (auto simp: nth_append nth_Cons' min_absorb2)

lemma insert_refines:
  assumes "pl_rep self xs" and "unat pos \<le> length xs"
  shows "if length xs < unat (pl_cap self) \<or> can_grow grants (pl_cap self)
         then \<exists>self'. pointer_list_insert grants self p pos = Inr self'
                \<and> pl_rep self' (take (unat pos) xs @ p # drop (unat pos) xs)
         else pointer_list_insert grants self p pos = Inl Exit_failure"
proof -
  have pos: "\<not> pointer_list_len self < pos"
    using assms by (simp add: pointer_list_len_def word_less_nat_alt pl_rep_def)
  show ?thesis
  proof (cases "length xs < unat (pl_cap self) \<or> can_grow grants (pl_cap self)")
    case True
    then obtain s where s: "pointer_list_append grants self None = Inr s" "pl_rep s (xs @ [None])"
      using append_refines [OF assms(1), of grants None] by auto
    then have len: "unat (pl_len s) = length xs + 1"
      by (simp add: pl_rep_def)
    show ?thesis
      using insert_loop [OF s(2), of "unat pos" p] assms(2) pos s(1) len True
        shift_right_all [OF assms(2), of p None]
      by (auto simp: pointer_list_insert_def pointer_list_len_def)
  next
    case False
    then show ?thesis
      using append_refines [OF assms(1), of grants None] pos by (simp add: pointer_list_insert_def)
  qed
qed

lemma clear_refines: "pl_rep self xs \<Longrightarrow> pl_rep (pointer_list_clear self) []"
  by (auto simp: pl_rep_def pointer_list_clear_def split: option.splits)

section \<open>The interface of the clients\<close>

text \<open>
  The clients of a pointer list walk over it by index and append to it. The loop over all
  elements is the following one; under the laws of the interface it is the iteration over
  the represented list.
\<close>

definition list_for_each ::
  "('l \<Rightarrow> uint32) \<Rightarrow> ('l \<Rightarrow> uint32 \<Rightarrow> 'a gptr cres) \<Rightarrow> 'l \<Rightarrow> ('a gptr \<Rightarrow> 's \<Rightarrow> 's cres) \<Rightarrow> 's \<Rightarrow> 's cres" where
  "list_for_each len get l body s =
     c_for 0 (unat (len l)) (\<lambda>i s. cbind (get l (of_nat i)) (\<lambda>p. body p s)) s"

locale pointer_seq =
  fixes rep :: "'l \<Rightarrow> 'a gptr list \<Rightarrow> bool"
    and len :: "'l \<Rightarrow> uint32"
    and get :: "'l \<Rightarrow> uint32 \<Rightarrow> 'a gptr cres"
  assumes len_rep: "rep l xs \<Longrightarrow> unat (len l) = length xs"
    and get_rep: "rep l xs \<Longrightarrow> unat i < length xs \<Longrightarrow> get l i = Inr (xs ! unat i)"
begin

lemma length_bound: "rep l xs \<Longrightarrow> length xs < 2 ^ 32"
  using unat_lt2p [of "len l"] by (simp add: len_rep)

lemma get_of_nat: "rep l xs \<Longrightarrow> i < length xs \<Longrightarrow> get l (of_nat i) = Inr (xs ! i)"
  using get_rep [of l xs "of_nat i"] length_bound [of l xs] by (simp add: unat_of_nat_eq)

lemma for_each_prefix:
  "rep l xs \<Longrightarrow> n \<le> length xs \<Longrightarrow>
   c_for 0 n (\<lambda>i s. cbind (get l (of_nat i)) (\<lambda>p. body p s)) s = c_iter (take n xs) body s"
proof (induction n)
  case (Suc n)
  then show ?case
    by (simp add: c_for_last get_of_nat take_Suc_conv_app_nth c_iter_append cbind_def split: sum.splits)
qed simp

lemma for_each_iter: "rep l xs \<Longrightarrow> list_for_each len get l body s = c_iter xs body s"
  using for_each_prefix [of l xs "length xs"] by (simp add: list_for_each_def len_rep)

end

locale pointer_seq_append = pointer_seq rep len get
  for rep :: "'l \<Rightarrow> 'a gptr list \<Rightarrow> bool" and len and get +
  fixes append :: "'l \<Rightarrow> 'a gptr \<Rightarrow> 'l cres"
  assumes append_rep: "rep l xs \<Longrightarrow> append l p = Inr l' \<Longrightarrow> rep l' (xs @ [p])"
begin

lemma append_all_rep:
  "rep l xs \<Longrightarrow> c_iter ys (\<lambda>p l. append l p) l = Inr l' \<Longrightarrow> rep l' (xs @ ys)"
proof (induction ys arbitrary: l xs)
  case (Cons y ys)
  then obtain l1 where "append l y = Inr l1" "c_iter ys (\<lambda>p l. append l p) l1 = Inr l'"
    by (auto simp: cbind_eq_Inr_iff)
  with Cons.IH [of l1 "xs @ [y]"] Cons.prems(1) append_rep show ?case by fastforce
qed simp

end

interpretation pl: pointer_seq pl_rep pointer_list_len pointer_list_get
  by unfold_locales (simp_all add: pointer_list_len_def get_refines pl_rep_def [THEN iffD1])

interpretation pla: pointer_seq_append pl_rep pointer_list_len pointer_list_get
    "pointer_list_append grants"
  for grants
proof
  fix l l' :: "'a pointer_list" and xs :: "'a gptr list" and p
  assume "pl_rep l xs" and "pointer_list_append grants l p = Inr l'"
  then show "pl_rep l' (xs @ [p])"
    using append_refines [of l xs grants p] by (auto split: if_splits)
qed

section \<open>Sorting, clearing and printing\<close>

lemma read_all:
  "pl_rep self xs \<Longrightarrow> n \<le> length xs \<Longrightarrow>
   c_for 0 n (\<lambda>i ys. cbind (pl_read self i) (\<lambda>p. Inr (ys @ [p]))) [] = Inr (take n xs)"
  by (induction n) (simp_all add: c_for_last pl_rep_read take_Suc_conv_app_nth)

lemma write_all:
  assumes "pl_rep self xs" and "length ys = length xs"
  shows "\<exists>self'. c_for 0 (length xs) (\<lambda>i self. pl_write self i (ys ! i)) self = Inr self'
           \<and> pl_rep self' (take (length xs) ys @ drop (length xs) xs)"
proof (rule c_for_rule [where I = "\<lambda>i self'. pl_rep self' (take i ys @ drop i xs)"])
  show "pl_rep self (take 0 ys @ drop 0 xs)" using assms(1) by simp
next
  fix i s
  assume i: "i < length xs" and s: "pl_rep s (take i ys @ drop i xs)"
  have "(take i ys @ drop i xs)[i := ys ! i] = take (Suc i) ys @ drop (Suc i) xs"
    using i assms(2)
    by (simp add: list_update_append take_Suc_conv_app_nth min_absorb2 Cons_nth_drop_Suc [symmetric])
  then show "\<exists>s'. pl_write s i (ys ! i) = Inr s' \<and> pl_rep s' (take (Suc i) ys @ drop (Suc i) xs)"
    using pl_rep_write [OF s, of i "ys ! i"] i assms(2) by auto
qed simp

lemma sort_refines:
  assumes "pl_rep self xs"
  shows "\<exists>self'. pointer_list_sort self cmp = Inr self'
           \<and> pl_rep self' (Sorting_Algorithms.sort cmp xs)"
proof -
  have "unat (pl_len self) = length xs" using assms by (simp add: pl_rep_def)
  then show ?thesis
    using read_all [OF assms, of "length xs"] write_all [OF assms, of "Sorting_Algorithms.sort cmp xs"]
    by (simp add: pointer_list_sort_def)
qed

lemma c_iter_collect: "c_iter xs (\<lambda>p acc. Inr (acc @ [p])) acc = Inr (acc @ xs)"
  by (induction xs arbitrary: acc) simp_all

lemma c_iter_concat: "c_iter xs (\<lambda>p acc. Inr (acc @ f p)) acc = Inr (acc @ concat (map f xs))"
  by (induction xs arbitrary: acc) simp_all

lemma deep_clear_refines:
  "pl_rep self xs \<Longrightarrow> pointer_list_deep_clear self = Inr (xs, pointer_list_clear self)"
  using pl.for_each_iter [of self xs "\<lambda>p freed. Inr (freed @ [p])" "[]"]
  by (simp add: pointer_list_deep_clear_def list_for_each_def c_iter_collect)

lemma print_refines: "pl_rep self xs \<Longrightarrow> pointer_list_print self fn = Inr (concat (map fn xs))"
  using pl.for_each_iter [of self xs "\<lambda>p out. Inr (out @ fn p)" "[]"]
  by (simp add: pointer_list_print_def list_for_each_def c_iter_concat)

section \<open>Sequences of operations\<close>

datatype 'a pl_op =
    Append "'a gptr"
  | Remove uint32
  | Pop
  | Get uint32
  | Len
  | Set_at uint32 "'a gptr"
  | Insert "'a gptr" uint32
  | Sort "'a gptr comparator"
  | Clear
  | Deep_clear

text \<open>What an operation returns; \<open>Deep_clear\<close> returns the pointers it frees.\<close>

datatype 'a pl_out = No_value | Ptr "'a gptr" | Count uint32 | Freed "'a gptr list"

definition no_value :: "'l cres \<Rightarrow> ('a pl_out \<times> 'l) cres" where
  "no_value m = cbind m (\<lambda>l. Inr (No_value, l))"

fun pl_step :: "(nat \<Rightarrow> bool) \<Rightarrow> 'a pointer_list \<Rightarrow> 'a pl_op \<Rightarrow> ('a pl_out \<times> 'a pointer_list) cres" where
  "pl_step grants self (Append p) = no_value (pointer_list_append grants self p)"
| "pl_step grants self (Remove i) = no_value (pointer_list_remove grants self i)"
| "pl_step grants self Pop = cbind (pointer_list_pop grants self) (\<lambda>(p, self). Inr (Ptr p, self))"
| "pl_step grants self (Get i) = cbind (pointer_list_get self i) (\<lambda>p. Inr (Ptr p, self))"
| "pl_step grants self Len = Inr (Count (pointer_list_len self), self)"
| "pl_step grants self (Set_at i p) = no_value (pointer_list_set self i p)"
| "pl_step grants self (Insert p i) = no_value (pointer_list_insert grants self p i)"
| "pl_step grants self (Sort cmp) = no_value (pointer_list_sort self cmp)"
| "pl_step grants self Clear = Inr (No_value, pointer_list_clear self)"
| "pl_step grants self Deep_clear = cbind (pointer_list_deep_clear self) (\<lambda>(ps, self). Inr (Freed ps, self))"

fun list_step :: "'a gptr list \<Rightarrow> 'a pl_op \<Rightarrow> 'a pl_out \<times> 'a gptr list" where
  "list_step xs (Append p) = (No_value, xs @ [p])"
| "list_step xs (Remove i) = (No_value, remove_nth (unat i) xs)"
| "list_step xs Pop = (Ptr (if xs = [] then None else last xs), butlast xs)"
| "list_step xs (Get i) = (Ptr (if unat i < length xs then xs ! unat i else None), xs)"
| "list_step xs Len = (Count (of_nat (length xs)), xs)"
| "list_step xs (Set_at i p) = (No_value, xs[unat i := p])"
| "list_step xs (Insert p i) =
     (No_value, if unat i \<le> length xs then take (unat i) xs @ p # drop (unat i) xs else xs)"
| "list_step xs (Sort cmp) = (No_value, Sorting_Algorithms.sort cmp xs)"
| "list_step xs Clear = (No_value, [])"
| "list_step xs Deep_clear = (Freed xs, [])"

fun list_run :: "'a gptr list \<Rightarrow> 'a pl_op list \<Rightarrow> 'a pl_out list \<times> 'a gptr list" where
  "list_run xs [] = ([], xs)"
| "list_run xs (op # ops) =
     (let (out, xs) = list_step xs op; (outs, xs) = list_run xs ops in (out # outs, xs))"

text \<open>
  When an operation ends the process: the block is full and cannot grow, or it is to shrink
  to size 0 or to a size that is not granted.
\<close>

definition no_room :: "(nat \<Rightarrow> bool) \<Rightarrow> 'a pointer_list \<Rightarrow> 'a gptr list \<Rightarrow> bool" where
  "no_room grants self xs \<longleftrightarrow> \<not> (length xs < unat (pl_cap self) \<or> can_grow grants (pl_cap self))"

definition no_shrink :: "(nat \<Rightarrow> bool) \<Rightarrow> 'a pointer_list \<Rightarrow> 'a gptr list \<Rightarrow> bool" where
  "no_shrink grants self xs \<longleftrightarrow>
     length xs - 1 \<le> shrunk_cap (unat (pl_cap self))
     \<and> \<not> (shrunk_cap (unat (pl_cap self)) \<noteq> 0 \<and> grants (shrunk_cap (unat (pl_cap self)) * SIZEOF_PTR))"

fun pl_exits :: "(nat \<Rightarrow> bool) \<Rightarrow> 'a pointer_list \<Rightarrow> 'a gptr list \<Rightarrow> 'a pl_op \<Rightarrow> bool" where
  "pl_exits grants self xs (Append p) = no_room grants self xs"
| "pl_exits grants self xs (Insert p i) = (unat i \<le> length xs \<and> no_room grants self xs)"
| "pl_exits grants self xs (Remove i) = (unat i < length xs \<and> no_shrink grants self xs)"
| "pl_exits grants self xs Pop = (xs \<noteq> [] \<and> no_shrink grants self xs)"
| "pl_exits grants self xs _ = False"

definition pl_sim :: "bool \<Rightarrow> ('a pl_out \<times> 'a pointer_list) cres \<Rightarrow> 'a pl_out \<times> 'a gptr list \<Rightarrow> bool" where
  "pl_sim stops r s \<longleftrightarrow>
     (if stops then r = Inl Exit_failure else \<exists>self. r = Inr (fst s, self) \<and> pl_rep self (snd s))"

lemma remove_sim:
  assumes "pl_rep self xs"
  shows "pl_sim (pl_exits grants self xs (Remove i)) (pl_step grants self (Remove i)) (list_step xs (Remove i))"
proof (cases "unat i < length xs")
  case True
  then show ?thesis
    using remove_refines [OF assms True, of grants] by (auto simp: pl_sim_def no_shrink_def no_value_def)
next
  case False
  then show ?thesis
    using assms by (simp add: pl_sim_def no_value_def pointer_list_remove_def remove_nth_def word_le_nat_alt pl_rep_def)
qed

lemma pop_sim:
  assumes "pl_rep self xs"
  shows "pl_sim (pl_exits grants self xs Pop) (pl_step grants self Pop) (list_step xs Pop)"
proof (cases "xs = []")
  case True
  then show ?thesis
    using assms by (simp add: pl_sim_def pointer_list_pop_def word_le_nat_alt pl_rep_def)
next
  case False
  have len: "unat (pl_len self) = length xs" using assms by (simp add: pl_rep_def)
  have len1: "unat (pl_len self - 1) = length xs - 1"
    using False len by (metis length_0_conv unat_0 unat_minus_one)
  then have lt: "unat (pl_len self - 1) < length xs" using False by simp
  have rd: "pl_read self (length xs - 1) = Inr (last xs)"
    using pl_rep_read [OF assms, of "length xs - 1"] False by (simp add: last_conv_nth)
  show ?thesis
    using remove_refines [OF assms lt, of grants] pop_refines [OF assms False, of grants] False len len1 rd
    by (auto simp: pl_sim_def no_shrink_def pointer_list_pop_def word_le_nat_alt)
qed

lemma pl_step_sim: "pl_rep self xs \<Longrightarrow> pl_sim (pl_exits grants self xs op) (pl_step grants self op) (list_step xs op)"
proof (cases op)
  case (Append p)
  assume "pl_rep self xs"
  then show ?thesis
    using append_refines [of self xs grants p] Append by (auto simp: pl_sim_def no_room_def no_value_def)
next
  case (Insert p i)
  assume r: "pl_rep self xs"
  show ?thesis
  proof (cases "unat i \<le> length xs")
    case True
    then show ?thesis
      using insert_refines [OF r True, of grants p] Insert by (auto simp: pl_sim_def no_room_def no_value_def)
  next
    case False
    then show ?thesis
      using r Insert
      by (simp add: pl_sim_def no_value_def pointer_list_insert_def pointer_list_len_def word_less_nat_alt pl_rep_def)
  qed
next
  case (Set_at i p)
  assume "pl_rep self xs"
  then show ?thesis using set_refines [of self xs i p] Set_at by (auto simp: pl_sim_def no_value_def)
next
  case (Sort cmp)
  assume "pl_rep self xs"
  then show ?thesis using sort_refines [of self xs cmp] Sort by (auto simp: pl_sim_def no_value_def)
next
  case Len
  assume r: "pl_rep self xs"
  then have "pointer_list_len self = of_nat (length xs)"
    by (metis pl.len_rep of_nat_unat ucast_id)
  then show ?thesis using r Len by (simp add: pl_sim_def)
qed (simp_all only: remove_sim pop_sim,
     simp_all add: pl_sim_def get_refines deep_clear_refines clear_refines)

lemma pl_run_sim:
  "pl_rep self xs \<Longrightarrow>
   case run_ops (pl_step grants) self ops of
     Inl e \<Rightarrow> e = Exit_failure \<and> (\<exists>k<length ops. \<exists>self'.
       run_ops (pl_step grants) self (take k ops) = Inr (fst (list_run xs (take k ops)), self')
       \<and> pl_exits grants self' (snd (list_run xs (take k ops))) (ops ! k))
   | Inr (outs, self') \<Rightarrow> outs = fst (list_run xs ops) \<and> pl_rep self' (snd (list_run xs ops))"
proof (induction ops arbitrary: self xs)
  case (Cons op ops)
  note sim = pl_step_sim [OF Cons.prems, of grants op]
  show ?case
  proof (cases "pl_exits grants self xs op")
    case True
    then show ?thesis using sim by (auto simp: pl_sim_def intro!: exI [of _ 0])
  next
    case False
    then obtain self1 where s: "pl_step grants self op = Inr (fst (list_step xs op), self1)" "pl_rep self1 (snd (list_step xs op))"
      using sim by (auto simp: pl_sim_def)
    have lr: "list_run xs (op # zs) = (fst (list_step xs op) # fst (list_run (snd (list_step xs op)) zs), snd (list_run (snd (list_step xs op)) zs))" for zs
      by (simp add: case_prod_beta Let_def)
    show ?thesis
    proof (cases "run_ops (pl_step grants) self1 ops")
      case (Inl e)
      then obtain k self' where "e = Exit_failure" "k < length ops"
        "run_ops (pl_step grants) self1 (take k ops) = Inr (fst (list_run (snd (list_step xs op)) (take k ops)), self')"
        "pl_exits grants self' (snd (list_run (snd (list_step xs op)) (take k ops))) (ops ! k)"
        using Cons.IH [OF s(2)] by auto
      then show ?thesis using Inl s(1) by (auto simp: lr simp del: list_run.simps intro!: exI [of _ "Suc k"])
    next
      case (Inr r)
      then show ?thesis using Cons.IH [OF s(2)] s(1) by (auto simp: lr simp del: list_run.simps)
    qed
  qed
qed simp

section \<open>Properties\<close>

text \<open>
  C21. Every sequence of operations on a freshly initialised pointer list, whatever the
  allocator grants, behaves like the same sequence on a list: what the operations return is what
  they return there, and the elements afterwards are those of the list. No operation reads an
  uninitialised cell, dereferences \<open>NULL\<close> or leaves the allocated block. The only way to stop early is
  \<open>exit(EXIT_FAILURE)\<close>, at an operation for which the block is full and cannot grow, or for which it
  is to shrink to size 0 or to a size the allocator refuses.
\<close>

theorem pointer_list_refines:
  "case run_ops (pl_step grants) (pointer_list_init grants) ops of
     Inl e \<Rightarrow> e = Exit_failure \<and> (\<exists>k self. k < length ops
       \<and> run_ops (pl_step grants) (pointer_list_init grants) (take k ops) = Inr (fst (list_run [] (take k ops)), self)
       \<and> pl_exits grants self (snd (list_run [] (take k ops))) (ops ! k))
   | Inr (outs, self) \<Rightarrow> outs = fst (list_run [] ops) \<and> pl_rep self (snd (list_run [] ops))"
  using pl_run_sim [where grants = grants and ops = ops, OF pl_rep_init [of grants]] by (auto split: sum.splits)

text \<open>
  C22. With an allocator that grants every request, removing an element that exists ends the program
  exactly when the capacity is 1, because the list then asks \<open>realloc\<close> for a block of size
  0 and takes the \<open>NULL\<close> it returns for a failure.
\<close>

theorem remove_exits_iff_cap_1:
  assumes "pl_rep self xs" and "unat index < length xs" and "\<And>n. grants n"
  shows "pointer_list_remove grants self index = Inl Exit_failure \<longleftrightarrow> pointer_list_cap self = 1"
proof -
  have c: "0 < unat (pl_cap self)" "length xs \<le> unat (pl_cap self)"
    using assms(1,2) by (auto simp: pl_rep_def)
  have one: "pl_cap self = 1 \<longleftrightarrow> unat (pl_cap self) = 1"
    by (simp add: word_unat_eq_iff)
  have "shrunk_cap (unat (pl_cap self)) = 0 \<longleftrightarrow> unat (pl_cap self) = 1"
    using c(1) by (auto simp: shrunk_cap_def)
  then show ?thesis
    using remove_refines [OF assms(1,2), of grants] assms(3) c
    by (auto simp: pointer_list_cap_def one split: if_splits)
qed

theorem remove_exits_iff_cap_1_witness:
  "pl_rep \<lparr>pl_list = Some [Some (Some 7)], pl_len = 1, pl_cap = 1\<rparr> [Some (7 :: nat)]
   \<and> unat (0 :: uint32) < length [Some (7 :: nat)]
   \<and> pointer_list_append (\<lambda>n. True) (pointer_list_init (\<lambda>n. True)) (Some (7 :: nat))
       = Inr \<lparr>pl_list = Some [Some (Some 7)], pl_len = 1, pl_cap = 1\<rparr>
   \<and> pointer_list_remove (\<lambda>n. True) \<lparr>pl_list = Some [Some (Some (7 :: nat))], pl_len = 1, pl_cap = 1\<rparr> 0
       = Inl Exit_failure"
proof -
  let ?l = "\<lparr>pl_list = Some [Some (Some (7 :: nat))], pl_len = 1, pl_cap = 1\<rparr>"
  have r: "pl_rep ?l [Some 7]" "unat (0 :: uint32) < length [Some (7 :: nat)]"
    by (simp_all add: pl_rep_def)
  moreover have "pointer_list_append (\<lambda>n. True) (pointer_list_init (\<lambda>n. True)) (Some 7) = Inr ?l"
    by (simp add: pointer_list_append_def pointer_list_init_def pointer_list_expand_def
        pointer_list_realloc_def pl_realloc_def pl_malloc_def pl_write_def word_le_nat_alt)
  moreover have "pointer_list_remove (\<lambda>n. True) ?l 0 = Inl Exit_failure"
    using remove_exits_iff_cap_1 [OF r, of "\<lambda>n. True"] by (simp add: pointer_list_cap_def)
  ultimately show ?thesis by blast
qed

end
