(* ===== verification/DummyTable.thy ===== *)
theory DummyTable
  imports PointerList Ether LPM
begin

text \<open>
  The reference routing table of \<^verbatim>\<open>dummy_routing_table.c\<close>: a pointer list of routes kept in
  the order of falling prefix length, searched from the front.
\<close>

section \<open>Definitions\<close>

record ipv4_cidr_addr =
  cidr_addr :: uint32
  cidr_len :: uint8

record route_entry =
  dest :: ipv4_cidr_addr
  re_dst_mac :: ether_addr
  re_dst_port :: uint8

type_synonym dummy_table = "route_entry pointer_list"

definition SIZEOF_ROUTE_ENTRY :: nat where [c_defs]: "SIZEOF_ROUTE_ENTRY = 16"

definition routing_table_init_dummy :: "(nat \<Rightarrow> bool) \<Rightarrow> dummy_table" where
  "routing_table_init_dummy grants = pointer_list_init grants"

definition routing_table_finalize_dummy :: "dummy_table \<Rightarrow> (route_entry gptr list \<times> dummy_table) cres" where
  "routing_table_finalize_dummy rt_ents = pointer_list_deep_clear rt_ents"

text \<open>The entry at an index; following a \<open>NULL\<close> pointer stops the model.\<close>

definition entry_at :: "dummy_table \<Rightarrow> nat \<Rightarrow> route_entry cres" where
  "entry_at rt_ents i =
     cbind (pointer_list_get rt_ents (of_nat i)) (\<lambda>p.
       case p of None \<Rightarrow> Inl Null_deref | Some rt_ent \<Rightarrow> Inr rt_ent)"

definition add_route_dummy ::
  "(nat \<Rightarrow> bool) \<Rightarrow> uint32 \<Rightarrow> uint8 \<Rightarrow> ether_addr \<Rightarrow> uint8 \<Rightarrow> dummy_table \<Rightarrow> dummy_table cres" where
  "add_route_dummy grants addr cidr mac port rt_ents =
     cbind (c_search 0 (unat (pointer_list_len rt_ents))
              (\<lambda>i. cbind (entry_at rt_ents i) (\<lambda>rt_ent. Inr (cidr_len (dest rt_ent) < cidr)))) (\<lambda>i.
     if \<not> grants SIZEOF_ROUTE_ENTRY then Inl Null_deref
     else pointer_list_insert grants rt_ents
            (Some \<lparr>dest = \<lparr>cidr_addr = addr, cidr_len = cidr\<rparr>, re_dst_mac = mac, re_dst_port = port\<rparr>)
            (of_nat i))"

definition subnet_mask :: "shift_model \<Rightarrow> uint8 \<Rightarrow> uint32 cres" where
  "subnet_mask sm cidr = c_sar32 sm (push_bit 31 1) (uint cidr - 1)"

definition get_next_hop_dummy :: "shift_model \<Rightarrow> uint32 \<Rightarrow> dummy_table \<Rightarrow> route_entry gptr cres" where
  "get_next_hop_dummy sm addr rt_ents =
     (let sz = unat (pointer_list_len rt_ents) in
      cbind (c_search 0 sz
               (\<lambda>i. cbind (entry_at rt_ents i) (\<lambda>rt_ent.
                    cbind (subnet_mask sm (cidr_len (dest rt_ent))) (\<lambda>subnet_mask.
                    Inr (addr AND subnet_mask = cidr_addr (dest rt_ent)))))) (\<lambda>i.
      if i < sz then pointer_list_get rt_ents (of_nat i) else Inr None))"

definition route_entry_print_dummy :: "route_entry gptr \<Rightarrow> string" where
  "route_entry_print_dummy ptr =
     (case ptr of
        None \<Rightarrow> []
      | Some rt_ent \<Rightarrow>
          ''-r argument: ipv4 addr 0x'' @ fmt_x 8 (unat (cidr_addr (dest rt_ent)))
          @ '', cidr '' @ fmt_u (unat (cidr_len (dest rt_ent)))
          @ '', MAC '' @ ether_text (re_dst_mac rt_ent)
          @ '', interface id '' @ fmt_u (unat (re_dst_port rt_ent)) @ [CHR 0x0A])"

definition routing_table_print_dummy :: "dummy_table \<Rightarrow> string cres" where
  "routing_table_print_dummy rt_ents = pointer_list_print rt_ents route_entry_print_dummy"

section \<open>The operations on the represented list\<close>

definition dummy_rep :: "dummy_table \<Rightarrow> route_entry list \<Rightarrow> bool" where
  "dummy_rep t es \<longleftrightarrow> pl_rep t (map Some es)"

abbreviation re_len :: "route_entry \<Rightarrow> nat" where
  "re_len e \<equiv> unat (cidr_len (dest e))"

definition ins_entry :: "route_entry \<Rightarrow> route_entry list \<Rightarrow> route_entry list" where
  "ins_entry e es =
     takeWhile (\<lambda>x. \<not> cidr_len (dest x) < cidr_len (dest e)) es
     @ e # dropWhile (\<lambda>x. \<not> cidr_len (dest x) < cidr_len (dest e)) es"

lemma dummy_rep_init: "dummy_rep (routing_table_init_dummy grants) []"
  by (simp add: dummy_rep_def routing_table_init_dummy_def pl_rep_init)

lemma dummy_rep_len: "dummy_rep t es \<Longrightarrow> unat (pointer_list_len t) = length es"
  using pl.len_rep by (fastforce simp: dummy_rep_def)

lemma entry_at_eq: "dummy_rep t es \<Longrightarrow> i < length es \<Longrightarrow> entry_at t i = Inr (es ! i)"
  using pl.get_of_nat [of t "map Some es" i] by (simp add: dummy_rep_def entry_at_def)

lemma add_route_dummy_eq:
  assumes rep: "dummy_rep t es" and g: "grants SIZEOF_ROUTE_ENTRY"
    and ok: "length es < unat (pl_cap t) \<or> can_grow grants (pl_cap t)"
  shows "\<exists>t'. add_route_dummy grants addr cidr mac port t = Inr t' \<and>
     dummy_rep t' (ins_entry \<lparr>dest = \<lparr>cidr_addr = addr, cidr_len = cidr\<rparr>,
                               re_dst_mac = mac, re_dst_port = port\<rparr> es)"
proof -
  let ?P = "\<lambda>x. cidr_len (dest x) < cidr"
  let ?e = "\<lparr>dest = \<lparr>cidr_addr = addr, cidr_len = cidr\<rparr>, re_dst_mac = mac, re_dst_port = port\<rparr>"
  let ?k = "length (takeWhile (\<lambda>x. \<not> ?P x) es)"
  have k: "?k \<le> length es" by (rule length_takeWhile_le)
  have bound: "length es < 2 ^ 32"
    using pl.length_bound [of t "map Some es"] rep by (simp add: dummy_rep_def)
  then have u: "unat (of_nat ?k :: uint32) = ?k"
    using k by (simp add: unat_of_nat_eq)
  have "c_search 0 (length es)
      (\<lambda>i. cbind (entry_at t i) (\<lambda>rt_ent. Inr (cidr_len (dest rt_ent) < cidr))) = Inr ?k"
    by (rule c_search_list) (simp add: entry_at_eq [OF rep])
  moreover have "\<exists>t'. pointer_list_insert grants t (Some ?e) (of_nat ?k) = Inr t' \<and>
      pl_rep t' (take ?k (map Some es) @ Some ?e # drop ?k (map Some es))"
    using insert_refines [of t "map Some es" "of_nat ?k" grants "Some ?e"] rep k ok u
    by (simp add: dummy_rep_def)
  moreover have "take ?k (map Some es) @ Some ?e # drop ?k (map Some es) = map Some (ins_entry ?e es)"
  proof -
    have "take ?k es = takeWhile (\<lambda>x. \<not> ?P x) es" "drop ?k es = dropWhile (\<lambda>x. \<not> ?P x) es"
      by (metis takeWhile_eq_take, metis dropWhile_eq_drop)
    then show ?thesis
      by (simp add: ins_entry_def take_map drop_map)
  qed
  ultimately show ?thesis
    using g by (simp add: add_route_dummy_def dummy_rep_len [OF rep] dummy_rep_def)
qed

section \<open>The order of the entries\<close>

definition dummy_sorted :: "route_entry list \<Rightarrow> bool" where
  "dummy_sorted es \<longleftrightarrow> sorted_wrt (\<lambda>a b. re_len b \<le> re_len a) es"

lemma set_ins_entry [simp]: "set (ins_entry e es) = insert e (set es)"
  unfolding ins_entry_def by (auto dest: set_takeWhileD set_dropWhileD)
     (metis Un_iff set_append takeWhile_dropWhile_id)

lemma length_ins_entry [simp]: "length (ins_entry e es) = Suc (length es)"
proof -
  let ?Q = "\<lambda>x. \<not> cidr_len (dest x) < cidr_len (dest e)"
  have "length (takeWhile ?Q es) + length (dropWhile ?Q es) = length es"
    unfolding length_append [symmetric] takeWhile_dropWhile_id ..
  then show ?thesis
    by (simp add: ins_entry_def)
qed

lemma dummy_sorted_ins:
  assumes "dummy_sorted es"
  shows "dummy_sorted (ins_entry e es)"
proof -
  let ?Q = "\<lambda>x. \<not> cidr_len (dest x) < cidr_len (dest e)"
  have s: "sorted_wrt (\<lambda>a b. re_len b \<le> re_len a) (takeWhile ?Q es @ dropWhile ?Q es)"
    using assms by (simp add: dummy_sorted_def)
  have "re_len e \<le> re_len x" if "x \<in> set (takeWhile ?Q es)" for x
    using set_takeWhileD [OF that] by (simp add: word_less_nat_alt not_less)
  moreover have "re_len y \<le> re_len e" if y: "y \<in> set (dropWhile ?Q es)" for y
  proof -
    obtain h r where d: "dropWhile ?Q es = h # r"
      using y by (cases "dropWhile ?Q es") auto
    then have "\<not> ?Q h"
      by (metis hd_dropWhile list.discI list.sel(1))
    then have "re_len h \<le> re_len e" by (simp add: word_less_nat_alt)
    moreover have "re_len y \<le> re_len h"
      using y s unfolding d sorted_wrt_append by auto
    ultimately show ?thesis by simp
  qed
  ultimately show ?thesis
    using s unfolding dummy_sorted_def ins_entry_def sorted_wrt_append by auto
qed

section \<open>Lookup\<close>

text \<open>An entry is canonical when its length is 1 to 32 and its host bits are zero.\<close>

definition canonical :: "route_entry \<Rightarrow> bool" where
  "canonical e \<longleftrightarrow> 1 \<le> re_len e \<and> re_len e \<le> 32
     \<and> cidr_addr (dest e) AND NOT (mask (32 - re_len e)) = cidr_addr (dest e)"

definition entry_route :: "route_entry \<Rightarrow> uint32 \<times> nat" where
  "entry_route e = (cidr_addr (dest e), re_len e)"

lemma signed_drop_top_bit:
  assumes "1 \<le> n" and "n \<le> 32"
  shows "signed_drop_bit (n - 1) (push_bit 31 1 :: uint32) = NOT (mask (32 - n))"
  using assms
  by (intro bit_word_eqI) (auto simp: bit_signed_drop_bit_iff bit_push_bit_iff bit_1_iff
      bit_not_iff bit_mask_iff simp del: push_bit_of_1)

lemma subnet_mask_eq:
  assumes "1 \<le> unat c" and "unat c \<le> 32"
  shows "subnet_mask sm c = Inr (NOT (mask (32 - unat c)))"
proof -
  define n where "n = unat c"
  have u: "uint c = int n" by (simp add: n_def)
  have n: "1 \<le> n" "n \<le> 32" using assms by (simp_all add: n_def)
  then have "c_sar32 sm (push_bit 31 1) (int n - 1) = Inr (signed_drop_bit (n - 1) (push_bit 31 1))"
    by (simp add: c_sar32_def nat_diff_distrib' del: push_bit_of_1)
  then show ?thesis
    unfolding subnet_mask_def u signed_drop_top_bit [OF n] by (simp add: n_def)
qed

lemma and_not_mask_eq_iff:
  fixes a b :: "'a::len word"
  shows "a AND NOT (mask n) = b AND NOT (mask n) \<longleftrightarrow> drop_bit n a = drop_bit n b"
proof -
  have "drop_bit n (w AND NOT (mask n)) = drop_bit n w" for w :: "'a word"
    by (rule bit_word_eqI) (auto simp: bit_simps dest: bit_imp_le_length)
  then show ?thesis
    by (metis and_not_mask)
qed

lemma canonical_match:
  assumes "canonical e"
  shows "ip AND NOT (mask (32 - re_len e)) = cidr_addr (dest e) \<longleftrightarrow> prefix_matches (entry_route e) ip"
  using assms and_not_mask_eq_iff [of ip "32 - re_len e" "cidr_addr (dest e)"]
  by (simp add: canonical_def prefix_matches_def entry_route_def)

lemma find_takeWhile:
  "length (takeWhile (\<lambda>x. \<not> P x) xs) < length xs \<Longrightarrow>
   find P xs = Some (xs ! length (takeWhile (\<lambda>x. \<not> P x) xs))"
  "\<not> length (takeWhile (\<lambda>x. \<not> P x) xs) < length xs \<Longrightarrow> find P xs = None"
  by (induction xs) auto

lemma get_next_hop_dummy_eq:
  assumes rep: "dummy_rep t es" and len: "\<And>e. e \<in> set es \<Longrightarrow> 1 \<le> re_len e \<and> re_len e \<le> 32"
  shows "get_next_hop_dummy sm ip t =
     Inr (find (\<lambda>e. ip AND NOT (mask (32 - re_len e)) = cidr_addr (dest e)) es)"
proof -
  let ?P = "\<lambda>e. ip AND NOT (mask (32 - re_len e)) = cidr_addr (dest e)"
  let ?k = "length (takeWhile (\<lambda>e. \<not> ?P e) es)"
  have "c_search 0 (length es)
      (\<lambda>i. cbind (entry_at t i) (\<lambda>rt_ent. cbind (subnet_mask sm (cidr_len (dest rt_ent))) (\<lambda>subnet_mask.
         Inr (ip AND subnet_mask = cidr_addr (dest rt_ent))))) = Inr ?k"
    by (rule c_search_list) (simp add: entry_at_eq [OF rep]
        subnet_mask_eq [OF len [THEN conjunct1] len [THEN conjunct2]])
  moreover have "pointer_list_get t (of_nat ?k) = Inr (Some (es ! ?k))" if "?k < length es"
    using pl.get_of_nat [of t "map Some es" ?k] rep that by (simp add: dummy_rep_def)
  ultimately show ?thesis
    using find_takeWhile [of ?P es] by (simp add: get_next_hop_dummy_def dummy_rep_len [OF rep])
qed

end
