(* ===== verification/Tables.thy ===== *)
theory Tables
  imports RoutingTable_Props DummyTable
begin

text \<open>
  What the forwarding path needs of a routing table is the locale \<open>lpm_table\<close>: a lookup
  returns the next hop of a matching route of greatest prefix length, or nothing when no
  route matches. Both tables of the repository are interpretations of it, and two tables
  that hold the same routes agree as soon as no two routes have the same prefix and
  different next hops.
\<close>

section \<open>The contract\<close>

type_synonym 'h hop_route = "uint32 \<times> nat \<times> 'h"

definition hop_matches :: "'h hop_route \<Rightarrow> uint32 \<Rightarrow> bool" where
  "hop_matches r ip \<longleftrightarrow> prefix_matches (fst r, fst (snd r)) ip"

definition best_hop :: "'h hop_route set \<Rightarrow> uint32 \<Rightarrow> 'h option \<Rightarrow> bool" where
  "best_hop rs ip res \<longleftrightarrow>
     (case res of
        None \<Rightarrow> (\<forall>r\<in>rs. \<not> hop_matches r ip)
      | Some h \<Rightarrow> \<exists>r\<in>rs. snd (snd r) = h \<and> hop_matches r ip
          \<and> (\<forall>r'\<in>rs. hop_matches r' ip \<longrightarrow> fst (snd r') \<le> fst (snd r)))"

text \<open>Routes of the same prefix have the same next hop.\<close>

definition unambiguous :: "'h hop_route set \<Rightarrow> bool" where
  "unambiguous rs \<longleftrightarrow>
     (\<forall>r\<in>rs. \<forall>r'\<in>rs. fst (snd r) = fst (snd r')
        \<and> drop_bit (32 - fst (snd r)) (fst r) = drop_bit (32 - fst (snd r)) (fst r')
        \<longrightarrow> snd (snd r) = snd (snd r'))"

lemma best_hop_None: "best_hop rs ip None \<longleftrightarrow> (\<forall>r\<in>rs. \<not> hop_matches r ip)"
  by (simp add: best_hop_def)

lemma best_hop_Some:
  "best_hop rs ip (Some h) \<longleftrightarrow>
     (\<exists>r\<in>rs. snd (snd r) = h \<and> hop_matches r ip
        \<and> (\<forall>r'\<in>rs. hop_matches r' ip \<longrightarrow> fst (snd r') \<le> fst (snd r)))"
  by (simp add: best_hop_def)

lemma best_hop_unique:
  assumes "unambiguous rs" and "best_hop rs ip x" and "best_hop rs ip y"
  shows "x = y"
proof (cases x; cases y)
  fix h h'
  assume x: "x = Some h" and y: "y = Some h'"
  obtain r where r: "r \<in> rs" "snd (snd r) = h" "hop_matches r ip"
    "\<forall>r'\<in>rs. hop_matches r' ip \<longrightarrow> fst (snd r') \<le> fst (snd r)"
    using assms(2) unfolding x best_hop_Some by blast
  obtain r' where r': "r' \<in> rs" "snd (snd r') = h'" "hop_matches r' ip"
    "\<forall>r\<in>rs. hop_matches r ip \<longrightarrow> fst (snd r) \<le> fst (snd r')"
    using assms(3) unfolding y best_hop_Some by blast
  have len: "fst (snd r) = fst (snd r')"
    using r(1,3,4) r'(1,3,4) by (simp add: le_antisym)
  have "drop_bit (32 - fst (snd r)) (fst r) = drop_bit (32 - fst (snd r)) (fst r')"
    using r(3) r'(3) by (simp add: hop_matches_def prefix_matches_def len)
  with len have "snd (snd r) = snd (snd r')"
    using assms(1) r(1) r'(1) unfolding unambiguous_def by blast
  then show "x = y" by (simp add: x y r(2) r'(2))
qed (use assms(2,3) in \<open>auto simp: best_hop_None best_hop_Some\<close>)

locale lpm_table =
  fixes holds :: "'t \<Rightarrow> 'h hop_route set \<Rightarrow> bool"
    and lookup :: "'t \<Rightarrow> uint32 \<Rightarrow> 'h option cres"
  assumes lookup_best: "holds t rs \<Longrightarrow> \<exists>r. lookup t ip = Inr r \<and> best_hop rs ip r"
begin

lemma lookup_eq: "holds t rs \<Longrightarrow> unambiguous rs \<Longrightarrow> best_hop rs ip r \<Longrightarrow> lookup t ip = Inr r"
proof -
  assume h: "holds t rs" and u: "unambiguous rs" and b: "best_hop rs ip r"
  obtain r' where "lookup t ip = Inr r'" "best_hop rs ip r'"
    using lookup_best [OF h] by blast
  with best_hop_unique [OF u b] show ?thesis by simp
qed

lemma lookup_none:
  assumes "holds t rs" and "\<forall>r\<in>rs. \<not> hop_matches r ip"
  shows "lookup t ip = Inr None"
proof -
  obtain r where r: "lookup t ip = Inr r" "best_hop rs ip r"
    using lookup_best [OF assms(1)] by blast
  with assms(2) show ?thesis
    by (cases r) (auto simp: best_hop_Some)
qed

end

locale two_lpm_tables =
  a: lpm_table holds_a lookup_a + b: lpm_table holds_b lookup_b
  for holds_a :: "'t \<Rightarrow> 'h hop_route set \<Rightarrow> bool" and lookup_a
    and holds_b :: "'u \<Rightarrow> 'h hop_route set \<Rightarrow> bool" and lookup_b
begin

lemma lookups_agree:
  assumes "holds_a t rs" and "holds_b u rs" and "unambiguous rs"
  shows "\<exists>r. lookup_a t ip = Inr r \<and> lookup_b u ip = Inr r"
  using a.lookup_best [OF assms(1), of ip] b.lookup_eq [OF assms(2,3)] by blast

end

section \<open>The two-level table\<close>

definition info_route :: "next_hop_info \<Rightarrow> routing_table_entry hop_route" where
  "info_route info = (ip_addr info, plen info, next_hop info)"

definition rt_holds :: "rt_state \<Rightarrow> routing_table_entry hop_route set \<Rightarrow> bool" where
  "rt_holds st rs \<longleftrightarrow> (\<exists>n. rt_built st n \<and> rs = (\<lambda>i. info_route (infos_of st i)) ` {..<n})"

lemma hop_matches_info: "hop_matches (info_route (infos_of st i)) ip \<longleftrightarrow> prefix_matches (routes_of st i) ip"
  by (simp add: hop_matches_def info_route_def routes_of_def route_of_def)

lemma snd_routes_of: "snd (routes_of st i) = plen (infos_of st i)"
  by (simp add: routes_of_def route_of_def)

interpretation rt: lpm_table rt_holds lookup_hop
proof
  fix st rs ip
  assume "rt_holds st rs"
  then obtain n where n: "rt_built st n" "rs = (\<lambda>i. info_route (infos_of st i)) ` {..<n}"
    by (auto simp: rt_holds_def)
  have bound: "n \<le> TBLLONG_TABLE_SIZE" "alen (nh_id_to_info st) = NH_ID_TO_INFO_SIZE"
    using n(1) rt_struct_sizes [of st n] by (auto simp: rt_built_def)
  show "\<exists>r. lookup_hop st ip = Inr r \<and> best_hop rs ip r"
  proof (cases "lpm (routes_of st) n ip")
    case None
    then have "\<forall>j<n. \<not> prefix_matches (routes_of st j) ip"
      using lpm_is_lpm [of "routes_of st" n ip] by (simp add: is_lpm_def)
    then have "best_hop rs ip None"
      by (auto simp: best_hop_def n(2) hop_matches_info)
    then show ?thesis
      using get_next_hop_lpm [OF n(1), of ip] None by (auto simp: lookup_hop_def)
  next
    case (Some i)
    then have i: "i < n" "prefix_matches (routes_of st i) ip"
      "\<And>j. j < n \<Longrightarrow> prefix_matches (routes_of st j) ip \<Longrightarrow> snd (routes_of st j) \<le> snd (routes_of st i)"
      using lpm_is_lpm [of "routes_of st" n ip] by (auto simp: is_lpm_def)
    then have "best_hop rs ip (Some (next_hop (infos_of st i)))"
      by (auto simp: best_hop_def n(2) hop_matches_info snd_routes_of [symmetric])
        (auto simp: info_route_def snd_routes_of intro!: bexI [of _ i])
    moreover have "lookup_hop st ip = Inr (Some (next_hop (infos_of st i)))"
      using get_next_hop_lpm [OF n(1), of ip] Some i(1) bound
      by (simp add: lookup_hop_def deref_next_hop_def rt_size_defs)
    ultimately show ?thesis by blast
  qed
qed

section \<open>The reference table\<close>

definition entry_hop :: "route_entry \<Rightarrow> routing_table_entry" where
  "entry_hop e = \<lparr>dst_mac = re_dst_mac e, dst_port = re_dst_port e\<rparr>"

definition entry_hop_route :: "route_entry \<Rightarrow> routing_table_entry hop_route" where
  "entry_hop_route e = (cidr_addr (dest e), re_len e, entry_hop e)"

definition lookup_dummy :: "shift_model \<Rightarrow> dummy_table \<Rightarrow> uint32 \<Rightarrow> routing_table_entry option cres" where
  "lookup_dummy sm t ip = cbind (get_next_hop_dummy sm ip t) (\<lambda>r. Inr (map_option entry_hop r))"

definition dummy_holds :: "dummy_table \<Rightarrow> routing_table_entry hop_route set \<Rightarrow> bool" where
  "dummy_holds t rs \<longleftrightarrow>
     (\<exists>es. dummy_rep t es \<and> dummy_sorted es \<and> (\<forall>e\<in>set es. canonical e) \<and> rs = entry_hop_route ` set es)"

lemma find_sorted_best:
  assumes "dummy_sorted es" and "find P es = Some e"
  shows "e \<in> set es" and "P e" and "\<And>e'. e' \<in> set es \<Longrightarrow> P e' \<Longrightarrow> re_len e' \<le> re_len e"
proof -
  obtain i where i: "i < length es" "P (es ! i)" "e = es ! i" "\<And>j. j < i \<Longrightarrow> \<not> P (es ! j)"
    using assms(2) by (auto simp: find_Some_iff)
  show "e \<in> set es" and "P e" using i by auto
  fix e' assume "e' \<in> set es" "P e'"
  then obtain j where j: "j < length es" "e' = es ! j" by (auto simp: in_set_conv_nth)
  with i \<open>P e'\<close> have "i \<le> j" by (meson not_less)
  then show "re_len e' \<le> re_len e"
    using assms(1) i j by (cases "i = j") (auto simp: dummy_sorted_def sorted_wrt_iff_nth_less)
qed

lemma hop_matches_entry: "hop_matches (entry_hop_route e) ip \<longleftrightarrow> prefix_matches (entry_route e) ip"
  by (simp add: hop_matches_def entry_hop_route_def entry_route_def)

interpretation dummy: lpm_table dummy_holds "lookup_dummy sm" for sm
proof
  fix t rs ip
  assume "dummy_holds t rs"
  then obtain es where es: "dummy_rep t es" "dummy_sorted es" "\<And>e. e \<in> set es \<Longrightarrow> canonical e"
    "rs = entry_hop_route ` set es"
    by (auto simp: dummy_holds_def)
  let ?P = "\<lambda>e. ip AND NOT (mask (32 - re_len e)) = cidr_addr (dest e)"
  have P: "?P e \<longleftrightarrow> hop_matches (entry_hop_route e) ip" if "e \<in> set es" for e
    using canonical_match [OF es(3) [OF that]] by (simp add: hop_matches_entry)
  have "get_next_hop_dummy sm ip t = Inr (find ?P es)"
    by (rule get_next_hop_dummy_eq [OF es(1)]) (use es(3) in \<open>auto simp: canonical_def\<close>)
  moreover have "best_hop rs ip (map_option entry_hop (find ?P es))"
  proof (cases "find ?P es")
    case None
    then have "\<forall>e\<in>set es. \<not> ?P e" by (auto simp: find_None_iff)
    with P have "\<forall>e\<in>set es. \<not> hop_matches (entry_hop_route e) ip" by blast
    then show ?thesis unfolding None es(4) by (auto simp: best_hop_def)
  next
    case (Some e)
    note best = find_sorted_best [OF es(2) Some]
    have "hop_matches (entry_hop_route e) ip" using P best(1,2) by blast
    moreover have "re_len e' \<le> re_len e" if "e' \<in> set es" "hop_matches (entry_hop_route e') ip" for e'
      using P that best(3) by blast
    ultimately show ?thesis
      using best(1) unfolding Some es(4) by (auto simp: best_hop_def entry_hop_route_def)
  qed
  ultimately show "\<exists>r. lookup_dummy sm t ip = Inr r \<and> best_hop rs ip r"
    by (simp add: lookup_dummy_def)
qed

interpretation both: two_lpm_tables rt_holds lookup_hop dummy_holds "lookup_dummy sm" for sm
  by unfold_locales

section \<open>Adding the same routes to both tables\<close>

fun new_entry :: "new_route \<Rightarrow> route_entry" where
  "new_entry (addr, len, mac, port) =
     \<lparr>dest = \<lparr>cidr_addr = addr, cidr_len = len\<rparr>, re_dst_mac = mac, re_dst_port = port\<rparr>"

definition add_all_dummy :: "(nat \<Rightarrow> bool) \<Rightarrow> new_route list \<Rightarrow> dummy_table \<Rightarrow> dummy_table cres" where
  "add_all_dummy grants rs =
     c_iter rs (\<lambda>(addr, len, mac, port). add_route_dummy grants addr len mac port)"

lemma add_all_dummy_eq:
  assumes "length rs \<le> TBLLONG_TABLE_SIZE" and g: "\<And>n. grants n"
  shows "\<exists>t es. add_all_dummy grants rs (routing_table_init_dummy grants) = Inr t
           \<and> dummy_rep t es \<and> dummy_sorted es \<and> set es = new_entry ` set rs \<and> length es = length rs"
  using assms(1)
proof (induction rs rule: rev_induct)
  case Nil
  then show ?case
    using dummy_rep_init [of grants] by (auto simp: add_all_dummy_def dummy_sorted_def)
next
  case (snoc r rs)
  then obtain t es where t: "add_all_dummy grants rs (routing_table_init_dummy grants) = Inr t"
    "dummy_rep t es" "dummy_sorted es" "set es = new_entry ` set rs" "length es = length rs"
    by auto
  obtain addr len mac port where r: "r = (addr, len, mac, port)" by (cases r)
  have room: "length es < unat (pl_cap t) \<or> can_grow grants (pl_cap t)"
    using t(5) snoc.prems g by (auto simp: can_grow_def rt_size_defs)
  obtain t' where t': "add_route_dummy grants addr len mac port t = Inr t'"
    "dummy_rep t' (ins_entry (new_entry r) es)"
    using add_route_dummy_eq [OF t(2) g room, of addr len mac port] r by auto
  have "add_all_dummy grants (rs @ [r]) (routing_table_init_dummy grants) = Inr t'"
    using t(1) t'(1) r by (simp add: add_all_dummy_def c_iter_append)
  moreover have "set (ins_entry (new_entry r) es) = new_entry ` set (rs @ [r])"
    by (simp add: t(4))
  moreover have "length (ins_entry (new_entry r) es) = length (rs @ [r])"
    by (simp add: t(5))
  ultimately show ?case
    using t'(2) dummy_sorted_ins [OF t(3)] by blast
qed

definition hop_route_of :: "new_route \<Rightarrow> routing_table_entry hop_route" where
  "hop_route_of r = entry_hop_route (new_entry r)"

lemma info_route_new:
  "canonical (new_entry r) \<Longrightarrow> info_route (new_route_info r) = hop_route_of r"
  by (cases r) (auto simp: info_route_def new_info_def hop_route_of_def entry_hop_route_def
      entry_hop_def canonical_def word_le_nat_alt)

lemma route_ok_new: "canonical (new_entry r) \<Longrightarrow> route_ok sm (new_route_info r)"
  by (cases r) (auto simp: route_ok_def new_info_def canonical_def word_le_nat_alt)

lemma rt_holds_added:
  assumes "length rs \<le> TBLLONG_TABLE_SIZE" and can: "\<And>r. r \<in> set rs \<Longrightarrow> canonical (new_entry r)"
  shows "\<exists>st. cbind (add_all rs rt_initial) (build_routing_table sm) = Inr st
           \<and> rt_holds st (hop_route_of ` set rs)"
proof -
  obtain st where st: "add_all rs rt_initial = Inr st" "rt_reachable sm st"
    "unat (nh_id_to_info_idx st) = length rs" "\<forall>i<length rs. infos_of st i = new_route_info (rs ! i)"
    using add_all_eq [OF assms(1)] by blast
  have "routes_ok sm st"
    using st(3,4) can route_ok_new by (simp add: routes_ok_def)
  moreover have wf: "rt_wf st" by (rule reachable_wf [OF st(2)])
  ultimately obtain st' where st': "build_routing_table sm st = Inr st'" "rt_built st' (length rs)"
    "nh_id_to_info st' = nh_id_to_info st"
    using build_routing_table_built [of st sm] st(3) unfolding rt_wf_def by auto
  have "info_route (infos_of st' i) = hop_route_of (rs ! i)" if "i < length rs" for i
    using st(4) st'(3) that can info_route_new by simp
  then have "(\<lambda>i. info_route (infos_of st' i)) ` {..<length rs} = hop_route_of ` set rs"
    by (auto simp: set_conv_nth image_iff)
  then have "rt_holds st' (hop_route_of ` set rs)"
    using st'(2) by (metis rt_holds_def)
  then show ?thesis
    using st(1) st'(1) by auto
qed

lemma dummy_holds_added:
  assumes "length rs \<le> TBLLONG_TABLE_SIZE" and can: "\<And>r. r \<in> set rs \<Longrightarrow> canonical (new_entry r)"
    and "\<And>n. grants n"
  shows "\<exists>t. add_all_dummy grants rs (routing_table_init_dummy grants) = Inr t
           \<and> dummy_holds t (hop_route_of ` set rs)"
proof -
  obtain t es where t: "add_all_dummy grants rs (routing_table_init_dummy grants) = Inr t"
    "dummy_rep t es" "dummy_sorted es" "set es = new_entry ` set rs"
    using add_all_dummy_eq [OF assms(1), of grants] assms(3) by blast
  have "hop_route_of ` set rs = entry_hop_route ` set es"
    unfolding t(4) image_image hop_route_of_def ..
  moreover have "\<forall>e\<in>set es. canonical e"
    unfolding t(4) using can by blast
  ultimately have "dummy_holds t (hop_route_of ` set rs)"
    unfolding dummy_holds_def using t(2,3) by blast
  with t(1) show ?thesis by blast
qed

section \<open>Properties\<close>

text \<open>
  C23. The two-level table and the reference table agree. After at most 255 routes whose
  prefix lengths are 1 to 32, whose host bits are zero and of which no two have the same
  prefix and different next hops are added to both, in the same order and with an allocator that
  grants every request, both are built without an error and every lookup returns the same next hop from both.
\<close>

theorem tables_agree:
  assumes "length rs \<le> TBLLONG_TABLE_SIZE"
    and "\<And>r. r \<in> set rs \<Longrightarrow> canonical (new_entry r)"
    and "unambiguous (hop_route_of ` set rs)" and "\<And>n. grants n"
  shows "\<exists>st t. cbind (add_all rs rt_initial) (build_routing_table sm) = Inr st
           \<and> add_all_dummy grants rs (routing_table_init_dummy grants) = Inr t
           \<and> (\<forall>ip. \<exists>r. lookup_hop st ip = Inr r \<and> lookup_dummy sm t ip = Inr r)"
proof -
  obtain st where st: "cbind (add_all rs rt_initial) (build_routing_table sm) = Inr st"
    "rt_holds st (hop_route_of ` set rs)"
    using rt_holds_added [OF assms(1,2)] by blast
  obtain t where t: "add_all_dummy grants rs (routing_table_init_dummy grants) = Inr t"
    "dummy_holds t (hop_route_of ` set rs)"
    using dummy_holds_added [OF assms(1,2), of grants] assms(4) by blast
  show ?thesis
    using st(1) t(1) both.lookups_agree [OF st(2) t(2) assms(3), of _ sm] by blast
qed

definition test_routes :: "new_route list" where
  "test_routes = [(0x0A000A00, 24, test_mac 0, 0), (0x0A000A0A, 32, test_mac 1, 1)]"

theorem tables_agree_witness:
  "length test_routes \<le> TBLLONG_TABLE_SIZE
   \<and> list_all (\<lambda>r. canonical (new_entry r)) test_routes
   \<and> unambiguous (hop_route_of ` set test_routes)
   \<and> (\<exists>st t. cbind (add_all test_routes rt_initial) (build_routing_table ISO_C) = Inr st
        \<and> add_all_dummy (\<lambda>n. True) test_routes (routing_table_init_dummy (\<lambda>n. True)) = Inr t
        \<and> lookup_hop st 0x0A000A0A = lookup_dummy ISO_C t 0x0A000A0A)"
proof -
  have h: "length test_routes \<le> TBLLONG_TABLE_SIZE"
    by (simp add: test_routes_def rt_size_defs)
  have c: "list_all (\<lambda>r. canonical (new_entry r)) test_routes"
    by (simp add: test_routes_def canonical_def mask_eq_exp_minus_1)
  have u: "unambiguous (hop_route_of ` set test_routes)"
    by (simp add: unambiguous_def test_routes_def hop_route_of_def entry_hop_route_def)
  have "\<exists>st t. cbind (add_all test_routes rt_initial) (build_routing_table ISO_C) = Inr st
      \<and> add_all_dummy (\<lambda>n. True) test_routes (routing_table_init_dummy (\<lambda>n. True)) = Inr t
      \<and> (\<forall>ip. \<exists>r. lookup_hop st ip = Inr r \<and> lookup_dummy ISO_C t ip = Inr r)"
    by (rule tables_agree [OF h _ u]) (use c in \<open>auto simp: list_all_iff\<close>)
  with h c u show ?thesis by metis
qed

end
