(* ===== verification/Utils.thy ===== *)
theory Utils
  imports Ether
begin

text \<open>
  The string helpers of \<^verbatim>\<open>utils/utils.c\<close>: searching a separator, checking that a string
  has only digits, and the parsers of IPv4 and MAC addresses. The parsers overwrite each
  separator with NUL while they convert the group before it, and put the separator back
  afterwards, so they take the buffer and return it.
\<close>

section \<open>Definitions\<close>

definition IPV4_GROUP_LEN :: int where [c_defs]: "IPV4_GROUP_LEN = 3"
definition IPV4_NUM_GROUPS :: nat where [c_defs]: "IPV4_NUM_GROUPS = 4"
definition IPV4_NUM_DOTS :: nat where [c_defs]: "IPV4_NUM_DOTS = IPV4_NUM_GROUPS - 1"
definition IPV4_MAX_ADDR_LEN :: int where [c_defs]: "IPV4_MAX_ADDR_LEN = 15"
definition IPV4_MIN_GROUP_VAL :: int where [c_defs]: "IPV4_MIN_GROUP_VAL = 0x00"
definition IPV4_MAX_GROUP_VAL :: int where [c_defs]: "IPV4_MAX_GROUP_VAL = 0xff"
definition DPDK_MIN_INTERFACE_VAL :: int where [c_defs]: "DPDK_MIN_INTERFACE_VAL = 0x00"
definition DPDK_MAX_INTERFACE_VAL :: int where [c_defs]: "DPDK_MAX_INTERFACE_VAL = 0xff"
definition IPV4_MIN_CIDR_VAL :: int where [c_defs]: "IPV4_MIN_CIDR_VAL = 0"
definition IPV4_MAX_CIDR_VAL :: int where [c_defs]: "IPV4_MAX_CIDR_VAL = 32"
definition MAC_GROUP_LEN :: int where [c_defs]: "MAC_GROUP_LEN = 2"
definition MAC_NUM_GROUPS :: nat where [c_defs]: "MAC_NUM_GROUPS = 6"
definition MAC_NUM_COLONS :: nat where [c_defs]: "MAC_NUM_COLONS = MAC_NUM_GROUPS - 1"
definition MAC_ADDR_LEN :: int where [c_defs]: "MAC_ADDR_LEN = 17"
definition MAC_MIN_GROUP_VAL :: int where [c_defs]: "MAC_MIN_GROUP_VAL = 0x00"
definition MAC_MAX_GROUP_VAL :: int where [c_defs]: "MAC_MAX_GROUP_VAL = 0xff"

fun index_from :: "char list \<Rightarrow> char \<Rightarrow> int \<Rightarrow> int \<Rightarrow> int cres" where
  "index_from [] ch mx i = Inl Out_of_bounds"
| "index_from (curr_ch # str) ch mx i =
     (if curr_ch = ch then Inr i
      else if curr_ch = NUL \<or> i = mx then Inr (-1)
      else index_from str ch mx (i + 1))"

definition index_of_first_char :: "char list \<Rightarrow> char \<Rightarrow> int \<Rightarrow> int cres" where
  "index_of_first_char str ch mx = index_from str ch mx 0"

fun are_all_char_decimal :: "char list \<Rightarrow> bool cres" where
  "are_all_char_decimal [] = Inl Out_of_bounds"
| "are_all_char_decimal (ch # str) =
     (if ch \<noteq> NUL
      then if \<not> (48 \<le> (of_char ch :: nat) \<and> of_char ch \<le> (57 :: nat)) then Inr False
           else are_all_char_decimal str
      else Inr True)"

fun are_all_char_hexadecimal :: "char list \<Rightarrow> bool cres" where
  "are_all_char_hexadecimal [] = Inl Out_of_bounds"
| "are_all_char_hexadecimal (ch # str) =
     (if ch \<noteq> NUL
      then if \<not> ((48 \<le> (of_char ch :: nat) \<and> of_char ch \<le> (57 :: nat))
                 \<or> (97 \<le> (of_char ch :: nat) \<and> of_char ch \<le> (102 :: nat))
                 \<or> (65 \<le> (of_char ch :: nat) \<and> of_char ch \<le> (70 :: nat))) then Inr False
           else are_all_char_hexadecimal str
      else Inr True)"

text \<open>
  The value of a group, shifted to its place, as the two's complement 32-bit \<open>int32_t\<close> of
  the code; \<open>-1\<close> is the error value.
\<close>

definition ipv4_group_val_from_group_str :: "char list \<Rightarrow> nat \<Rightarrow> int32 cres" where
  "ipv4_group_val_from_group_str group_str group_idx =
     cbind (atoi group_str) (\<lambda>group_val.
       Inr (if \<not> (IPV4_MIN_GROUP_VAL \<le> group_val \<and> group_val \<le> IPV4_MAX_GROUP_VAL) then -1
            else push_bit ((IPV4_NUM_DOTS - group_idx) * 8) (word_of_int group_val)))"

text \<open>
  The loop over the groups that are followed by a dot. It returns the buffer, and the
  index after the last dot with the sum so far unless it returned \<open>-1\<close>.
\<close>

function ipv4_groups ::
  "nat \<Rightarrow> nat \<Rightarrow> uint32 \<Rightarrow> char list \<Rightarrow> (char list \<times> (nat \<times> uint32) option) cres" where
  "ipv4_groups group_idx begin_idx res addr_str =
     (if group_idx < IPV4_NUM_DOTS then
        cbind (index_of_first_char (drop begin_idx addr_str) CHR ''.'' IPV4_GROUP_LEN) (\<lambda>offset.
        if offset = -1 then Inr (addr_str, None) else
        let end_idx = begin_idx + nat offset in
        cbind (put_char addr_str end_idx NUL) (\<lambda>addr_str.
        cbind (are_all_char_decimal (drop begin_idx addr_str)) (\<lambda>dec.
        if \<not> dec then Inr (addr_str, None) else
        cbind (ipv4_group_val_from_group_str (drop begin_idx addr_str) group_idx) (\<lambda>group_val.
        cbind (put_char addr_str end_idx CHR ''.'') (\<lambda>addr_str.
        if group_val = -1 then Inr (addr_str, None)
        else ipv4_groups (group_idx + 1) (end_idx + 1) (res + group_val) addr_str)))))
      else Inr (addr_str, Some (begin_idx, res)))"
  by pat_completeness auto
termination by (relation "measure (\<lambda>(group_idx, _). IPV4_NUM_DOTS - group_idx)") auto

declare ipv4_groups.simps [simp del]

definition ipv4_last_group ::
  "char list \<Rightarrow> nat \<Rightarrow> uint32 \<Rightarrow> uint32 \<Rightarrow> (char list \<times> int \<times> uint32) cres" where
  "ipv4_last_group addr_str begin_idx res addr =
     cbind (strlen (drop begin_idx addr_str)) (\<lambda>n.
     if int n > IPV4_GROUP_LEN then Inr (addr_str, -1, addr) else
     cbind (are_all_char_decimal (drop begin_idx addr_str)) (\<lambda>dec.
     if \<not> dec then Inr (addr_str, -1, addr) else
     cbind (ipv4_group_val_from_group_str (drop begin_idx addr_str) IPV4_NUM_DOTS) (\<lambda>group_val.
     if group_val = -1 then Inr (addr_str, -1, addr)
     else Inr (addr_str, 0, res + group_val))))"

text \<open>The buffer, the status and the address after the call; \<open>addr\<close> is the address before it.\<close>

definition ipv4_addr_from_str :: "char list \<Rightarrow> uint32 \<Rightarrow> (char list \<times> int \<times> uint32) cres" where
  "ipv4_addr_from_str addr_str addr =
     cbind (ipv4_groups 0 0 0 addr_str) (\<lambda>(addr_str, r).
       case r of None \<Rightarrow> Inr (addr_str, -1, addr)
       | Some (begin_idx, res) \<Rightarrow> ipv4_last_group addr_str begin_idx res addr)"

definition set_mac_byte :: "ether_addr \<Rightarrow> nat \<Rightarrow> int \<Rightarrow> ether_addr" where
  "set_mac_byte mac i v = mac\<lparr>addr_bytes := (addr_bytes mac)[i := word_of_int v]\<rparr>"

definition strtol_int :: "char list \<Rightarrow> nat \<Rightarrow> int cres" where
  "strtol_int buf base = cbind (c_string buf) (\<lambda>s. Inr (int_of_long (strtol base s)))"

function mac_groups ::
  "nat \<Rightarrow> nat \<Rightarrow> ether_addr \<Rightarrow> char list \<Rightarrow> (char list \<times> ether_addr \<times> nat option) cres" where
  "mac_groups group_idx begin_idx mac addr_str =
     (if group_idx < MAC_NUM_COLONS then
        cbind (index_of_first_char (drop begin_idx addr_str) CHR '':'' MAC_GROUP_LEN) (\<lambda>offset.
        if offset = -1 then Inr (addr_str, mac, None) else
        let end_idx = begin_idx + nat offset in
        cbind (put_char addr_str end_idx NUL) (\<lambda>addr_str.
        cbind (are_all_char_hexadecimal (drop begin_idx addr_str)) (\<lambda>hex.
        if \<not> hex then Inr (addr_str, mac, None) else
        cbind (strtol_int (drop begin_idx addr_str) 16) (\<lambda>group_val.
        cbind (put_char addr_str end_idx CHR '':'') (\<lambda>addr_str.
        if \<not> (MAC_MIN_GROUP_VAL \<le> group_val \<and> group_val \<le> MAC_MAX_GROUP_VAL)
        then Inr (addr_str, mac, None)
        else mac_groups (group_idx + 1) (end_idx + 1) (set_mac_byte mac group_idx group_val) addr_str)))))
      else Inr (addr_str, mac, Some begin_idx))"
  by pat_completeness auto
termination by (relation "measure (\<lambda>(group_idx, _). MAC_NUM_COLONS - group_idx)") auto

declare mac_groups.simps [simp del]

definition mac_last_group ::
  "char list \<Rightarrow> nat \<Rightarrow> ether_addr \<Rightarrow> (char list \<times> int \<times> ether_addr) cres" where
  "mac_last_group addr_str begin_idx mac =
     cbind (strlen (drop begin_idx addr_str)) (\<lambda>n.
     if int n \<noteq> MAC_GROUP_LEN then Inr (addr_str, -1, mac) else
     cbind (are_all_char_hexadecimal (drop begin_idx addr_str)) (\<lambda>hex.
     if \<not> hex then Inr (addr_str, -1, mac) else
     cbind (strtol_int (drop begin_idx addr_str) 16) (\<lambda>group_val.
     if \<not> (MAC_MIN_GROUP_VAL \<le> group_val \<and> group_val \<le> MAC_MAX_GROUP_VAL)
     then Inr (addr_str, -1, mac)
     else Inr (addr_str, 0, set_mac_byte mac MAC_NUM_COLONS group_val))))"

definition mac_addr_from_str :: "char list \<Rightarrow> ether_addr \<Rightarrow> (char list \<times> int \<times> ether_addr) cres" where
  "mac_addr_from_str addr_str mac =
     cbind (mac_groups 0 0 mac addr_str) (\<lambda>(addr_str, mac, r).
       case r of None \<Rightarrow> Inr (addr_str, -1, mac)
       | Some begin_idx \<Rightarrow> mac_last_group addr_str begin_idx mac)"

section \<open>The helpers on NUL-terminated strings\<close>

lemma index_from_eq:
  assumes "NUL \<notin> set s" and "ch \<noteq> NUL" and "i \<le> mx"
  shows "index_from (s @ NUL # rest) ch mx i =
         Inr (let k = length (takeWhile (\<lambda>c. c \<noteq> ch) s)
              in if k < length s \<and> i + int k \<le> mx then i + int k else -1)"
  using assms
proof (induction s arbitrary: i)
  case Nil
  then show ?case by simp
next
  case (Cons c s)
  show ?case
  proof (cases "c = ch \<or> i = mx")
    case True
    then show ?thesis using Cons.prems by (auto simp: Let_def)
  next
    case False
    then show ?thesis
      using Cons.prems Cons.IH [of "i + 1"] by (auto simp: Let_def add.assoc)
  qed
qed

lemma index_found:
  assumes "NUL \<notin> set g" and "ch \<notin> set g" and "int (length g) \<le> mx"
  shows "index_of_first_char (g @ ch # t) ch mx = Inr (int (length g))"
proof -
  have "index_from (g @ ch # t) ch mx i = Inr (i + int (length g))"
    if "i + int (length g) \<le> mx" for i
    using assms(1,2) that by (induction g arbitrary: i) (auto simp: add.assoc)
  from this [of 0] assms(3) show ?thesis by (simp add: index_of_first_char_def)
qed

lemma index_not_found:
  assumes "NUL \<notin> set s" and "ch \<noteq> NUL" and "0 \<le> mx"
    and "\<nexists>g t. s = g @ ch # t \<and> ch \<notin> set g \<and> int (length g) \<le> mx"
  shows "index_of_first_char (s @ NUL # rest) ch mx = Inr (-1)"
proof -
  let ?g = "takeWhile (\<lambda>c. c \<noteq> ch) s"
  have "ch \<notin> set ?g"
    by (auto dest: set_takeWhileD)
  moreover have "s = ?g @ ch # tl (dropWhile (\<lambda>c. c \<noteq> ch) s)" if "length ?g < length s"
  proof -
    have ne: "dropWhile (\<lambda>c. c \<noteq> ch) s \<noteq> []"
      using that by (metis append_Nil2 nat_neq_iff takeWhile_dropWhile_id)
    have "hd (dropWhile (\<lambda>c. c \<noteq> ch) s) = ch"
      using hd_dropWhile [OF ne] by simp
    with ne have "dropWhile (\<lambda>c. c \<noteq> ch) s = ch # tl (dropWhile (\<lambda>c. c \<noteq> ch) s)"
      by (metis list.collapse)
    then show ?thesis
      by (metis takeWhile_dropWhile_id)
  qed
  ultimately have "\<not> (length ?g < length s \<and> int (length ?g) \<le> mx)"
    using assms(4) by blast
  then show ?thesis
    using index_from_eq [OF assms(1,2,3), of rest]
    by (simp add: index_of_first_char_def Let_def)
qed

lemma is_digit_10: "is_digit 10 c \<longleftrightarrow> 48 \<le> (of_char c :: nat) \<and> of_char c \<le> (57 :: nat)"
  by (auto simp: is_digit_def digit_value_def Let_def)

lemma is_digit_16: "is_digit 16 c \<longleftrightarrow>
    (48 \<le> (of_char c :: nat) \<and> of_char c \<le> (57 :: nat))
    \<or> (97 \<le> (of_char c :: nat) \<and> of_char c \<le> (102 :: nat))
    \<or> (65 \<le> (of_char c :: nat) \<and> of_char c \<le> (70 :: nat))"
  by (auto simp: is_digit_def digit_value_def Let_def)

lemma are_all_char_decimal_eq [simp]:
  "NUL \<notin> set s \<Longrightarrow> are_all_char_decimal (s @ NUL # rest) = Inr (list_all (is_digit 10) s)"
  by (induction s) (auto simp: is_digit_10)

lemma are_all_char_hexadecimal_eq [simp]:
  "NUL \<notin> set s \<Longrightarrow> are_all_char_hexadecimal (s @ NUL # rest) = Inr (list_all (is_digit 16) s)"
  by (induction s) (auto simp: is_digit_16)

lemma digits_no_sep:
  assumes "list_all (is_digit base) g" and "base \<le> 16"
  shows "NUL \<notin> set g" and "CHR ''.'' \<notin> set g" and "CHR '':'' \<notin> set g"
    and "CHR '','' \<notin> set g" and "CHR ''/'' \<notin> set g"
  using assms is_digit_not_special(6) [of base NUL] is_digit_not_special(7) [of base "CHR ''.''"]
    is_digit_not_special(8) [of base "CHR '':''"] is_digit_not_special(9) [of base "CHR '',''"]
    is_digit_not_special(10) [of base "CHR ''/''"]
  by (auto simp: list_all_iff)

lemma digits_value_small:
  assumes "list_all (is_digit base) g" and "base \<le> 16" and "length g \<le> 7"
  shows "digits_value base g < 2 ^ 31"
proof -
  have "digits_value base g < base ^ length g"
    by (rule digits_value_bound [OF assms(1)])
  also have "\<dots> \<le> 16 ^ length g"
    by (rule power_mono) (use assms(2) in simp_all)
  also have "(16 :: nat) ^ length g \<le> 16 ^ 7"
    by (rule power_increasing) (use assms(3) in simp_all)
  finally show ?thesis by simp
qed

lemma int_of_long_digits:
  assumes "list_all (is_digit base) g" and "base \<le> 16" and "length g \<le> 7"
  shows "int_of_long (strtol base g) = int (digits_value base g)"
  using digits_value_small [OF assms] assms by (simp add: strtol_eq)

lemma atoi_digits:
  "list_all (is_digit 10) g \<Longrightarrow> length g \<le> 7 \<Longrightarrow>
   atoi (g @ NUL # rest) = Inr (int (digits_value 10 g))"
  by (simp add: atoi_def digits_no_sep int_of_long_digits)

lemma strtol_int_digits:
  "list_all (is_digit base) g \<Longrightarrow> base \<le> 16 \<Longrightarrow> length g \<le> 7 \<Longrightarrow>
   strtol_int (g @ NUL # rest) base = Inr (int (digits_value base g))"
  by (simp add: strtol_int_def digits_no_sep int_of_long_digits)

section \<open>The IPv4 parser\<close>

text \<open>
  What the parser accepts: four groups separated by dots, each of at most three decimal
  digits (an empty group counts as zero) and of value at most 255.
\<close>

definition ipv4_group :: "string \<Rightarrow> bool" where
  "ipv4_group g \<longleftrightarrow> length g \<le> 3 \<and> list_all (is_digit 10) g \<and> digits_value 10 g \<le> 255"

fun ipv4_sum :: "nat \<Rightarrow> string list \<Rightarrow> uint32" where
  "ipv4_sum i [] = 0"
| "ipv4_sum i (g # gs) = push_bit ((3 - i) * 8) (of_nat (digits_value 10 g)) + ipv4_sum (i + 1) gs"

definition ipv4_parse :: "string \<Rightarrow> uint32 option" where
  "ipv4_parse s =
     (let gs = split_on CHR ''.'' s
      in if length gs = IPV4_NUM_GROUPS \<and> list_all ipv4_group gs then Some (ipv4_sum 0 gs) else None)"

lemma push_bit_group_neq:
  assumes "v \<le> 255" and "i \<le> 3"
  shows "push_bit (i * 8) (of_nat v :: uint32) \<noteq> - 1"
proof -
  have "push_bit (i * 8) (of_nat v :: uint32) = of_nat (v * 2 ^ (i * 8))"
    by (simp add: push_bit_eq_mult)
  moreover have "v * 2 ^ (i * 8) < 2 ^ 32 - 1"
  proof -
    have "v * 2 ^ (i * 8) \<le> 255 * 2 ^ 24"
      using assms by (intro mult_le_mono power_increasing) auto
    then show ?thesis by simp
  qed
  then have "unat (of_nat (v * 2 ^ (i * 8)) :: uint32) \<noteq> unat (- 1 :: uint32)"
    by (subst unat_of_nat_eq) (simp_all add: unsigned_minus_1_eq_mask mask_eq_exp_minus_1)
  ultimately show ?thesis
    by metis
qed

lemma group_val_eq:
  assumes "list_all (is_digit 10) g" and "length g \<le> 3"
  shows "ipv4_group_val_from_group_str (g @ NUL # rest) i =
         Inr (if digits_value 10 g \<le> 255
              then push_bit ((3 - i) * 8) (of_nat (digits_value 10 g)) else -1)"
  using assms by (simp add: ipv4_group_val_from_group_str_def atoi_digits c_defs)

text \<open>One iteration of the loop, when it goes on and when it returns.\<close>

lemma ipv4_groups_ok:
  assumes "i < 3" and "ipv4_group g"
  shows "ipv4_groups i (length pre) res (pre @ g @ CHR ''.'' # t) =
         ipv4_groups (i + 1) (length (pre @ g @ [CHR ''.'']))
           (res + push_bit ((3 - i) * 8) (of_nat (digits_value 10 g))) (pre @ g @ CHR ''.'' # t)"
proof -
  have g: "list_all (is_digit 10) g" "length g \<le> 3" "digits_value 10 g \<le> 255"
    using assms(2) by (auto simp: ipv4_group_def)
  note ns = digits_no_sep [OF g(1)]
  have put: "put_char (pre @ g @ c # t) (length pre + length g) d = Inr (pre @ g @ d # t)" for c d
    using put_char_at [of "pre @ g"] by simp
  have ne: "push_bit ((3 - i) * 8) (of_nat (digits_value 10 g)) \<noteq> (- 1 :: uint32)"
    using g(3) by (intro push_bit_group_neq) auto
  show ?thesis
    using g assms(1) ns ne
    by (subst ipv4_groups.simps)
       (simp add: index_found IPV4_NUM_DOTS_def IPV4_NUM_GROUPS_def IPV4_GROUP_LEN_def put
         group_val_eq)
qed

lemma ipv4_groups_bad:
  assumes "i < 3" and "NUL \<notin> set g" and "CHR ''.'' \<notin> set g" and "length g \<le> 3" and "\<not> ipv4_group g"
  shows "ipv4_groups i (length pre) res (pre @ g @ CHR ''.'' # t) =
         Inr (pre @ g @ (if list_all (is_digit 10) g then CHR ''.'' else NUL) # t, None)"
proof -
  have put: "put_char (pre @ g @ c # r) (length pre + length g) d = Inr (pre @ g @ d # r)" for c d r
    using put_char_at [of "pre @ g"] by simp
  have bad: "\<not> digits_value 10 g \<le> 255" if "list_all (is_digit 10) g"
    using assms(4,5) that by (auto simp: ipv4_group_def)
  show ?thesis
    using assms bad
    by (subst ipv4_groups.simps)
       (simp add: index_found IPV4_NUM_DOTS_def IPV4_NUM_GROUPS_def IPV4_GROUP_LEN_def put group_val_eq)
qed


lemma ipv4_groups_fail:
  assumes "i < 3" and "NUL \<notin> set s"
    and "\<nexists>g t. s = g @ CHR ''.'' # t \<and> ipv4_group g"
  shows "\<exists>buf'. ipv4_groups i (length pre) res (pre @ s @ NUL # rest) = Inr (buf', None)
           \<and> length buf' = length (pre @ s @ NUL # rest)"
proof (cases "\<exists>g t. s = g @ CHR ''.'' # t \<and> CHR ''.'' \<notin> set g \<and> length g \<le> 3")
  case True
  then obtain g t where s: "s = g @ CHR ''.'' # t" and g: "CHR ''.'' \<notin> set g" "length g \<le> 3"
    by blast
  have nul: "NUL \<notin> set g" using assms(2) s by simp
  have "\<not> ipv4_group g" using assms(3) s by blast
  then show ?thesis using ipv4_groups_bad [OF assms(1) nul g, of pre res "t @ NUL # rest"] by (simp add: s)
next
  case False
  then have "index_of_first_char (s @ NUL # rest) CHR ''.'' IPV4_GROUP_LEN = Inr (-1)"
    by (intro index_not_found) (use assms(2) in \<open>auto simp: IPV4_GROUP_LEN_def\<close>)
  then show ?thesis
    using assms(1)
    by (subst ipv4_groups.simps) (simp add: IPV4_NUM_DOTS_def IPV4_NUM_GROUPS_def)
qed

lemma ipv4_last_group_eq:
  assumes "NUL \<notin> set s"
  shows "ipv4_last_group (pre @ s @ NUL # rest) (length pre) res addr =
         Inr (pre @ s @ NUL # rest,
              if ipv4_group s then (0, res + of_nat (digits_value 10 s)) else (-1, addr))"
proof -
  have "(of_nat (digits_value 10 s) :: uint32) \<noteq> - 1" if "digits_value 10 s \<le> 255"
    using push_bit_group_neq [OF that, of 0] by simp
  then show ?thesis
    using assms
    by (auto simp: ipv4_last_group_def IPV4_GROUP_LEN_def ipv4_group_def group_val_eq
        IPV4_NUM_DOTS_def IPV4_NUM_GROUPS_def)
qed

definition ipv4_rest ::
  "nat \<Rightarrow> nat \<Rightarrow> uint32 \<Rightarrow> char list \<Rightarrow> uint32 \<Rightarrow> (char list \<times> int \<times> uint32) cres" where
  "ipv4_rest i b res buf addr =
     cbind (ipv4_groups i b res buf) (\<lambda>(buf, r).
       case r of None \<Rightarrow> Inr (buf, -1, addr) | Some (b, res) \<Rightarrow> ipv4_last_group buf b res addr)"

definition ipv4_rest_ok :: "nat \<Rightarrow> string \<Rightarrow> bool" where
  "ipv4_rest_ok i s \<longleftrightarrow> length (split_on CHR ''.'' s) = 4 - i \<and> list_all ipv4_group (split_on CHR ''.'' s)"

lemma ipv4_group_no_dot: "ipv4_group g \<Longrightarrow> CHR ''.'' \<notin> set g"
  by (simp add: ipv4_group_def digits_no_sep [of 10])

lemma ipv4_rest_eq:
  assumes "i \<le> 3" and "NUL \<notin> set s"
  shows "\<exists>buf'. ipv4_rest i (length pre) res (pre @ s @ NUL # rest) addr =
            Inr (buf', if ipv4_rest_ok i s then (0, res + ipv4_sum i (split_on CHR ''.'' s))
                       else (-1, addr))
          \<and> length buf' = length (pre @ s @ NUL # rest)
          \<and> (ipv4_rest_ok i s \<longrightarrow> buf' = pre @ s @ NUL # rest)"
  using assms
proof (induction "3 - i" arbitrary: i s pre res)
  case 0
  then have i: "i = 3" by simp
  have ok: "ipv4_rest_ok 3 s \<longleftrightarrow> ipv4_group s"
    using split_on_singleton [of "CHR ''.''" s] ipv4_group_no_dot [of s]
    by (auto simp: ipv4_rest_ok_def)
  have "ipv4_groups 3 (length pre) res (pre @ s @ NUL # rest) = Inr (pre @ s @ NUL # rest, Some (length pre, res))"
    by (subst ipv4_groups.simps) (simp add: c_defs)
  moreover have "ipv4_sum 3 (split_on CHR ''.'' s) = of_nat (digits_value 10 s)" if "ipv4_group s"
    using ipv4_group_no_dot [OF that] by simp
  ultimately show ?case
    using ipv4_last_group_eq [OF 0(3), of pre rest res addr]
    by (auto simp: i ok ipv4_rest_def)
next
  case (Suc k)
  then have i: "i < 3" by simp
  show ?case
  proof (cases "\<exists>g t. s = g @ CHR ''.'' # t \<and> ipv4_group g")
    case True
    then obtain g t where s: "s = g @ CHR ''.'' # t" and g: "ipv4_group g" by blast
    have sp: "split_on CHR ''.'' s = g # split_on CHR ''.'' t"
      using ipv4_group_no_dot [OF g] by (simp add: s)
    have ok: "ipv4_rest_ok i s \<longleftrightarrow> ipv4_rest_ok (i + 1) t"
      using g i by (auto simp: ipv4_rest_ok_def sp)
    let ?pre = "pre @ g @ [CHR ''.'']"
    let ?res = "res + push_bit ((3 - i) * 8) (of_nat (digits_value 10 g))"
    have buf: "pre @ s @ NUL # rest = ?pre @ t @ NUL # rest"
      by (simp add: s)
    have eq: "ipv4_rest i (length pre) res (?pre @ t @ NUL # rest) addr =
          ipv4_rest (i + 1) (length ?pre) ?res (?pre @ t @ NUL # rest) addr"
      using ipv4_groups_ok [OF i g, of pre res "t @ NUL # rest"] by (simp add: ipv4_rest_def)
    have "NUL \<notin> set t" "k = 3 - (i + 1)" "i + 1 \<le> 3"
      using Suc(2,4) i s by auto
    from Suc(1) [OF this(2,3,1), of ?pre ?res] show ?thesis
      unfolding buf eq ok sp ipv4_sum.simps by (simp only: add.assoc)
  next
    case False
    have "\<not> ipv4_rest_ok i s"
    proof
      assume *: "ipv4_rest_ok i s"
      then have "length (split_on CHR ''.'' s) \<noteq> 1"
        using i by (simp add: ipv4_rest_ok_def)
      then obtain g t where "s = g @ CHR ''.'' # t" "split_on CHR ''.'' s = g # split_on CHR ''.'' t"
        by (rule split_on_first)
      with * False show False by (auto simp: ipv4_rest_ok_def)
    qed
    then show ?thesis
      using ipv4_groups_fail [OF i Suc(4) False, of pre res rest] by (auto simp: ipv4_rest_def)
  qed
qed

lemma ipv4_addr_from_str_eq:
  assumes "NUL \<notin> set s"
  shows "\<exists>buf'. ipv4_addr_from_str (s @ NUL # rest) addr =
            Inr (buf', case ipv4_parse s of None \<Rightarrow> (-1, addr) | Some a \<Rightarrow> (0, a))
          \<and> length buf' = length (s @ NUL # rest)
          \<and> (ipv4_parse s \<noteq> None \<longrightarrow> buf' = s @ NUL # rest)"
  using ipv4_rest_eq [of 0 s "[]" 0 rest addr] assms
  by (auto simp: ipv4_addr_from_str_def ipv4_rest_def ipv4_rest_ok_def ipv4_parse_def Let_def c_defs)

text \<open>The dotted notation of an address, and that it is parsed back.\<close>

definition ipv4_octet :: "uint32 \<Rightarrow> nat \<Rightarrow> nat" where
  "ipv4_octet a i = unat (drop_bit ((3 - i) * 8) a) mod 256"

definition dotted :: "uint32 \<Rightarrow> string" where
  "dotted a = join_groups CHR ''.'' (map (\<lambda>i. fmt_u (ipv4_octet a i)) [0, 1, 2, 3])"

lemma ipv4_octet_lt: "ipv4_octet a i < 256"
  by (simp add: ipv4_octet_def)

lemma ipv4_group_fmt_u: "n < 256 \<Longrightarrow> ipv4_group (fmt_u n)"
  using fmt_u_length [of 3 n] by (simp add: ipv4_group_def fmt_u_digits)

lemma nat_base256:
  fixes n :: nat
  shows "n div 256 div 256 div 256 * 16777216
         + (n div 256 div 256 mod 256 * 65536 + (n div 256 mod 256 * 256 + n mod 256)) = n"
proof -
  define q1 q2 q3 where q: "q1 = n div 256" "q2 = q1 div 256" "q3 = q2 div 256"
  have "n = 256 * q1 + n mod 256" "q1 = 256 * q2 + q1 mod 256" "q2 = 256 * q3 + q2 mod 256"
    by (simp_all add: q)
  then show ?thesis
    unfolding q [symmetric] by linarith
qed

lemma octets_sum:
  "push_bit 24 (of_nat (ipv4_octet a 0)) + (push_bit 16 (of_nat (ipv4_octet a 1))
    + (push_bit 8 (of_nat (ipv4_octet a 2)) + of_nat (ipv4_octet a 3))) = a"
proof -
  define n where "n = unat a"
  have d: "unat (drop_bit k a) = n div 2 ^ k" for k
    by (simp add: n_def unat_drop_bit_div)
  have lt: "n < 2 ^ 32"
    using unat_lt2p [of a] by (simp add: n_def)
  have "(n div 2 ^ 24) mod 256 * 2 ^ 24 + ((n div 2 ^ 16) mod 256 * 2 ^ 16
        + ((n div 2 ^ 8) mod 256 * 2 ^ 8 + n mod 256)) = n"
  proof -
    have d16: "n div 2 ^ 16 = n div 2 ^ 8 div 256" and d24: "n div 2 ^ 24 = n div 2 ^ 16 div 256"
      by (simp_all add: div_mult2_eq [symmetric])
    have "n div 2 ^ 24 < 256"
      using lt by (simp add: div_less_iff_less_mult)
    then show ?thesis
      using nat_base256 [of n] d16 d24 by simp
  qed
  then have "(of_nat ((n div 2 ^ 24) mod 256 * 2 ^ 24 + ((n div 2 ^ 16) mod 256 * 2 ^ 16
        + ((n div 2 ^ 8) mod 256 * 2 ^ 8 + n mod 256))) :: uint32) = a"
    by (simp only:) (simp add: n_def)
  then show ?thesis
    by (simp add: ipv4_octet_def d push_bit_eq_mult n_def)
qed

lemma ipv4_parse_dotted [simp]: "ipv4_parse (dotted a) = Some a"
proof -
  let ?g = "\<lambda>i. fmt_u (ipv4_octet a i)"
  have g: "ipv4_group (?g i)" for i
    by (rule ipv4_group_fmt_u [OF ipv4_octet_lt])
  have d: "dotted a = ?g 0 @ CHR ''.'' # ?g 1 @ CHR ''.'' # ?g 2 @ CHR ''.'' # ?g 3"
    by (simp add: dotted_def)
  have "split_on CHR ''.'' (dotted a) = [?g 0, ?g 1, ?g 2, ?g 3]"
    using ipv4_group_no_dot [OF g] by (simp add: d)
  then show ?thesis
    using g octets_sum [of a] by (simp add: ipv4_parse_def c_defs)
qed

lemma dotted_no_nul: "NUL \<notin> set (dotted a)"
proof -
  have "NUL \<notin> set (fmt_u n)" for n
    by (rule digits_no_sep(1) [OF fmt_u_digits]) simp
  then show ?thesis
    by (simp add: dotted_def)
qed

section \<open>The MAC parser\<close>

text \<open>
  What the parser accepts: six groups separated by colons, the first five of at most two
  hexadecimal digits (an empty group counts as zero), the last of exactly two.
\<close>

definition mac_group :: "string \<Rightarrow> bool" where
  "mac_group g \<longleftrightarrow> length g \<le> 2 \<and> list_all (is_digit 16) g"

fun mac_groups_ok :: "nat \<Rightarrow> string list \<Rightarrow> bool" where
  "mac_groups_ok k [] \<longleftrightarrow> False"
| "mac_groups_ok k [g] \<longleftrightarrow> k = 0 \<and> length g = 2 \<and> mac_group g"
| "mac_groups_ok k (g # g' # gs) \<longleftrightarrow> k \<noteq> 0 \<and> mac_group g \<and> mac_groups_ok (k - 1) (g' # gs)"

fun set_mac_groups :: "nat \<Rightarrow> ether_addr \<Rightarrow> string list \<Rightarrow> ether_addr" where
  "set_mac_groups i mac [] = mac"
| "set_mac_groups i mac (g # gs) =
     set_mac_groups (i + 1) (set_mac_byte mac i (int (digits_value 16 g))) gs"

definition mac_parse :: "string \<Rightarrow> ether_addr \<Rightarrow> ether_addr option" where
  "mac_parse s mac =
     (let gs = split_on CHR '':'' s
      in if mac_groups_ok MAC_NUM_COLONS gs then Some (set_mac_groups 0 mac gs) else None)"

lemma mac_group_value: "mac_group g \<Longrightarrow> digits_value 16 g \<le> 255"
proof -
  assume g: "mac_group g"
  have "digits_value 16 g < 16 ^ length g"
    using g by (intro digits_value_bound) (simp add: mac_group_def)
  also have "\<dots> \<le> (16 :: nat) ^ 2"
    using g by (intro power_increasing) (simp_all add: mac_group_def)
  finally show ?thesis by simp
qed

lemma mac_group_no_sep: "mac_group g \<Longrightarrow> CHR '':'' \<notin> set g" "mac_group g \<Longrightarrow> NUL \<notin> set g"
  by (simp_all add: mac_group_def digits_no_sep [of 16])

lemma mac_groups_step_ok:
  assumes "i < 5" and "mac_group g"
  shows "mac_groups i (length pre) mac (pre @ g @ CHR '':'' # t) =
         mac_groups (i + 1) (length (pre @ g @ [CHR '':'']))
           (set_mac_byte mac i (int (digits_value 16 g))) (pre @ g @ CHR '':'' # t)"
proof -
  have g: "list_all (is_digit 16) g" "length g \<le> 2" "digits_value 16 g \<le> 255"
    using assms(2) mac_group_value by (auto simp: mac_group_def)
  note ns = mac_group_no_sep [OF assms(2)]
  have put: "put_char (pre @ g @ c # t) (length pre + length g) d = Inr (pre @ g @ d # t)" for c d
    using put_char_at [of "pre @ g"] by simp
  show ?thesis
    using g assms(1) ns
    by (subst mac_groups.simps) (simp add: index_found c_defs put strtol_int_digits)
qed

lemma mac_groups_fail:
  assumes "i < 5" and "NUL \<notin> set s"
    and "\<nexists>g t. s = g @ CHR '':'' # t \<and> mac_group g"
  shows "\<exists>buf'. mac_groups i (length pre) mac (pre @ s @ NUL # rest) = Inr (buf', mac, None)
           \<and> length buf' = length (pre @ s @ NUL # rest)"
proof (cases "\<exists>g t. s = g @ CHR '':'' # t \<and> CHR '':'' \<notin> set g \<and> length g \<le> 2")
  case True
  then obtain g t where s: "s = g @ CHR '':'' # t" and g: "CHR '':'' \<notin> set g" "length g \<le> 2"
    by blast
  have nul: "NUL \<notin> set g" using assms(2) s by simp
  have put: "put_char (pre @ g @ c # r) (length pre + length g) d = Inr (pre @ g @ d # r)" for c d r
    using put_char_at [of "pre @ g"] by simp
  have "\<not> list_all (is_digit 16) g"
    using assms(3) s g(2) by (auto simp: mac_group_def)
  then show ?thesis
    using g nul assms(1)
    by (subst mac_groups.simps) (simp add: s index_found c_defs put)
next
  case False
  then have "index_of_first_char (s @ NUL # rest) CHR '':'' MAC_GROUP_LEN = Inr (-1)"
    by (intro index_not_found) (use assms(2) in \<open>auto simp: MAC_GROUP_LEN_def\<close>)
  then show ?thesis
    using assms(1)
    by (subst mac_groups.simps) (simp add: MAC_NUM_COLONS_def MAC_NUM_GROUPS_def)
qed

lemma mac_last_group_eq:
  assumes "NUL \<notin> set s"
  shows "mac_last_group (pre @ s @ NUL # rest) (length pre) mac =
         Inr (pre @ s @ NUL # rest,
              if length s = 2 \<and> mac_group s then (0, set_mac_byte mac 5 (int (digits_value 16 s)))
              else (-1, mac))"
  using assms mac_group_value [of s]
  by (auto simp: mac_last_group_def c_defs mac_group_def strtol_int_digits)

definition mac_rest ::
  "nat \<Rightarrow> nat \<Rightarrow> ether_addr \<Rightarrow> char list \<Rightarrow> (char list \<times> int \<times> ether_addr) cres" where
  "mac_rest i b mac buf =
     cbind (mac_groups i b mac buf) (\<lambda>(buf, mac, r).
       case r of None \<Rightarrow> Inr (buf, -1, mac) | Some b \<Rightarrow> mac_last_group buf b mac)"

lemma mac_rest_eq:
  assumes "i \<le> 5" and "NUL \<notin> set s"
  shows "\<exists>buf' mac'. mac_rest i (length pre) mac (pre @ s @ NUL # rest) =
            Inr (buf', if mac_groups_ok (5 - i) (split_on CHR '':'' s) then 0 else -1, mac')
          \<and> length buf' = length (pre @ s @ NUL # rest)
          \<and> (mac_groups_ok (5 - i) (split_on CHR '':'' s) \<longrightarrow>
               buf' = pre @ s @ NUL # rest \<and> mac' = set_mac_groups i mac (split_on CHR '':'' s))"
  using assms
proof (induction "5 - i" arbitrary: i s pre mac)
  case 0
  then have i: "i = 5" by simp
  have sp: "mac_groups_ok 0 gs \<longleftrightarrow> (\<exists>g. gs = [g] \<and> length g = 2 \<and> mac_group g)" for gs
    by (cases "(0 :: nat, gs)" rule: mac_groups_ok.cases) auto
  have ok: "mac_groups_ok 0 (split_on CHR '':'' s) \<longleftrightarrow> length s = 2 \<and> mac_group s"
  proof
    assume "mac_groups_ok 0 (split_on CHR '':'' s)"
    then obtain g where g: "split_on CHR '':'' s = [g]" "length g = 2" "mac_group g"
      by (auto simp: sp)
    then have "CHR '':'' \<notin> set s"
      using split_on_singleton [of "CHR '':''" s] by simp
    with g show "length s = 2 \<and> mac_group s" by simp
  next
    assume "length s = 2 \<and> mac_group s"
    then show "mac_groups_ok 0 (split_on CHR '':'' s)"
      using mac_group_no_sep(1) [of s] by (simp add: sp)
  qed
  have "mac_groups 5 (length pre) mac (pre @ s @ NUL # rest) = Inr (pre @ s @ NUL # rest, mac, Some (length pre))"
    by (subst mac_groups.simps) (simp add: c_defs)
  then show ?case
    using mac_last_group_eq [OF 0(3), of pre rest mac] mac_group_no_sep(1) [of s]
    by (auto simp: i ok mac_rest_def)
next
  case (Suc k)
  then have i: "i < 5" and k: "5 - i = Suc (5 - (i + 1))" by simp_all
  show ?case
  proof (cases "\<exists>g t. s = g @ CHR '':'' # t \<and> mac_group g")
    case True
    then obtain g t where s: "s = g @ CHR '':'' # t" and g: "mac_group g" by blast
    have sp: "split_on CHR '':'' s = g # split_on CHR '':'' t"
      using mac_group_no_sep(1) [OF g] by (simp add: s)
    have ok: "mac_groups_ok (5 - i) (g # split_on CHR '':'' t) \<longleftrightarrow>
        mac_groups_ok (5 - (i + 1)) (split_on CHR '':'' t)"
      using g k by (cases "split_on CHR '':'' t") simp_all
    let ?pre = "pre @ g @ [CHR '':'']"
    let ?mac = "set_mac_byte mac i (int (digits_value 16 g))"
    have buf: "pre @ s @ NUL # rest = ?pre @ t @ NUL # rest"
      by (simp add: s)
    have eq: "mac_rest i (length pre) mac (?pre @ t @ NUL # rest) =
          mac_rest (i + 1) (length ?pre) ?mac (?pre @ t @ NUL # rest)"
      using mac_groups_step_ok [OF i g, of pre mac "t @ NUL # rest"] by (simp add: mac_rest_def)
    have "NUL \<notin> set t" "k = 5 - (i + 1)" "i + 1 \<le> 5"
      using Suc(2,4) i s by auto
    from Suc(1) [OF this(2,3,1), of ?pre ?mac] show ?thesis
      unfolding buf eq sp ok set_mac_groups.simps .
  next
    case False
    have "\<not> mac_groups_ok (5 - i) (split_on CHR '':'' s)"
    proof
      assume *: "mac_groups_ok (5 - i) (split_on CHR '':'' s)"
      have ne: "length (split_on CHR '':'' s) \<noteq> 1"
      proof
        assume "length (split_on CHR '':'' s) = 1"
        then obtain g where "split_on CHR '':'' s = [g]"
          by (metis One_nat_def length_0_conv length_Suc_conv)
        with * i show False by simp
      qed
      obtain g t where s: "s = g @ CHR '':'' # t" and sp: "split_on CHR '':'' s = g # split_on CHR '':'' t"
        by (rule split_on_first [OF ne])
      with * have "mac_group g"
        by (cases "split_on CHR '':'' t") simp_all
      with s False show False by blast
    qed
    then show ?thesis
      using mac_groups_fail [OF i Suc(4) False, of pre mac rest] by (auto simp: mac_rest_def)
  qed
qed

lemma mac_addr_from_str_eq:
  assumes "NUL \<notin> set s"
  shows "\<exists>buf' mac'. mac_addr_from_str (s @ NUL # rest) mac =
            Inr (buf', if mac_parse s mac = None then -1 else 0, mac')
          \<and> length buf' = length (s @ NUL # rest)
          \<and> (mac_parse s mac \<noteq> None \<longrightarrow> buf' = s @ NUL # rest \<and> mac_parse s mac = Some mac')"
  using mac_rest_eq [of 0 s "[]" mac rest] assms
  by (auto simp: mac_addr_from_str_def mac_rest_def mac_parse_def Let_def c_defs)

lemma mac_group_fmt: "mac_group (fmt_02X (unat (b :: uint8)))" "length (fmt_02X n) = 2"
  using fmt_02X_digits [of "unat b"] unat_lt2p [of b]
  by (auto simp: mac_group_def fmt_02X_def)

lemma fmt_02X_byte: "digits_value 16 (fmt_02X (unat (b :: uint8))) = unat b"
  using unat_lt2p [of b] by (intro fmt_02X_value) simp

lemma mac_parse_text:
  assumes "ether_addr_wf ea" and "ether_addr_wf mac"
  shows "mac_parse (ether_text ea) mac = Some ea" and "NUL \<notin> set (ether_text ea)"
proof -
  obtain b0 b1 b2 b3 b4 b5 where ea: "addr_bytes ea = [b0, b1, b2, b3, b4, b5]"
    using assms(1) by (auto simp: ether_addr_wf_def c_defs elim: list6_cases)
  obtain m0 m1 m2 m3 m4 m5 where m: "addr_bytes mac = [m0, m1, m2, m3, m4, m5]"
    using assms(2) by (auto simp: ether_addr_wf_def c_defs elim: list6_cases)
  let ?f = "\<lambda>b :: uint8. fmt_02X (unat b)"
  note ns = mac_group_no_sep [OF mac_group_fmt(1)]
  have et: "ether_text ea = ?f b0 @ CHR '':'' # ?f b1 @ CHR '':'' # ?f b2 @ CHR '':'' # ?f b3
               @ CHR '':'' # ?f b4 @ CHR '':'' # ?f b5"
    by (simp add: ether_text_def ea)
  then show "NUL \<notin> set (ether_text ea)"
    using ns(2) by simp
  have sp: "split_on CHR '':'' (ether_text ea) = [?f b0, ?f b1, ?f b2, ?f b3, ?f b4, ?f b5]"
    using ns(1) by (simp add: et)
  have "set_mac_groups 0 mac [?f b0, ?f b1, ?f b2, ?f b3, ?f b4, ?f b5] = ea"
    using ea m by (cases ea; cases mac) (simp add: set_mac_byte_def fmt_02X_byte)
  then show "mac_parse (ether_text ea) mac = Some ea"
    by (simp add: mac_parse_def sp c_defs mac_group_fmt)
qed

section \<open>Properties\<close>

text \<open>
  C16. On every NUL-terminated string the IPv4 parser reads and writes only inside the
  buffer, and it accepts exactly the strings of four dot-separated groups of at most three
  decimal digits and value at most 255; it then stores the address those groups denote,
  most significant first, and leaves the buffer as it was. Otherwise it returns -1 and the
  address keeps its value.
\<close>

theorem ipv4_parser_accepts:
  assumes "NUL \<notin> set s"
  shows "\<exists>buf'. ipv4_addr_from_str (s @ NUL # rest) addr =
            Inr (buf', case ipv4_parse s of None \<Rightarrow> (-1, addr) | Some a \<Rightarrow> (0, a))
          \<and> length buf' = length (s @ NUL # rest)
          \<and> (ipv4_parse s \<noteq> None \<longrightarrow> buf' = s @ NUL # rest)"
  by (rule ipv4_addr_from_str_eq [OF assms])

theorem ipv4_parser_accepts_witness:
  "NUL \<notin> set ''10.0.256.1''
   \<and> (\<exists>buf'. ipv4_addr_from_str (''10.0.256.1'' @ NUL # ''xy'') 7 = Inr (buf', -1, 7))
   \<and> NUL \<notin> set ''192.168..1''
   \<and> (\<exists>buf'. ipv4_addr_from_str (''192.168..1'' @ NUL # []) 7 = Inr (buf', 0, 0xC0A80001))"
proof -
  have p: "ipv4_parse ''10.0.256.1'' = None" "ipv4_parse ''192.168..1'' = Some 0xC0A80001"
    by code_simp+
  show ?thesis
    using ipv4_parser_accepts [of "''10.0.256.1''" "''xy''" 7]
      ipv4_parser_accepts [of "''192.168..1''" "[]" 7]
    unfolding p by auto
qed

text \<open>
  C17. The dotted decimal notation of every 32-bit address, followed by a NUL and anything
  else, is parsed back to that address, and the buffer is left unchanged.
\<close>

theorem ipv4_roundtrip:
  "ipv4_addr_from_str (dotted a @ NUL # rest) addr = Inr (dotted a @ NUL # rest, 0, a)"
  using ipv4_addr_from_str_eq [OF dotted_no_nul, of a rest addr] by simp

text \<open>
  C18. On every NUL-terminated string the MAC parser reads and writes only inside the buffer and accepts
  exactly the strings of six colon-separated groups of hexadecimal digits, the first five of at most
  two digits (an empty group counts as 0) and the last of exactly two. It then stores the values of the
  groups and leaves the string as it was.
\<close>

theorem mac_parser_accepts:
  assumes "NUL \<notin> set s"
  shows "\<exists>buf' mac'. mac_addr_from_str (s @ NUL # rest) mac =
            Inr (buf', if mac_parse s mac = None then -1 else 0, mac')
          \<and> length buf' = length (s @ NUL # rest)
          \<and> (mac_parse s mac \<noteq> None \<longrightarrow> buf' = s @ NUL # rest \<and> mac_parse s mac = Some mac')"
  by (rule mac_addr_from_str_eq [OF assms])

theorem mac_parser_accepts_witness:
  "NUL \<notin> set ''1::a:Bc:00:7f''
   \<and> (\<exists>buf'. mac_addr_from_str (''1::a:Bc:00:7f'' @ NUL # []) \<lparr>addr_bytes = replicate 6 0\<rparr>
        = Inr (buf', 0, \<lparr>addr_bytes = [1, 0, 0xA, 0xBC, 0, 0x7F]\<rparr>))
   \<and> NUL \<notin> set ''01:23:45:67:89:a''
   \<and> (\<exists>buf' mac'. mac_addr_from_str (''01:23:45:67:89:a'' @ NUL # []) \<lparr>addr_bytes = replicate 6 0\<rparr>
        = Inr (buf', -1, mac'))"
proof -
  have p: "mac_parse ''01:23:45:67:89:a'' \<lparr>addr_bytes = replicate 6 0\<rparr> = None"
    "mac_parse ''1::a:Bc:00:7f'' \<lparr>addr_bytes = replicate 6 0\<rparr>
       = Some \<lparr>addr_bytes = [1, 0, 0xA, 0xBC, 0, 0x7F]\<rparr>"
    by code_simp+
  show ?thesis
    using mac_parser_accepts [of "''1::a:Bc:00:7f''" "[]" "\<lparr>addr_bytes = replicate 6 0\<rparr>"]
      mac_parser_accepts [of "''01:23:45:67:89:a''" "[]" "\<lparr>addr_bytes = replicate 6 0\<rparr>"]
    unfolding p by auto
qed

text \<open>
  C19. The text \<open>ether_format_addr\<close> writes for an Ethernet address into a buffer of at least
  18 characters is parsed back by \<open>mac_addr_from_str\<close> to the same address.
\<close>

theorem mac_roundtrip:
  assumes "ether_addr_wf ea" and "ether_addr_wf mac" and "ETHER_ADDR_FMT_SIZE \<le> length buf"
  shows "cbind (ether_format_addr buf ETHER_ADDR_FMT_SIZE ea) (\<lambda>txt. mac_addr_from_str txt mac) =
         Inr (ether_text ea @ NUL # drop ETHER_ADDR_FMT_SIZE buf, 0, ea)"
proof -
  note p = mac_parse_text [OF assms(1,2)]
  have "ether_format_addr buf ETHER_ADDR_FMT_SIZE ea = Inr (ether_text ea @ NUL # drop 18 buf)"
    using assms(3) ether_text_length [OF assms(1)]
    by (simp add: ether_format_addr_def snprintf_fits c_defs)
  then show ?thesis
    using mac_addr_from_str_eq [OF p(2), of "drop 18 buf" mac] by (auto simp: p(1) c_defs)
qed

theorem mac_roundtrip_witness:
  "ether_addr_wf \<lparr>addr_bytes = [0x52, 0x54, 0, 0xCB, 0xEE, 0xF4]\<rparr>
   \<and> ether_addr_wf \<lparr>addr_bytes = replicate 6 0\<rparr>
   \<and> ETHER_ADDR_FMT_SIZE \<le> length (replicate 20 CHR ''z'')
   \<and> cbind (ether_format_addr (replicate 20 CHR ''z'') ETHER_ADDR_FMT_SIZE
             \<lparr>addr_bytes = [0x52, 0x54, 0, 0xCB, 0xEE, 0xF4]\<rparr>)
       (\<lambda>txt. mac_addr_from_str txt \<lparr>addr_bytes = replicate 6 0\<rparr>) =
     Inr (''52:54:00:CB:EE:F4'' @ NUL # ''zz'', 0, \<lparr>addr_bytes = [0x52, 0x54, 0, 0xCB, 0xEE, 0xF4]\<rparr>)"
proof -
  have t: "ether_text \<lparr>addr_bytes = [0x52, 0x54, 0, 0xCB, 0xEE, 0xF4]\<rparr> = ''52:54:00:CB:EE:F4''"
    by code_simp
  have h: "ether_addr_wf \<lparr>addr_bytes = [0x52, 0x54, 0, 0xCB, 0xEE, 0xF4]\<rparr>"
    "ether_addr_wf \<lparr>addr_bytes = replicate 6 0\<rparr>"
    "ETHER_ADDR_FMT_SIZE \<le> length (replicate 20 CHR ''z'')"
    "drop ETHER_ADDR_FMT_SIZE (replicate 20 CHR ''z'') = ''zz''"
    by code_simp+
  show ?thesis
    by (intro conjI h(1-3)) (rule mac_roundtrip [OF h(1-3), unfolded t h(4)])
qed



end
