(* ===== verification/Bytes.thy ===== *)
theory Bytes
  imports CPrelude
begin

text \<open>
  Memory as bytes: 16- and 32-bit values in the little-endian order of x86-64, the byte
  swaps of \<^verbatim>\<open>rte_byteorder.h\<close>, and checked reads and writes of a block of bytes.
\<close>

section \<open>Little-endian values\<close>

definition le16 :: "uint8 \<Rightarrow> uint8 \<Rightarrow> uint16" where
  "le16 b0 b1 = ucast b0 OR push_bit 8 (ucast b1)"

definition le16_bytes :: "uint16 \<Rightarrow> uint8 list" where
  "le16_bytes w = [ucast w, ucast (drop_bit 8 w)]"

definition le32 :: "uint8 \<Rightarrow> uint8 \<Rightarrow> uint8 \<Rightarrow> uint8 \<Rightarrow> uint32" where
  "le32 b0 b1 b2 b3 =
     ucast b0 OR push_bit 8 (ucast b1) OR push_bit 16 (ucast b2) OR push_bit 24 (ucast b3)"

definition le32_bytes :: "uint32 \<Rightarrow> uint8 list" where
  "le32_bytes w = [ucast w, ucast (drop_bit 8 w), ucast (drop_bit 16 w), ucast (drop_bit 24 w)]"

lemma length_le_bytes [simp]: "length (le16_bytes w) = 2" "length (le32_bytes v) = 4"
  by (simp_all add: le16_bytes_def le32_bytes_def)

lemma le16_of_bytes [simp]: "le16 (ucast w) (ucast (drop_bit 8 w)) = w"
  unfolding le16_def by (rule bit_word_eqI) (auto simp: bit_simps)

lemma le32_of_bytes [simp]:
  "le32 (ucast w) (ucast (drop_bit 8 w)) (ucast (drop_bit 16 w)) (ucast (drop_bit 24 w)) = w"
proof (rule bit_word_eqI)
  fix n
  assume "n < LENGTH(32)"
  then have "n < 32" by simp
  then consider "n < 8" | "8 \<le> n" "n < 16" | "16 \<le> n" "n < 24" | "24 \<le> n" "n < 32"
    by linarith
  then show "bit (le32 (ucast w) (ucast (drop_bit 8 w)) (ucast (drop_bit 16 w)) (ucast (drop_bit 24 w))) n
      = bit w n"
    unfolding le32_def by cases (auto simp: bit_simps)
qed

lemma le16_split [simp]: "ucast (le16 a b) = a" "ucast (drop_bit 8 (le16 a b)) = b"
  unfolding le16_def by (rule bit_word_eqI; auto simp: bit_simps dest: bit_imp_le_length)+

lemma le32_split [simp]:
  "ucast (le32 a b c d) = a" "ucast (drop_bit 8 (le32 a b c d)) = b"
  "ucast (drop_bit 16 (le32 a b c d)) = c" "ucast (drop_bit 24 (le32 a b c d)) = d"
  unfolding le32_def by (rule bit_word_eqI; auto simp: bit_simps dest: bit_imp_le_length)+

lemma le16_bytes_le16 [simp]: "le16_bytes (le16 a b) = [a, b]"
  by (simp add: le16_bytes_def)

lemma le32_bytes_le32 [simp]: "le32_bytes (le32 a b c d) = [a, b, c, d]"
  by (simp add: le32_bytes_def)

lemma unat_le16: "unat (le16 a b) = unat a + 256 * unat b"
proof -
  have "ucast a AND push_bit 8 (ucast b) = (0 :: uint16)"
    by (rule bit_word_eqI) (auto simp: bit_simps dest: bit_imp_le_length)
  then have "le16 a b = ucast a + push_bit 8 (ucast b)"
    unfolding le16_def by (simp add: disjunctive_add_eq_or)
  moreover have "push_bit 8 (ucast b :: uint16) = of_nat (256 * unat b)"
    by (simp add: push_bit_eq_mult)
  moreover have "ucast a = (of_nat (unat a) :: uint16)" by simp
  ultimately have eq: "le16 a b = of_nat (unat a + 256 * unat b)"
    by (simp only: of_nat_add)
  have "unat a + 256 * unat b < 2 ^ LENGTH(16)"
    using unat_lt2p [of a] unat_lt2p [of b] by simp
  then show ?thesis
    unfolding eq by (rule unat_of_nat_eq)
qed

section \<open>Byte swaps\<close>

definition rte_bswap16 :: "uint16 \<Rightarrow> uint16" where
  "rte_bswap16 v = push_bit 8 (v AND 0x00ff) OR drop_bit 8 (v AND 0xff00)"

definition rte_bswap32 :: "uint32 \<Rightarrow> uint32" where
  "rte_bswap32 v =
     push_bit 24 (v AND 0x000000ff) OR push_bit 8 (v AND 0x0000ff00)
     OR drop_bit 8 (v AND 0x00ff0000) OR drop_bit 24 (v AND 0xff000000)"

definition rte_cpu_to_be_16 :: "uint16 \<Rightarrow> uint16" where "rte_cpu_to_be_16 x = rte_bswap16 x"
definition rte_cpu_to_be_32 :: "uint32 \<Rightarrow> uint32" where "rte_cpu_to_be_32 x = rte_bswap32 x"
definition rte_be_to_cpu_16 :: "uint16 \<Rightarrow> uint16" where "rte_be_to_cpu_16 x = rte_bswap16 x"
definition rte_be_to_cpu_32 :: "uint32 \<Rightarrow> uint32" where "rte_be_to_cpu_32 x = rte_bswap32 x"

lemma byte_masks:
  "(0x00ff :: uint16) = mask 8" "(0xff00 :: uint16) = push_bit 8 (mask 8)"
  "(0x000000ff :: uint32) = mask 8" "(0x0000ff00 :: uint32) = push_bit 8 (mask 8)"
  "(0x00ff0000 :: uint32) = push_bit 16 (mask 8)" "(0xff000000 :: uint32) = push_bit 24 (mask 8)"
  by (simp_all add: mask_eq_exp_minus_1 push_bit_eq_mult)

lemma rte_bswap16_le16 [simp]: "rte_bswap16 (le16 a b) = le16 b a"
  unfolding rte_bswap16_def le16_def byte_masks
  by (rule bit_word_eqI) (auto simp: bit_simps dest: bit_imp_le_length)

lemma rte_bswap16_swap: "rte_bswap16 w = le16 (ucast (drop_bit 8 w)) (ucast w)"
  using rte_bswap16_le16 [of "ucast w" "ucast (drop_bit 8 w)"] by simp

lemma rte_bswap16_bswap16 [simp]: "rte_bswap16 (rte_bswap16 w) = w"
  by (simp add: rte_bswap16_swap)

lemma byte_at:
  fixes x :: uint32
  shows "x AND push_bit k (mask 8) = push_bit k (ucast (ucast (drop_bit k x) :: uint8))"
  by (rule bit_word_eqI) (auto simp: bit_simps)

lemma drop_bit_byte:
  "drop_bit 8 (push_bit 16 (ucast (b :: uint8)) :: uint32) = push_bit 8 (ucast b)"
  "drop_bit 24 (push_bit 24 (ucast (b :: uint8)) :: uint32) = ucast b"
  by (rule bit_word_eqI; auto simp: bit_simps dest: bit_imp_le_length)+

lemma rte_bswap32_le32 [simp]: "rte_bswap32 (le32 a b c d) = le32 d c b a"
proof -
  have a: "le32 a b c d AND mask 8 = ucast a"
    using byte_at [of "le32 a b c d" 0] by simp
  show ?thesis
    unfolding rte_bswap32_def byte_masks byte_at a le32_split drop_bit_byte push_bit_push_bit
    by (simp add: le32_def ac_simps)
qed

lemma rte_bswap32_swap:
  "rte_bswap32 w = le32 (ucast (drop_bit 24 w)) (ucast (drop_bit 16 w)) (ucast (drop_bit 8 w)) (ucast w)"
  using rte_bswap32_le32 [of "ucast w" "ucast (drop_bit 8 w)" "ucast (drop_bit 16 w)" "ucast (drop_bit 24 w)"]
  by simp

lemma rte_bswap32_bswap32 [simp]: "rte_bswap32 (rte_bswap32 w) = w"
  by (simp add: rte_bswap32_swap)

section \<open>Blocks of bytes\<close>

text \<open>\<open>n\<close> bytes from offset \<open>off\<close> of a block, and their replacement.\<close>

definition mem_read :: "uint8 list \<Rightarrow> nat \<Rightarrow> nat \<Rightarrow> uint8 list cres" where
  "mem_read m off n = (if off + n \<le> length m then Inr (take n (drop off m)) else Inl Out_of_bounds)"

definition mem_write :: "uint8 list \<Rightarrow> nat \<Rightarrow> uint8 list \<Rightarrow> uint8 list cres" where
  "mem_write m off bs =
     (if off + length bs \<le> length m then Inr (take off m @ bs @ drop (off + length bs) m)
      else Inl Out_of_bounds)"

lemma mem_write_read_same:
  "mem_write m off bs = Inr m' \<Longrightarrow> mem_read m' off (length bs) = Inr bs \<and> length m' = length m"
  by (auto simp: mem_write_def mem_read_def split: if_splits)

lemma mem_write_read_other:
  assumes "mem_write m off bs = Inr m'" and "off' + n \<le> off \<or> off + length bs \<le> off'"
  shows "mem_read m' off' n = mem_read m off' n"
proof (cases "off' + n \<le> length m")
  case True
  have m: "off + length bs \<le> length m" "m' = take off m @ bs @ drop (off + length bs) m"
    using assms(1) by (auto simp: mem_write_def split: if_splits)
  then have len: "length m' = length m" by simp
  have "take n (drop off' m') = take n (drop off' m)"
  proof (rule nth_equalityI)
    show "length (take n (drop off' m')) = length (take n (drop off' m))"
      by (simp add: len)
    fix i assume "i < length (take n (drop off' m'))"
    then have i: "i < n" "off' + i < length m" by (auto simp: len)
    have "m' ! (off' + i) = m ! (off' + i)"
      unfolding m(2) using assms(2) m(1) i by (auto simp: nth_append min_def)
    then show "take n (drop off' m') ! i = take n (drop off' m) ! i"
      using i by (simp add: len)
  qed
  then show ?thesis
    using True by (simp add: mem_read_def len)
next
  case False
  then show ?thesis
    using assms(1) by (auto simp: mem_read_def mem_write_def split: if_splits)
qed

end
