(* ===== verification/Ip.thy ===== *)
theory Ip
  imports Bytes Ether
begin

text \<open>
  The IPv4, IPv6 and ARP headers of \<^verbatim>\<open>rte_ip.h\<close> and \<^verbatim>\<open>rte_arp.h\<close> as records, their layout in
  memory, and the checksum routines of \<^verbatim>\<open>rte_ip.h\<close>. A 16- or 32-bit field holds the value
  the CPU loads, so a field in network order is swapped by \<open>rte_be_to_cpu_16\<close> as in the code.
  The routines that read a buffer take the bytes from the pointer on and stop with
  \<open>Out_of_bounds\<close> when they would read behind them.
\<close>

section \<open>Headers\<close>

record ipv4_hdr =
  version_ihl :: uint8
  type_of_service :: uint8
  total_length :: uint16
  packet_id :: uint16
  fragment_offset :: uint16
  time_to_live :: uint8
  next_proto_id :: uint8
  hdr_checksum :: uint16
  src_addr :: uint32
  dst_addr :: uint32

definition SIZEOF_IPV4_HDR :: nat where [c_defs]: "SIZEOF_IPV4_HDR = 20"

definition ipv4_bytes :: "ipv4_hdr \<Rightarrow> uint8 list" where
  "ipv4_bytes h =
     [version_ihl h, type_of_service h] @ le16_bytes (total_length h) @ le16_bytes (packet_id h)
     @ le16_bytes (fragment_offset h) @ [time_to_live h, next_proto_id h]
     @ le16_bytes (hdr_checksum h) @ le32_bytes (src_addr h) @ le32_bytes (dst_addr h)"

definition ipv4_of_bytes :: "uint8 list \<Rightarrow> ipv4_hdr" where
  "ipv4_of_bytes b =
     \<lparr>version_ihl = b ! 0, type_of_service = b ! 1, total_length = le16 (b ! 2) (b ! 3),
      packet_id = le16 (b ! 4) (b ! 5), fragment_offset = le16 (b ! 6) (b ! 7),
      time_to_live = b ! 8, next_proto_id = b ! 9, hdr_checksum = le16 (b ! 10) (b ! 11),
      src_addr = le32 (b ! 12) (b ! 13) (b ! 14) (b ! 15),
      dst_addr = le32 (b ! 16) (b ! 17) (b ! 18) (b ! 19)\<rparr>"

definition IPv4_addr :: "uint32 \<Rightarrow> uint32 \<Rightarrow> uint32 \<Rightarrow> uint32 \<Rightarrow> uint32" where
  "IPv4_addr a b c d =
     push_bit 24 (a AND 0xff) OR push_bit 16 (b AND 0xff) OR push_bit 8 (c AND 0xff) OR (d AND 0xff)"

definition IPV4_HDR_IHL_MASK :: uint8 where [c_defs]: "IPV4_HDR_IHL_MASK = 0x0f"
definition IPV4_IHL_MULTIPLIER :: nat where [c_defs]: "IPV4_IHL_MULTIPLIER = 4"

definition IS_IPV4_MCAST :: "uint32 \<Rightarrow> bool" where
  "IS_IPV4_MCAST x \<longleftrightarrow> IPv4_addr 224 0 0 0 \<le> x \<and> x \<le> IPv4_addr 239 255 255 255"

record ipv6_hdr =
  vtc_flow :: uint32
  payload_len :: uint16
  ip6_proto :: uint8
  hop_limits :: uint8
  ip6_src_addr :: "uint8 list"
  ip6_dst_addr :: "uint8 list"

definition SIZEOF_IPV6_HDR :: nat where [c_defs]: "SIZEOF_IPV6_HDR = 40"

record arp_ipv4 =
  arp_sha :: ether_addr
  arp_sip :: uint32
  arp_tha :: ether_addr
  arp_tip :: uint32

record arp_hdr =
  arp_hrd :: uint16
  arp_pro :: uint16
  arp_hln :: uint8
  arp_pln :: uint8
  arp_op :: uint16
  arp_data :: arp_ipv4

definition SIZEOF_ARP_HDR :: nat where [c_defs]: "SIZEOF_ARP_HDR = 28"
definition ARP_HRD_ETHER :: uint16 where [c_defs]: "ARP_HRD_ETHER = 1"
definition ARP_OP_REQUEST :: uint16 where [c_defs]: "ARP_OP_REQUEST = 1"
definition ARP_OP_REPLY :: uint16 where [c_defs]: "ARP_OP_REPLY = 2"

definition arp_bytes :: "arp_hdr \<Rightarrow> uint8 list" where
  "arp_bytes h =
     le16_bytes (arp_hrd h) @ le16_bytes (arp_pro h) @ [arp_hln h, arp_pln h] @ le16_bytes (arp_op h)
     @ addr_bytes (arp_sha (arp_data h)) @ le32_bytes (arp_sip (arp_data h))
     @ addr_bytes (arp_tha (arp_data h)) @ le32_bytes (arp_tip (arp_data h))"

definition arp_of_bytes :: "uint8 list \<Rightarrow> arp_hdr" where
  "arp_of_bytes b =
     \<lparr>arp_hrd = le16 (b ! 0) (b ! 1), arp_pro = le16 (b ! 2) (b ! 3), arp_hln = b ! 4, arp_pln = b ! 5,
      arp_op = le16 (b ! 6) (b ! 7),
      arp_data = \<lparr>arp_sha = \<lparr>addr_bytes = take 6 (drop 8 b)\<rparr>,
                  arp_sip = le32 (b ! 14) (b ! 15) (b ! 16) (b ! 17),
                  arp_tha = \<lparr>addr_bytes = take 6 (drop 18 b)\<rparr>,
                  arp_tip = le32 (b ! 24) (b ! 25) (b ! 26) (b ! 27)\<rparr>\<rparr>"

record ether_hdr =
  d_addr :: ether_addr
  s_addr :: ether_addr
  ether_type :: uint16

definition ether_bytes :: "ether_hdr \<Rightarrow> uint8 list" where
  "ether_bytes h = addr_bytes (d_addr h) @ addr_bytes (s_addr h) @ le16_bytes (ether_type h)"

definition ether_of_bytes :: "uint8 list \<Rightarrow> ether_hdr" where
  "ether_of_bytes b =
     \<lparr>d_addr = \<lparr>addr_bytes = take 6 b\<rparr>, s_addr = \<lparr>addr_bytes = take 6 (drop 6 b)\<rparr>,
      ether_type = le16 (b ! 12) (b ! 13)\<rparr>"

section \<open>Checksums\<close>

function cksum_loop4 :: "uint8 list \<Rightarrow> nat \<Rightarrow> uint32 \<Rightarrow> (uint8 list \<times> nat \<times> uint32) cres" where
  "cksum_loop4 u16 len acc =
     (if 8 \<le> len then
        (case u16 of
           b0 # b1 # b2 # b3 # b4 # b5 # b6 # b7 # r \<Rightarrow>
             cksum_loop4 r (len - 8)
               (acc + ucast (le16 b0 b1) + ucast (le16 b2 b3) + ucast (le16 b4 b5) + ucast (le16 b6 b7))
         | _ \<Rightarrow> Inl Out_of_bounds)
      else Inr (u16, len, acc))"
  by pat_completeness auto
termination by (relation "measure (\<lambda>(_, len, _). len)") auto

function cksum_loop1 :: "uint8 list \<Rightarrow> nat \<Rightarrow> uint32 \<Rightarrow> (uint8 list \<times> nat \<times> uint32) cres" where
  "cksum_loop1 u16 len acc =
     (if 2 \<le> len then
        (case u16 of
           b0 # b1 # r \<Rightarrow> cksum_loop1 r (len - 2) (acc + ucast (le16 b0 b1))
         | _ \<Rightarrow> Inl Out_of_bounds)
      else Inr (u16, len, acc))"
  by pat_completeness auto
termination by (relation "measure (\<lambda>(_, len, _). len)") auto

declare cksum_loop4.simps [simp del] cksum_loop1.simps [simp del]

definition raw_cksum_sum :: "uint8 list \<Rightarrow> nat \<Rightarrow> uint32 \<Rightarrow> uint32 cres" where
  "raw_cksum_sum buf len acc =
     cbind (cksum_loop4 buf len acc) (\<lambda>(u16, len, acc).
     cbind (cksum_loop1 u16 len acc) (\<lambda>(u16, len, acc).
     if len = 1 then (case u16 of b # _ \<Rightarrow> Inr (acc + ucast b) | [] \<Rightarrow> Inl Out_of_bounds)
     else Inr acc))"

definition raw_cksum_reduce :: "uint32 \<Rightarrow> uint16" where
  "raw_cksum_reduce acc =
     (let acc = drop_bit 16 (acc AND 0xffff0000) + (acc AND 0xffff);
          acc = drop_bit 16 (acc AND 0xffff0000) + (acc AND 0xffff)
      in ucast acc)"

definition rte_raw_cksum :: "uint8 list \<Rightarrow> nat \<Rightarrow> uint16 cres" where
  "rte_raw_cksum buf len = cbind (raw_cksum_sum buf len 0) (\<lambda>acc. Inr (raw_cksum_reduce acc))"

definition rte_ipv4_cksum :: "ipv4_hdr \<Rightarrow> uint16 cres" where
  "rte_ipv4_cksum ipv4_hdr =
     cbind (rte_raw_cksum (ipv4_bytes ipv4_hdr) SIZEOF_IPV4_HDR) (\<lambda>cksum.
     Inr (if cksum = 0xffff then cksum else NOT cksum))"

definition PKT_TX_TCP_SEG :: uint64 where "PKT_TX_TCP_SEG = push_bit 50 1"

definition rte_ipv4_phdr_cksum :: "ipv4_hdr \<Rightarrow> uint64 \<Rightarrow> uint16 cres" where
  "rte_ipv4_phdr_cksum h ol_flags =
     (let len = (if ol_flags AND PKT_TX_TCP_SEG \<noteq> 0 then 0
                 else rte_cpu_to_be_16 (rte_be_to_cpu_16 (total_length h) - of_nat SIZEOF_IPV4_HDR));
          psd_hdr = le32_bytes (src_addr h) @ le32_bytes (dst_addr h) @ [0, next_proto_id h] @ le16_bytes len
      in rte_raw_cksum psd_hdr (length psd_hdr))"

definition l4_cksum_finish :: "uint32 \<Rightarrow> uint16" where
  "l4_cksum_finish cksum =
     (let cksum = drop_bit 16 (cksum AND 0xffff0000) + (cksum AND 0xffff);
          cksum = NOT cksum AND 0xffff
      in ucast (if cksum = 0 then 0xffff else cksum))"

definition rte_ipv4_udptcp_cksum :: "ipv4_hdr \<Rightarrow> uint8 list \<Rightarrow> uint16 cres" where
  "rte_ipv4_udptcp_cksum h l4_hdr =
     (let l4_len = (ucast (rte_be_to_cpu_16 (total_length h)) - of_nat SIZEOF_IPV4_HDR :: uint32) in
      cbind (rte_raw_cksum l4_hdr (unat l4_len)) (\<lambda>c1.
      cbind (rte_ipv4_phdr_cksum h 0) (\<lambda>c2.
      Inr (l4_cksum_finish (ucast c1 + ucast c2)))))"

definition rte_ipv6_phdr_cksum :: "ipv6_hdr \<Rightarrow> uint64 \<Rightarrow> uint16 cres" where
  "rte_ipv6_phdr_cksum h ol_flags =
     (let proto = push_bit 24 (ucast (ip6_proto h)) :: uint32;
          len = (if ol_flags AND PKT_TX_TCP_SEG \<noteq> 0 then 0 else ucast (payload_len h)) :: uint32;
          addrs = ip6_src_addr h @ ip6_dst_addr h;
          psd_hdr = le32_bytes len @ le32_bytes proto
      in cbind (raw_cksum_sum addrs (16 + 16) 0) (\<lambda>acc.
         cbind (raw_cksum_sum psd_hdr (length psd_hdr) acc) (\<lambda>acc.
         Inr (raw_cksum_reduce acc))))"

definition rte_ipv6_udptcp_cksum :: "ipv6_hdr \<Rightarrow> uint8 list \<Rightarrow> uint16 cres" where
  "rte_ipv6_udptcp_cksum h l4_hdr =
     (let l4_len = rte_be_to_cpu_16 (payload_len h) in
      cbind (rte_raw_cksum l4_hdr (unat l4_len)) (\<lambda>c1.
      cbind (rte_ipv6_phdr_cksum h 0) (\<lambda>c2.
      Inr (l4_cksum_finish (ucast c1 + ucast c2)))))"

section \<open>Layout\<close>

lemma length_ipv4_bytes [simp]: "length (ipv4_bytes h) = 20"
  by (simp add: ipv4_bytes_def)

lemma ipv4_of_bytes_bytes [simp]: "ipv4_of_bytes (ipv4_bytes h) = h"
  by (simp add: ipv4_of_bytes_def ipv4_bytes_def le16_bytes_def le32_bytes_def)

lemma list_eq_nth_n:
  "length b = 14 \<Longrightarrow> b = map (\<lambda>i. b ! i) [0, 1, 2, 3, 4, 5, 6, 7, 8, 9, 10, 11, 12, 13]"
  "length b = 20 \<Longrightarrow> b = map (\<lambda>i. b ! i) [0, 1, 2, 3, 4, 5, 6, 7, 8, 9, 10, 11, 12, 13, 14, 15, 16, 17, 18, 19]"
proof -
  have *: "b = map (\<lambda>i. b ! i) [0..<length b]"
    by (simp add: map_nth)
  { assume l: "length b = 14"
    have "[0..<14] = [0, 1, 2, 3, 4, 5, 6, 7, 8, 9, 10, 11, 12, 13 :: nat]" by code_simp
    with * l show "b = map (\<lambda>i. b ! i) [0, 1, 2, 3, 4, 5, 6, 7, 8, 9, 10, 11, 12, 13]" by metis }
  { assume l: "length b = 20"
    have "[0..<20] = [0, 1, 2, 3, 4, 5, 6, 7, 8, 9, 10, 11, 12, 13, 14, 15, 16, 17, 18, 19 :: nat]" by code_simp
    with * l show "b = map (\<lambda>i. b ! i) [0, 1, 2, 3, 4, 5, 6, 7, 8, 9, 10, 11, 12, 13, 14, 15, 16, 17, 18, 19]"
      by metis }
qed

lemma ipv4_bytes_of_bytes: "length b = 20 \<Longrightarrow> ipv4_bytes (ipv4_of_bytes b) = b"
proof -
  assume "length b = 20"
  from list_eq_nth_n(2) [OF this] have "ipv4_bytes (ipv4_of_bytes b) = map (\<lambda>i. b ! i)
      [0, 1, 2, 3, 4, 5, 6, 7, 8, 9, 10, 11, 12, 13, 14, 15, 16, 17, 18, 19]"
    by (simp add: ipv4_bytes_def ipv4_of_bytes_def del: map_eq_conv)
  with list_eq_nth_n(2) [OF \<open>length b = 20\<close>] show ?thesis by metis
qed

definition arp_wf :: "arp_hdr \<Rightarrow> bool" where
  "arp_wf h \<longleftrightarrow> ether_addr_wf (arp_sha (arp_data h)) \<and> ether_addr_wf (arp_tha (arp_data h))"

definition ether_hdr_wf :: "ether_hdr \<Rightarrow> bool" where
  "ether_hdr_wf h \<longleftrightarrow> ether_addr_wf (d_addr h) \<and> ether_addr_wf (s_addr h)"

lemma length_arp_bytes [simp]: "arp_wf h \<Longrightarrow> length (arp_bytes h) = 28"
  by (simp add: arp_bytes_def arp_wf_def ether_addr_wf_def ETHER_ADDR_LEN_def)

lemma length_ether_bytes [simp]: "ether_hdr_wf h \<Longrightarrow> length (ether_bytes h) = 14"
  by (simp add: ether_bytes_def ether_hdr_wf_def ether_addr_wf_def ETHER_ADDR_LEN_def)

lemma arp_of_bytes_bytes [simp]:
  assumes "arp_wf h"
  shows "arp_of_bytes (arp_bytes h) = h"
proof -
  obtain a0 a1 a2 a3 a4 a5 where a: "addr_bytes (arp_sha (arp_data h)) = [a0, a1, a2, a3, a4, a5]"
    using assms by (auto simp: arp_wf_def ether_addr_wf_def ETHER_ADDR_LEN_def elim: list6_cases)
  obtain b0 b1 b2 b3 b4 b5 where b: "addr_bytes (arp_tha (arp_data h)) = [b0, b1, b2, b3, b4, b5]"
    using assms by (auto simp: arp_wf_def ether_addr_wf_def ETHER_ADDR_LEN_def elim: list6_cases)
  show ?thesis
    using a b
    by (cases h; cases "arp_data h"; cases "arp_sha (arp_data h)"; cases "arp_tha (arp_data h)")
       (simp add: arp_of_bytes_def arp_bytes_def le16_bytes_def le32_bytes_def)
qed

lemma arp_wf_of_bytes [simp]: "length b = 28 \<Longrightarrow> arp_wf (arp_of_bytes b)"
  by (simp add: arp_wf_def arp_of_bytes_def ether_addr_wf_def ETHER_ADDR_LEN_def)

lemma ether_of_bytes_bytes [simp]:
  assumes "ether_hdr_wf h"
  shows "ether_of_bytes (ether_bytes h) = h"
proof -
  obtain a0 a1 a2 a3 a4 a5 where a: "addr_bytes (d_addr h) = [a0, a1, a2, a3, a4, a5]"
    using assms by (auto simp: ether_hdr_wf_def ether_addr_wf_def ETHER_ADDR_LEN_def elim: list6_cases)
  obtain b0 b1 b2 b3 b4 b5 where b: "addr_bytes (s_addr h) = [b0, b1, b2, b3, b4, b5]"
    using assms by (auto simp: ether_hdr_wf_def ether_addr_wf_def ETHER_ADDR_LEN_def elim: list6_cases)
  show ?thesis
    using a b
    by (cases h; cases "d_addr h"; cases "s_addr h")
       (simp add: ether_of_bytes_def ether_bytes_def le16_bytes_def)
qed

lemma ether_wf_of_bytes [simp]: "length b = 14 \<Longrightarrow> ether_hdr_wf (ether_of_bytes b)"
  by (simp add: ether_hdr_wf_def ether_of_bytes_def ether_addr_wf_def ETHER_ADDR_LEN_def)

section \<open>The sum of a buffer\<close>

fun word_sum :: "uint8 list \<Rightarrow> nat" where
  "word_sum [] = 0"
| "word_sum [b] = unat b"
| "word_sum (a # b # r) = unat a + 256 * unat b + word_sum r"

lemma ucast_le16: "(ucast (le16 a b) :: uint32) = of_nat (unat a + 256 * unat b)"
  by (metis of_nat_unat unat_le16)

lemma cksum_loop1_eq:
  "length bs = len \<Longrightarrow>
   cksum_loop1 (bs @ rest) len acc =
     Inr (drop (2 * (len div 2)) bs @ rest, len mod 2, acc + of_nat (word_sum (take (2 * (len div 2)) bs)))"
proof (induction len arbitrary: bs acc rule: less_induct)
  case (less len)
  show ?case
  proof (cases "2 \<le> len")
    case True
    then obtain a b r where bs: "bs = a # b # r"
      using less.prems by (cases bs; cases "tl bs") auto
    have len: "len = Suc (Suc (length r))" using less.prems bs by simp
    show ?thesis
      using less.IH [of "length r" r "acc + ucast (le16 a b)"]
      by (subst cksum_loop1.simps) (simp add: bs len ucast_le16 add.assoc)
  next
    case False
    then show ?thesis
      using less.prems by (subst cksum_loop1.simps) simp
  qed
qed

lemma ge8_cases:
  assumes "8 \<le> length bs"
  obtains b0 b1 b2 b3 b4 b5 b6 b7 r where "bs = b0 # b1 # b2 # b3 # b4 # b5 # b6 # b7 # r"
  using assms by (auto simp: eval_nat_numeral Suc_le_length_iff)

lemma cksum_loop4_eq:
  "length bs = len \<Longrightarrow>
   cksum_loop4 (bs @ rest) len acc =
     Inr (drop (8 * (len div 8)) bs @ rest, len mod 8, acc + of_nat (word_sum (take (8 * (len div 8)) bs)))"
proof (induction len arbitrary: bs acc rule: less_induct)
  case (less len)
  show ?case
  proof (cases "8 \<le> len")
    case True
    then obtain b0 b1 b2 b3 b4 b5 b6 b7 r where bs: "bs = b0 # b1 # b2 # b3 # b4 # b5 # b6 # b7 # r"
      using less.prems by (auto elim: ge8_cases)
    have len: "len = length r + 8" using less.prems bs by simp
    have k: "8 * (len div 8) = Suc (Suc (Suc (Suc (Suc (Suc (Suc (Suc (8 * (length r div 8)))))))))"
      using div_add_self2 [of 8 "length r"] by (simp add: len)
    have m: "len mod 8 = length r mod 8" "len - 8 = length r" by (simp_all add: len)
    show ?thesis
      using less.IH [of "length r" r] True
      unfolding k m by (subst cksum_loop4.simps) (simp add: bs m len ucast_le16 add.assoc)
  next
    case False
    then show ?thesis
      using less.prems by (subst cksum_loop4.simps) simp
  qed
qed

lemma word_sum_append: "even (length xs) \<Longrightarrow> word_sum (xs @ ys) = word_sum xs + word_sum ys"
  by (induction xs rule: word_sum.induct) auto

lemma raw_cksum_sum_eq:
  "raw_cksum_sum (bs @ rest) (length bs) acc = Inr (acc + of_nat (word_sum bs))"
proof -
  define k where "k = 8 * (length bs div 8)"
  define cs where "cs = drop k bs"
  define j where "j = 2 * (length cs div 2)"
  have cs: "length cs = length bs mod 8"
    by (simp add: cs_def k_def minus_mult_div_eq_mod)
  have sum: "word_sum bs = word_sum (take k bs) + (word_sum (take j cs) + word_sum (drop j cs))"
  proof -
    have "k \<le> length bs" "j \<le> length cs" "even k" "even j"
      by (simp_all add: k_def j_def)
    then have "even (length (take k bs))" "even (length (take j cs))"
      by simp_all
    note ev = this
    have "word_sum bs = word_sum (take k bs @ cs)"
      by (simp add: cs_def)
    also have "\<dots> = word_sum (take k bs) + word_sum cs"
      by (rule word_sum_append [OF ev(1)])
    also have "word_sum cs = word_sum (take j cs @ drop j cs)"
      by simp
    also have "\<dots> = word_sum (take j cs) + word_sum (drop j cs)"
      by (rule word_sum_append [OF ev(2)])
    finally show ?thesis .
  qed
  have d: "length (drop j cs) = length cs mod 2"
    by (simp add: j_def minus_mult_div_eq_mod)
  have "cksum_loop4 (bs @ rest) (length bs) acc = Inr (cs @ rest, length cs, acc + of_nat (word_sum (take k bs)))"
    using cksum_loop4_eq [OF refl, of bs rest acc] unfolding cs by (simp add: k_def cs_def)
  moreover have "cksum_loop1 (cs @ rest) (length cs) a = Inr (drop j cs @ rest, length cs mod 2, a + of_nat (word_sum (take j cs)))" for a
    using cksum_loop1_eq [OF refl, of cs rest a] by (simp add: j_def)
  moreover have "word_sum (drop j cs) = 0" if "length cs mod 2 \<noteq> 1"
    using that d by (cases "drop j cs") auto
  moreover have "\<exists>b. drop j cs = [b]" if "length cs mod 2 = 1"
    using that d by (cases "drop j cs") auto
  ultimately show ?thesis
    by (auto simp: raw_cksum_sum_def sum add.assoc)
qed

section \<open>Ones' complement sums\<close>

text \<open>
  The ones' complement sum of 16-bit words whose ordinary sum is \<open>n\<close>: 0 for \<open>n = 0\<close>, and
  otherwise the representative of \<open>n\<close> modulo 65535 among 1 to 65535.
\<close>

definition oc_norm :: "nat \<Rightarrow> nat" where
  "oc_norm n = (if n = 0 then 0 else (n - 1) mod 65535 + 1)"

definition fold16 :: "nat \<Rightarrow> nat" where
  "fold16 n = n div 65536 + n mod 65536"

lemma oc_norm_le: "oc_norm n \<le> 65535"
  using mod_less_divisor [of 65535 "n - 1"] by (simp add: oc_norm_def Suc_le_eq)

lemma oc_norm_cong: "n mod 65535 = m mod 65535 \<Longrightarrow> 0 < n \<Longrightarrow> 0 < m \<Longrightarrow> oc_norm n = oc_norm m"
  by (cases n; cases m) (auto simp: oc_norm_def mod_Suc split: if_splits)

lemma oc_norm_small: "0 < n \<Longrightarrow> n \<le> 65535 \<Longrightarrow> oc_norm n = n"
  by (simp add: oc_norm_def)

lemma oc_norm_mod: "oc_norm n mod 65535 = n mod 65535"
  by (cases n) (auto simp: oc_norm_def mod_Suc)

lemma fold16_twice:
  assumes "n < 2 ^ 32"
  shows "fold16 (fold16 n) = oc_norm n"
proof -
  define q r where "q = n div 65536" and "r = n mod 65536"
  have n: "n = 65535 * q + (q + r)" and r: "r < 65536"
    by (simp_all add: q_def r_def)
  have q: "q < 65536"
    using assms by (simp add: q_def div_less_iff_less_mult)
  have f: "fold16 n = q + r" by (simp add: fold16_def q_def r_def)
  show ?thesis
  proof (cases "q + r = 0")
    case True
    then show ?thesis using n by (simp add: f fold16_def oc_norm_def)
  next
    case False
    then have "oc_norm n = oc_norm (q + r)"
    proof (intro oc_norm_cong)
      show "n mod 65535 = (q + r) mod 65535"
        unfolding n by (rule mod_mult_self4)
      show "0 < n" using False n by simp
    qed simp
    also have "\<dots> = fold16 (q + r)"
    proof (cases "q + r \<le> 65535")
      case True
      then show ?thesis using False by (simp add: oc_norm_small fold16_def)
    next
      case big: False
      then have "(q + r) div 65536 = 1" "(q + r) mod 65536 = q + r - 65536"
        using q r by (auto simp: div_if mod_if)
      moreover have "oc_norm (q + r) = oc_norm (q + r - 65535)"
        using big by (intro oc_norm_cong) (auto simp: mod_if)
      ultimately show ?thesis
        using big q r by (simp add: fold16_def oc_norm_small)
    qed
    finally show ?thesis by (simp add: f)
  qed
qed

lemma fold_word:
  fixes x :: uint32
  shows "unat (drop_bit 16 (x AND 0xffff0000) + (x AND 0xffff)) = fold16 (unat x)"
proof -
  have m: "(0xffff :: uint32) = mask 16" "(0xffff0000 :: uint32) = push_bit 16 (mask 16)"
    by (simp_all add: mask_eq_exp_minus_1 push_bit_eq_mult)
  have d: "drop_bit 16 (x AND push_bit 16 (mask 16)) = drop_bit 16 x"
    by (rule bit_word_eqI) (auto simp: bit_simps dest: bit_imp_le_length)
  have u: "unat (drop_bit 16 x) = unat x div 65536" "unat (x AND mask 16) = unat x mod 65536"
    by (simp_all add: unat_drop_bit_div unat_mask_mod)
  have "unat x div 65536 < 65536"
    using unat_lt2p [of x] by (simp add: div_less_iff_less_mult)
  then have "unat x div 65536 + unat x mod 65536 < 2 ^ 32"
    using mod_less_divisor [of 65536 "unat x"] by simp
  then show ?thesis
    unfolding m d by (simp add: unat_word_ariths u fold16_def)
qed

lemma unat_raw_cksum_reduce: "unat (raw_cksum_reduce x) = oc_norm (unat x)"
proof -
  have "unat x < 2 ^ 32" using unat_lt2p [of x] by simp
  then have "fold16 (fold16 (unat x)) = oc_norm (unat x)" by (rule fold16_twice)
  moreover have "oc_norm (unat x) < 65536" using oc_norm_le [of "unat x"] by simp
  ultimately show ?thesis
    unfolding raw_cksum_reduce_def Let_def unsigned_ucast_eq fold_word by (simp add: take_bit_eq_mod)
qed

lemma word_sum_bound: "word_sum bs \<le> 65535 * ((length bs + 1) div 2)"
proof (induction bs rule: word_sum.induct)
  case (2 b)
  then show ?case using unat_lt2p [of b] by simp
next
  case (3 a b r)
  then show ?case using unat_lt2p [of a] unat_lt2p [of b] by simp
qed simp

lemma rte_raw_cksum_eq:
  assumes "length bs \<le> 131072"
  shows "rte_raw_cksum (bs @ rest) (length bs) = Inr (of_nat (oc_norm (word_sum bs)))"
proof -
  have "word_sum bs \<le> 65535 * ((131072 + 1) div 2)"
    using word_sum_bound [of bs] assms by (meson add_le_mono1 div_le_mono le_trans mult_le_mono2)
  then have "unat (of_nat (word_sum bs) :: uint32) = word_sum bs"
    by (intro unat_of_nat_eq) simp
  then have "unat (raw_cksum_reduce (of_nat (word_sum bs))) = oc_norm (word_sum bs)"
    by (simp only: unat_raw_cksum_reduce)
  then have "raw_cksum_reduce (of_nat (word_sum bs)) = of_nat (oc_norm (word_sum bs))"
    by (metis of_nat_unat ucast_id)
  then show ?thesis
    by (simp add: rte_raw_cksum_def raw_cksum_sum_eq)
qed

lemma unat_byte_pair:
  fixes w :: uint16
  shows "unat (ucast w :: uint8) + 256 * unat (ucast (drop_bit 8 w) :: uint8) = unat w"
  using unat_le16 [of "ucast w" "ucast (drop_bit 8 w)"] by simp

lemma word_sum_checksum:
  "word_sum (ipv4_bytes (h\<lparr>hdr_checksum := w\<rparr>)) =
     word_sum (ipv4_bytes (h\<lparr>hdr_checksum := 0\<rparr>)) + unat w"
  using unat_byte_pair [of w] by (simp add: ipv4_bytes_def le16_bytes_def le32_bytes_def)

lemma ipv4_raw_cksum:
  "rte_raw_cksum (ipv4_bytes h) SIZEOF_IPV4_HDR = Inr (of_nat (oc_norm (word_sum (ipv4_bytes h))))"
  using rte_raw_cksum_eq [of "ipv4_bytes h" "[]"] by (simp add: SIZEOF_IPV4_HDR_def)

text \<open>The checksum the code puts into a header with a zeroed checksum field.\<close>

definition ipv4_cksum_value :: "ipv4_hdr \<Rightarrow> nat" where
  "ipv4_cksum_value h =
     (let c = oc_norm (word_sum (ipv4_bytes h)) in if c = 65535 then c else 65535 - c)"

lemma ipv4_cksum_value_lt: "ipv4_cksum_value h < 2 ^ LENGTH(16)"
  using oc_norm_le [of "word_sum (ipv4_bytes h)"] by (auto simp: ipv4_cksum_value_def Let_def)

lemma rte_ipv4_cksum_eq: "rte_ipv4_cksum h = Inr (of_nat (ipv4_cksum_value h))"
proof -
  define c where "c = oc_norm (word_sum (ipv4_bytes h))"
  have c: "c \<le> 65535" by (simp add: c_def oc_norm_le)
  have u: "unat (of_nat c :: uint16) = c"
    using c by (intro unat_of_nat_eq) simp
  have "(of_nat c = (0xffff :: uint16)) \<longleftrightarrow> c = 65535"
    unfolding word_unat_eq_iff u by simp
  moreover have "NOT (of_nat c) = (of_nat (65535 - c) :: uint16)"
    using c by (simp add: not_eq_complement of_nat_diff)
  ultimately show ?thesis
    by (simp add: rte_ipv4_cksum_def ipv4_raw_cksum ipv4_cksum_value_def Let_def c_def [symmetric])
qed

lemma ipv4_cksum_verifies:
  "oc_norm (word_sum (ipv4_bytes (h\<lparr>hdr_checksum := of_nat (ipv4_cksum_value (h\<lparr>hdr_checksum := 0\<rparr>))\<rparr>))) = 65535"
proof -
  let ?S = "word_sum (ipv4_bytes (h\<lparr>hdr_checksum := 0\<rparr>))"
  let ?v = "ipv4_cksum_value (h\<lparr>hdr_checksum := 0\<rparr>)"
  have sum: "word_sum (ipv4_bytes (h\<lparr>hdr_checksum := of_nat ?v\<rparr>)) = ?S + ?v"
    unfolding word_sum_checksum [where w = "of_nat ?v"] unat_of_nat_eq [OF ipv4_cksum_value_lt] ..
  have "(?S + ?v) mod 65535 = 0"
  proof -
    have "(oc_norm ?S + ?v) mod 65535 = 0"
      using oc_norm_le [of ?S] by (auto simp: ipv4_cksum_value_def Let_def)
    then show ?thesis
      by (metis mod_add_left_eq oc_norm_mod)
  qed
  moreover have "0 < ?v"
    using oc_norm_le [of ?S] by (auto simp: ipv4_cksum_value_def Let_def)
  ultimately have "oc_norm (?S + ?v) = oc_norm 65535"
    by (intro oc_norm_cong) auto
  then show ?thesis
    unfolding sum by (simp add: oc_norm_small)
qed

section \<open>Properties\<close>

text \<open>
  C24. The unrolled checksum loops compute the Internet checksum of their buffer: for up to
  131072 bytes, whatever follows them in memory, the result is the ones' complement sum of
  the little-endian 16-bit words, a last odd byte counting as a word of its own, and no
  byte outside the buffer is read.
\<close>

theorem raw_cksum_is_ones_complement_sum:
  assumes "length bs \<le> 131072"
  shows "rte_raw_cksum (bs @ rest) (length bs) = Inr (of_nat (oc_norm (word_sum bs)))"
  by (rule rte_raw_cksum_eq [OF assms])

theorem raw_cksum_is_ones_complement_sum_witness:
  "length [0xFF, 0xFF, 0x02, 0x00, 0x05 :: uint8] \<le> 131072
   \<and> rte_raw_cksum ([0xFF, 0xFF, 0x02, 0x00, 0x05] @ [0x99]) (length [0xFF, 0xFF, 0x02, 0x00, 0x05 :: uint8])
       = Inr 7"
proof -
  have v: "oc_norm (word_sum [0xFF, 0xFF, 0x02, 0x00, 0x05]) = 7"
    by (simp add: oc_norm_def)
  have l: "length [0xFF, 0xFF, 0x02, 0x00, 0x05 :: uint8] \<le> 131072" by simp
  show ?thesis
    using l raw_cksum_is_ones_complement_sum [OF l, of "[0x99]"] unfolding v by simp
qed

text \<open>
  C25. A header that gets the value of \<open>rte_ipv4_cksum\<close> as its checksum verifies: the ones'
  complement sum over the whole header is then 0xffff, whatever the other fields are.
\<close>

theorem ipv4_checksum_verifies:
  "cbind (rte_ipv4_cksum (h\<lparr>hdr_checksum := 0\<rparr>)) (\<lambda>c.
     rte_raw_cksum (ipv4_bytes (h\<lparr>hdr_checksum := c\<rparr>)) SIZEOF_IPV4_HDR) = Inr 0xffff"
  using ipv4_cksum_verifies [of h] by (simp add: rte_ipv4_cksum_eq ipv4_raw_cksum)

end
