(* ===== verification/Ring.thy ===== *)
theory Ring
  imports CString
begin

text \<open>
  The ring buffer of \<^verbatim>\<open>dpdk/lib/librte_ring\<close>: power-of-two storage, free-running 32-bit head
  and tail indices that are masked on access, copies unrolled four times. This theory has
  the operations of one thread running alone, in which the compare-and-set of the
  multi-producer path succeeds at once and the wait for preceding producers is over
  immediately, and shows that they are a bounded FIFO queue.
\<close>

section \<open>Definitions\<close>

datatype rte_ring_queue_behavior = RTE_RING_QUEUE_FIXED | RTE_RING_QUEUE_VARIABLE

record rte_ring_headtail =
  head :: uint32
  tail :: uint32
  single :: bool

record 'a rte_ring =
  ring_name :: string
  ring_flags :: uint32
  ring_size :: uint32
  ring_mask :: uint32
  ring_capacity :: uint32
  prod :: rte_ring_headtail
  cons :: rte_ring_headtail
  ring_cells :: "'a option list"

definition RING_F_SP_ENQ :: uint32 where [c_defs]: "RING_F_SP_ENQ = 0x0001"
definition RING_F_SC_DEQ :: uint32 where [c_defs]: "RING_F_SC_DEQ = 0x0002"
definition RING_F_EXACT_SZ :: uint32 where [c_defs]: "RING_F_EXACT_SZ = 0x0004"
definition RTE_RING_SZ_MASK :: uint32 where [c_defs]: "RTE_RING_SZ_MASK = 0x0fffffff"
definition RTE_MEMZONE_NAMESIZE :: nat where [c_defs]: "RTE_MEMZONE_NAMESIZE = 32"
definition RTE_CACHE_LINE_SIZE :: nat where [c_defs]: "RTE_CACHE_LINE_SIZE = 64"
definition SIZEOF_RTE_RING :: nat where [c_defs]: "SIZEOF_RTE_RING = 384"
definition EINVAL :: int where [c_defs]: "EINVAL = 22"
definition ENAMETOOLONG :: int where [c_defs]: "ENAMETOOLONG = 36"
definition ENOBUFS :: int where [c_defs]: "ENOBUFS = 105"
definition ENOENT :: int where [c_defs]: "ENOENT = 2"

definition rte_align32pow2 :: "uint32 \<Rightarrow> uint32" where
  "rte_align32pow2 x =
     (let x = x - 1;
          x = x OR drop_bit 1 x;
          x = x OR drop_bit 2 x;
          x = x OR drop_bit 4 x;
          x = x OR drop_bit 8 x;
          x = x OR drop_bit 16 x
      in x + 1)"

definition POWEROF2 :: "uint32 \<Rightarrow> bool" where
  "POWEROF2 x \<longleftrightarrow> (x - 1) AND x = 0"

definition rte_align :: "nat \<Rightarrow> nat \<Rightarrow> nat" where
  "rte_align v a = (v + a - 1) div a * a"

definition rte_ring_get_memsize :: "uint32 \<Rightarrow> int" where
  "rte_ring_get_memsize count =
     (if \<not> POWEROF2 count \<or> RTE_RING_SZ_MASK < count then - EINVAL
      else int (rte_align (SIZEOF_RTE_RING + unat count * 8) RTE_CACHE_LINE_SIZE))"

text \<open>
  The object table behind the structure has \<open>n\<close> uninitialised cells. On success the value is
  0 and the ring, otherwise a negative error and the partly initialised ring is of no use.
\<close>

definition rte_ring_init :: "nat \<Rightarrow> string \<Rightarrow> uint32 \<Rightarrow> uint32 \<Rightarrow> int \<times> 'a rte_ring option" where
  "rte_ring_init n name count flags =
     (if RTE_MEMZONE_NAMESIZE \<le> length name then (- ENAMETOOLONG, None) else
      let ht = \<lambda>s. \<lparr>head = 0, tail = 0, single = s\<rparr>;
          r = \<lambda>size mask capacity.
                \<lparr>ring_name = name, ring_flags = flags, ring_size = size, ring_mask = mask,
                 ring_capacity = capacity, prod = ht (flags AND RING_F_SP_ENQ \<noteq> 0),
                 cons = ht (flags AND RING_F_SC_DEQ \<noteq> 0), ring_cells = replicate n None\<rparr>
      in if flags AND RING_F_EXACT_SZ \<noteq> 0
         then (0, Some (r (rte_align32pow2 (count + 1)) (rte_align32pow2 (count + 1) - 1) count))
         else if \<not> POWEROF2 count \<or> RTE_RING_SZ_MASK < count then (- EINVAL, None)
         else (0, Some (r count (count - 1) (count - 1))))"

subsection \<open>Copying between a table and the ring\<close>

text \<open>
  \<open>ENQUEUE_PTRS\<close> and \<open>DEQUEUE_PTRS\<close> have the same control flow around the assignment
  between \<open>ring[idx]\<close> and \<open>obj_table[i]\<close>, which is the parameter \<open>copy\<close> here.
\<close>

function copy_unrolled ::
  "(nat \<Rightarrow> nat \<Rightarrow> 's \<Rightarrow> 's cres) \<Rightarrow> nat \<Rightarrow> nat \<Rightarrow> nat \<Rightarrow> 's \<Rightarrow> (nat \<times> nat \<times> 's) cres" where
  "copy_unrolled copy n4 i idx s =
     (if i < n4 then
        cbind (copy i idx s) (\<lambda>s.
        cbind (copy (i + 1) (idx + 1) s) (\<lambda>s.
        cbind (copy (i + 2) (idx + 2) s) (\<lambda>s.
        cbind (copy (i + 3) (idx + 3) s) (\<lambda>s.
        copy_unrolled copy n4 (i + 4) (idx + 4) s))))
      else Inr (i, idx, s))"
  by pat_completeness auto
termination by (relation "measure (\<lambda>(copy, n4, i, _). n4 - i)") auto

declare copy_unrolled.simps [simp del]

definition copy_next ::
  "(nat \<Rightarrow> nat \<Rightarrow> 's \<Rightarrow> 's cres) \<Rightarrow> nat \<times> nat \<times> 's \<Rightarrow> (nat \<times> nat \<times> 's) cres" where
  "copy_next copy st = (case st of (i, idx, s) \<Rightarrow> cbind (copy i idx s) (\<lambda>s. Inr (i + 1, idx + 1, s)))"

definition copy_switch ::
  "(nat \<Rightarrow> nat \<Rightarrow> 's \<Rightarrow> 's cres) \<Rightarrow> nat \<Rightarrow> nat \<times> nat \<times> 's \<Rightarrow> (nat \<times> nat \<times> 's) cres" where
  "copy_switch copy k st =
     cbind (if k = 3 then copy_next copy st else Inr st) (\<lambda>st.
     cbind (if k = 3 \<or> k = 2 then copy_next copy st else Inr st) (\<lambda>st.
     if k = 3 \<or> k = 2 \<or> k = 1 then copy_next copy st else Inr st))"

definition ring_copy ::
  "(nat \<Rightarrow> nat \<Rightarrow> 's \<Rightarrow> 's cres) \<Rightarrow> uint32 \<Rightarrow> uint32 \<Rightarrow> uint32 \<Rightarrow> 's \<Rightarrow> 's cres" where
  "ring_copy copy idx n sz s =
     (if idx + n < sz then
        cbind (copy_unrolled copy (unat (n AND NOT 3)) 0 (unat idx) s) (\<lambda>st.
        cbind (copy_switch copy (unat (n AND 3)) st) (\<lambda>(i, idx, s). Inr s))
      else
        cbind (c_for 0 (unat sz - unat idx) (\<lambda>i. copy i (unat idx + i)) s) (\<lambda>s.
        c_for (unat sz - unat idx) (unat n) (\<lambda>i. copy i (i - (unat sz - unat idx))) s))"

definition put_cell :: "'a list \<Rightarrow> nat \<Rightarrow> nat \<Rightarrow> 'a option list \<Rightarrow> 'a option list cres" where
  "put_cell obj_table i idx cells =
     (if i < length obj_table \<and> idx < length cells then Inr (cells[idx := Some (obj_table ! i)])
      else Inl Out_of_bounds)"

definition get_cell :: "'a option list \<Rightarrow> nat \<Rightarrow> nat \<Rightarrow> 'a list \<Rightarrow> 'a list cres" where
  "get_cell cells i idx obj_table =
     (if idx < length cells
      then (case cells ! idx of None \<Rightarrow> Inl Uninit_read | Some v \<Rightarrow> Inr (obj_table @ [v]))
      else Inl Out_of_bounds)"

definition ENQUEUE_PTRS :: "'a rte_ring \<Rightarrow> uint32 \<Rightarrow> 'a list \<Rightarrow> uint32 \<Rightarrow> 'a rte_ring cres" where
  "ENQUEUE_PTRS r prod_head obj_table n =
     cbind (ring_copy (put_cell obj_table) (prod_head AND ring_mask r) n (ring_size r) (ring_cells r)) (\<lambda>cells.
     Inr (r\<lparr>ring_cells := cells\<rparr>))"

definition DEQUEUE_PTRS :: "'a rte_ring \<Rightarrow> uint32 \<Rightarrow> uint32 \<Rightarrow> 'a list cres" where
  "DEQUEUE_PTRS r cons_head n =
     ring_copy (get_cell (ring_cells r)) (cons_head AND ring_mask r) n (ring_size r) []"

subsection \<open>Moving heads and tails\<close>

text \<open>
  Without other threads the compare-and-set of the multi-producer and multi-consumer paths finds the
  value just read, so that their loops end after one round, and the loop of \<open>update_tail\<close> that
  waits for preceding threads ends at once.
\<close>

definition rte_atomic32_cmpset :: "uint32 \<Rightarrow> uint32 \<Rightarrow> uint32 \<Rightarrow> uint32 \<times> bool" where
  "rte_atomic32_cmpset dst expected src = (if dst = expected then (src, True) else (dst, False))"

lemma rte_atomic32_cmpset_self [simp]: "rte_atomic32_cmpset v v w = (w, True)"
  by (simp add: rte_atomic32_cmpset_def)

text \<open>The number of objects, the old and the new head, the free entries and the ring.\<close>

definition move_prod_head ::
  "'a rte_ring \<Rightarrow> bool \<Rightarrow> uint32 \<Rightarrow> rte_ring_queue_behavior \<Rightarrow> uint32 \<times> uint32 \<times> uint32 \<times> uint32 \<times> 'a rte_ring" where
  "move_prod_head r is_sp n behavior =
     (let old_head = head (prod r);
          cons_tail = tail (cons r);
          free_entries = ring_capacity r + cons_tail - old_head;
          n = (if free_entries < n then (if behavior = RTE_RING_QUEUE_FIXED then 0 else free_entries) else n);
          new_head = old_head + n
      in if n = 0 then (0, old_head, old_head, free_entries, r)
         else (let (hd, success) = (if is_sp then (new_head, True)
                                    else rte_atomic32_cmpset (head (prod r)) old_head new_head)
               in (n, old_head, new_head, free_entries, r\<lparr>prod := (prod r)\<lparr>head := hd\<rparr>\<rparr>)))"

definition move_cons_head ::
  "'a rte_ring \<Rightarrow> bool \<Rightarrow> uint32 \<Rightarrow> rte_ring_queue_behavior \<Rightarrow> uint32 \<times> uint32 \<times> uint32 \<times> uint32 \<times> 'a rte_ring" where
  "move_cons_head r is_sc n behavior =
     (let old_head = head (cons r);
          prod_tail = tail (prod r);
          entries = prod_tail - old_head;
          n = (if entries < n then (if behavior = RTE_RING_QUEUE_FIXED then 0 else entries) else n);
          new_head = old_head + n
      in if n = 0 then (0, old_head, old_head, entries, r)
         else (let (hd, success) = (if is_sc then (new_head, True)
                                    else rte_atomic32_cmpset (head (cons r)) old_head new_head)
               in (n, old_head, new_head, entries, r\<lparr>cons := (cons r)\<lparr>head := hd\<rparr>\<rparr>)))"

definition update_tail :: "rte_ring_headtail \<Rightarrow> uint32 \<Rightarrow> rte_ring_headtail" where
  "update_tail ht new_val = ht\<lparr>tail := new_val\<rparr>"

text \<open>The number of objects enqueued, the space left afterwards, and the ring.\<close>

definition do_enqueue ::
  "'a rte_ring \<Rightarrow> 'a list \<Rightarrow> uint32 \<Rightarrow> rte_ring_queue_behavior \<Rightarrow> bool \<Rightarrow> (uint32 \<times> uint32 \<times> 'a rte_ring) cres" where
  "do_enqueue r obj_table n behavior is_sp =
     (case move_prod_head r is_sp n behavior of (n, prod_head, prod_next, free_entries, r) \<Rightarrow>
        if n = 0 then Inr (0, free_entries - n, r)
        else cbind (ENQUEUE_PTRS r prod_head obj_table n) (\<lambda>r.
             Inr (n, free_entries - n, r\<lparr>prod := update_tail (prod r) prod_next\<rparr>)))"

text \<open>The objects dequeued, the entries left afterwards, and the ring.\<close>

definition do_dequeue ::
  "'a rte_ring \<Rightarrow> uint32 \<Rightarrow> rte_ring_queue_behavior \<Rightarrow> bool \<Rightarrow> ('a list \<times> uint32 \<times> 'a rte_ring) cres" where
  "do_dequeue r n behavior is_sc =
     (case move_cons_head r is_sc n behavior of (n, cons_head, cons_next, entries, r) \<Rightarrow>
        if n = 0 then Inr ([], entries - n, r)
        else cbind (DEQUEUE_PTRS r cons_head n) (\<lambda>obj_table.
             Inr (obj_table, entries - n, r\<lparr>cons := update_tail (cons r) cons_next\<rparr>)))"

subsection \<open>The interface\<close>

definition rte_ring_mp_enqueue_bulk where
  "rte_ring_mp_enqueue_bulk r obj_table n = do_enqueue r obj_table n RTE_RING_QUEUE_FIXED False"

definition rte_ring_sp_enqueue_bulk where
  "rte_ring_sp_enqueue_bulk r obj_table n = do_enqueue r obj_table n RTE_RING_QUEUE_FIXED True"

definition rte_ring_enqueue_bulk where
  "rte_ring_enqueue_bulk r obj_table n = do_enqueue r obj_table n RTE_RING_QUEUE_FIXED (single (prod r))"

definition rte_ring_mp_enqueue_burst where
  "rte_ring_mp_enqueue_burst r obj_table n = do_enqueue r obj_table n RTE_RING_QUEUE_VARIABLE False"

definition rte_ring_sp_enqueue_burst where
  "rte_ring_sp_enqueue_burst r obj_table n = do_enqueue r obj_table n RTE_RING_QUEUE_VARIABLE True"

definition rte_ring_enqueue_burst where
  "rte_ring_enqueue_burst r obj_table n = do_enqueue r obj_table n RTE_RING_QUEUE_VARIABLE (single (prod r))"

definition enqueue_ret :: "(uint32 \<times> uint32 \<times> 'a rte_ring) cres \<Rightarrow> (int \<times> 'a rte_ring) cres" where
  "enqueue_ret m = cbind m (\<lambda>(n, free_space, r). Inr (if n \<noteq> 0 then 0 else - ENOBUFS, r))"

definition rte_ring_mp_enqueue where
  "rte_ring_mp_enqueue r obj = enqueue_ret (rte_ring_mp_enqueue_bulk r [obj] 1)"

definition rte_ring_sp_enqueue where
  "rte_ring_sp_enqueue r obj = enqueue_ret (rte_ring_sp_enqueue_bulk r [obj] 1)"

definition rte_ring_enqueue where
  "rte_ring_enqueue r obj = enqueue_ret (rte_ring_enqueue_bulk r [obj] 1)"

definition rte_ring_mc_dequeue_bulk where
  "rte_ring_mc_dequeue_bulk r n = do_dequeue r n RTE_RING_QUEUE_FIXED False"

definition rte_ring_sc_dequeue_bulk where
  "rte_ring_sc_dequeue_bulk r n = do_dequeue r n RTE_RING_QUEUE_FIXED True"

definition rte_ring_dequeue_bulk where
  "rte_ring_dequeue_bulk r n = do_dequeue r n RTE_RING_QUEUE_FIXED (single (cons r))"

definition rte_ring_mc_dequeue_burst where
  "rte_ring_mc_dequeue_burst r n = do_dequeue r n RTE_RING_QUEUE_VARIABLE False"

definition rte_ring_sc_dequeue_burst where
  "rte_ring_sc_dequeue_burst r n = do_dequeue r n RTE_RING_QUEUE_VARIABLE True"

definition rte_ring_dequeue_burst where
  "rte_ring_dequeue_burst r n = do_dequeue r n RTE_RING_QUEUE_VARIABLE (single (cons r))"

definition dequeue_ret :: "('a list \<times> uint32 \<times> 'a rte_ring) cres \<Rightarrow> (int \<times> 'a list \<times> 'a rte_ring) cres" where
  "dequeue_ret m = cbind m (\<lambda>(objs, available, r). Inr (if objs \<noteq> [] then 0 else - ENOENT, objs, r))"

definition rte_ring_mc_dequeue where
  "rte_ring_mc_dequeue r = dequeue_ret (rte_ring_mc_dequeue_bulk r 1)"

definition rte_ring_sc_dequeue where
  "rte_ring_sc_dequeue r = dequeue_ret (rte_ring_sc_dequeue_bulk r 1)"

definition rte_ring_dequeue where
  "rte_ring_dequeue r = dequeue_ret (rte_ring_dequeue_bulk r 1)"

definition rte_ring_get_size :: "'a rte_ring \<Rightarrow> uint32" where
  "rte_ring_get_size r = ring_size r"

definition rte_ring_get_capacity :: "'a rte_ring \<Rightarrow> uint32" where
  "rte_ring_get_capacity r = ring_capacity r"

definition rte_ring_count :: "'a rte_ring \<Rightarrow> uint32" where
  "rte_ring_count r =
     (let count = (tail (prod r) - tail (cons r)) AND ring_mask r
      in if ring_capacity r < count then ring_capacity r else count)"

definition rte_ring_free_count :: "'a rte_ring \<Rightarrow> uint32" where
  "rte_ring_free_count r = ring_capacity r - rte_ring_count r"

definition rte_ring_full :: "'a rte_ring \<Rightarrow> bool" where
  "rte_ring_full r \<longleftrightarrow> rte_ring_free_count r = 0"

definition rte_ring_empty :: "'a rte_ring \<Rightarrow> bool" where
  "rte_ring_empty r \<longleftrightarrow> rte_ring_count r = 0"

section \<open>The unrolled copies are loops\<close>

lemma copy_unrolled_eq:
  assumes "n4 = i + 4 * q"
  shows "copy_unrolled copy n4 i (off + i) s =
    cbind (c_for i n4 (\<lambda>i. copy i (off + i)) s) (\<lambda>s. Inr (n4, off + n4, s))"
  using assms
proof (induction q arbitrary: i s)
  case 0
  then show ?case by (subst copy_unrolled.simps) simp
next
  case (Suc q)
  then have lt: "i < n4" "Suc i < n4" "Suc (Suc i) < n4" "Suc (Suc (Suc i)) < n4"
    "n4 = (i + 4) + 4 * q" by simp_all
  have IH: "copy_unrolled copy n4 (i + 4) (off + i + 4) =
    (\<lambda>s. cbind (c_for (i + 4) n4 (\<lambda>i. copy i (off + i)) s) (\<lambda>s. Inr (n4, off + n4, s)))"
    using Suc.IH [OF lt(5)] by (simp add: add.assoc fun_eq_iff)
  have "c_for i n4 (\<lambda>i. copy i (off + i)) s =
      cbind (copy i (off + i) s) (\<lambda>s. cbind (copy (i + 1) (off + i + 1) s) (\<lambda>s.
      cbind (copy (i + 2) (off + i + 2) s) (\<lambda>s. cbind (copy (i + 3) (off + i + 3) s)
      (c_for (i + 4) n4 (\<lambda>i. copy i (off + i))))))"
    unfolding c_for_fun [OF lt(1)] c_for_fun [OF lt(2)] c_for_fun [OF lt(3)] c_for_fun [OF lt(4)]
    by (simp add: eval_nat_numeral)
  then show ?case
    using lt(1) by (subst copy_unrolled.simps) (simp add: IH cbind_assoc)
qed

lemma copy_switch_eq:
  assumes "k < 4"
  shows "copy_switch copy k (i, off + i, s) =
    cbind (c_for i (i + k) (\<lambda>i. copy i (off + i)) s) (\<lambda>s. Inr (i + k, off + (i + k), s))"
proof -
  have "k = 0 \<or> k = 1 \<or> k = 2 \<or> k = 3" using assms by arith
  then show ?thesis
    by (elim disjE)
       (simp_all add: copy_switch_def copy_next_def c_for_fun cbind_assoc eval_nat_numeral)
qed

lemma unat_and_not_3: "unat (n AND NOT 3) = 4 * (unat n div 4)" for n :: uint32
proof -
  have "(3 :: uint32) = mask 2" by (simp add: mask_eq_exp_minus_1)
  then have "n AND NOT 3 = push_bit 2 (drop_bit 2 n)" by (simp only: and_not_mask)
  moreover have "unat (drop_bit 2 n) * 2 ^ 2 < 2 ^ LENGTH(32)"
    using unat_lt2p [of n] by (simp add: unat_drop_bit_div)
  ultimately have "unat (n AND NOT 3) = unat (drop_bit 2 n) * 2 ^ 2"
    by (simp only: unat_push_bit)
  then show ?thesis by (simp add: unat_drop_bit_div)
qed

lemma unat_and_3: "unat (n AND 3) = unat n mod 4" for n :: uint32
proof -
  have "(3 :: uint32) = mask 2" by (simp add: mask_eq_exp_minus_1)
  then show ?thesis using unat_mask_mod [of n 2] by simp
qed

lemma c_iter_cong: "(\<And>i s. i \<in> set xs \<Longrightarrow> f i s = g i s) \<Longrightarrow> c_iter xs f s = c_iter xs g s"
proof (induction xs arbitrary: s)
  case (Cons x xs)
  then show ?case by (cases "g x s") auto
qed simp

lemma c_for_cong:
  "(\<And>i s. lo \<le> i \<Longrightarrow> i < hi \<Longrightarrow> f i s = g i s) \<Longrightarrow> c_for lo hi f s = c_for lo hi g s"
  unfolding c_for_def by (rule c_iter_cong) auto

lemma ring_copy_eq:
  assumes "unat idx < unat sz" and "unat n \<le> unat sz" and "unat sz \<le> 2 ^ 31"
  shows "ring_copy copy idx n sz s = c_for 0 (unat n) (\<lambda>i. copy i ((unat idx + i) mod unat sz)) s"
proof -
  have u: "unat (idx + n) = unat idx + unat n"
    using assms by (simp add: unat_word_ariths)
  show ?thesis
  proof (cases "unat idx + unat n < unat sz")
    case True
    let ?n4 = "4 * (unat n div 4)"
    have n: "?n4 + unat n mod 4 = unat n" by simp
    have "copy_unrolled copy ?n4 0 (unat idx) s =
        cbind (c_for 0 ?n4 (\<lambda>i. copy i (unat idx + i)) s) (\<lambda>s. Inr (?n4, unat idx + ?n4, s))"
      using copy_unrolled_eq [of ?n4 0 "unat n div 4" copy "unat idx" s] by simp
    moreover have "copy_switch copy (unat n mod 4) (?n4, unat idx + ?n4, s) =
        cbind (c_for ?n4 (unat n) (\<lambda>i. copy i (unat idx + i)) s) (\<lambda>s. Inr (unat n, unat idx + unat n, s))" for s
      using copy_switch_eq [of "unat n mod 4" copy ?n4 "unat idx" s] unfolding n by simp
    ultimately have "ring_copy copy idx n sz s =
        cbind (c_for 0 ?n4 (\<lambda>i. copy i (unat idx + i)) s) (c_for ?n4 (unat n) (\<lambda>i. copy i (unat idx + i)))"
      using True u unfolding ring_copy_def unat_and_not_3 unat_and_3
      by (simp add: word_less_nat_alt cbind_assoc)
    also have "\<dots> = c_for 0 (unat n) (\<lambda>i. copy i (unat idx + i)) s"
      by (rule c_for_split [symmetric]) simp_all
    also have "\<dots> = c_for 0 (unat n) (\<lambda>i. copy i ((unat idx + i) mod unat sz)) s"
      using True by (intro c_for_cong) simp
    finally show ?thesis .
  next
    case False
    let ?k = "unat sz - unat idx"
    have "ring_copy copy idx n sz s =
        cbind (c_for 0 ?k (\<lambda>i. copy i (unat idx + i)) s) (c_for ?k (unat n) (\<lambda>i. copy i (i - ?k)))"
      using False u by (simp add: ring_copy_def word_less_nat_alt)
    also have "c_for 0 ?k (\<lambda>i. copy i (unat idx + i)) s = c_for 0 ?k (\<lambda>i. copy i ((unat idx + i) mod unat sz)) s"
      by (intro c_for_cong) simp
    also have "c_for ?k (unat n) (\<lambda>i. copy i (i - ?k)) = c_for ?k (unat n) (\<lambda>i. copy i ((unat idx + i) mod unat sz))"
    proof
      fix s
      have "i - ?k = (unat idx + i) mod unat sz" if "?k \<le> i" "i < unat n" for i
      proof -
        have "unat idx + i = unat sz + (i - ?k)" "i - ?k < unat sz"
          using that assms by auto
        then show ?thesis by (metis mod_add_self1 mod_less)
      qed
      then show "c_for ?k (unat n) (\<lambda>i. copy i (i - ?k)) s = c_for ?k (unat n) (\<lambda>i. copy i ((unat idx + i) mod unat sz)) s"
        by (intro c_for_cong) simp
    qed
    also have "cbind (c_for 0 ?k (\<lambda>i. copy i ((unat idx + i) mod unat sz)) s)
        (c_for ?k (unat n) (\<lambda>i. copy i ((unat idx + i) mod unat sz))) =
        c_for 0 (unat n) (\<lambda>i. copy i ((unat idx + i) mod unat sz)) s"
      using False by (intro c_for_split [symmetric]) auto
    finally show ?thesis .
  qed
qed

section \<open>Sizes\<close>

lemma smear_step:
  fixes y z :: uint32
  assumes "\<And>n. bit z n \<longleftrightarrow> (\<exists>i<k. bit y (n + i))"
  shows "bit (z OR drop_bit k z) n \<longleftrightarrow> (\<exists>i<2 * k. bit y (n + i))"
proof
  assume "bit (z OR drop_bit k z) n"
  then have "bit z n \<or> bit z (n + k)" by (simp add: bit_or_iff bit_drop_bit_eq add.commute)
  then obtain i where "i < 2 * k" "bit y (n + i)"
  proof
    assume "bit z n"
    then obtain i where "i < k" "bit y (n + i)" using assms by blast
    then show thesis by (intro that [of i]) auto
  next
    assume "bit z (n + k)"
    then obtain i where "i < k" "bit y (n + k + i)" using assms by blast
    then show thesis by (intro that [of "k + i"]) (auto simp: add.assoc)
  qed
  then show "\<exists>i<2 * k. bit y (n + i)" by blast
next
  assume "\<exists>i<2 * k. bit y (n + i)"
  then obtain i where i: "i < 2 * k" "bit y (n + i)" by blast
  show "bit (z OR drop_bit k z) n"
  proof (cases "i < k")
    case True
    then have "bit z n" using i assms by blast
    then show ?thesis by (simp add: bit_or_iff)
  next
    case False
    then have "bit z (n + k)" using i assms [of "n + k"]
      by (auto intro!: exI [of _ "i - k"])
    then show ?thesis by (simp add: bit_or_iff bit_drop_bit_eq add.commute)
  qed
qed

definition smear :: "uint32 \<Rightarrow> uint32" where
  "smear y =
     (let x = y OR drop_bit 1 y; x = x OR drop_bit 2 x; x = x OR drop_bit 4 x;
          x = x OR drop_bit 8 x in x OR drop_bit 16 x)"

lemma bit_smear: "bit (smear y) n \<longleftrightarrow> (\<exists>i<32. bit y (n + i))"
proof -
  define a where "a = y OR drop_bit 1 y"
  define b where "b = a OR drop_bit 2 a"
  define c where "c = b OR drop_bit 4 b"
  define d where "d = c OR drop_bit 8 c"
  have a: "bit a n \<longleftrightarrow> (\<exists>i<2 * 1. bit y (n + i))" for n
    unfolding a_def by (rule smear_step) simp
  have b: "bit b n \<longleftrightarrow> (\<exists>i<2 * 2. bit y (n + i))" for n
    unfolding b_def by (rule smear_step) (simp add: a)
  have c: "bit c n \<longleftrightarrow> (\<exists>i<2 * 4. bit y (n + i))" for n
    unfolding c_def by (rule smear_step) (simp add: b)
  have d: "bit d n \<longleftrightarrow> (\<exists>i<2 * 8. bit y (n + i))" for n
    unfolding d_def by (rule smear_step) (simp add: c)
  have "bit (d OR drop_bit 16 d) n \<longleftrightarrow> (\<exists>i<2 * 16. bit y (n + i))"
    by (rule smear_step) (simp add: d)
  then show ?thesis unfolding smear_def Let_def a_def b_def c_def d_def by simp
qed

lemma bit_word_nat: "bit y n \<longleftrightarrow> odd (unat y div 2 ^ n)" for y :: uint32
proof -
  have "bit y n \<longleftrightarrow> bit (unat y) n" by (simp add: bit_unsigned_iff)
  also have "\<dots> \<longleftrightarrow> odd (unat y div 2 ^ n)" by (rule bit_iff_odd)
  finally show ?thesis .
qed

lemma smear_mask:
  obtains m where "smear y = mask m" "m \<le> 32" "unat y < 2 ^ m" "\<And>j. unat y < 2 ^ j \<Longrightarrow> m \<le> j"
proof -
  define m where "m = (LEAST m. unat y < 2 ^ m)"
  have lt: "unat y < 2 ^ m"
    unfolding m_def by (rule LeastI [of _ 32]) (use unat_lt2p [of y] in simp)
  have least: "m \<le> j" if "unat y < 2 ^ j" for j
    unfolding m_def by (rule Least_le) (rule that)
  have m32: "m \<le> 32" by (rule least) (use unat_lt2p [of y] in simp)
  have "bit (smear y) n \<longleftrightarrow> bit (mask m :: uint32) n" for n
  proof -
    have "(\<exists>i<32. bit y (n + i)) \<longleftrightarrow> n < m"
    proof
      assume "\<exists>i<32. bit y (n + i)"
      then obtain i where "odd (unat y div 2 ^ (n + i))" by (auto simp: bit_word_nat)
      then have "2 ^ (n + i) \<le> unat y"
        by (metis div_less even_zero not_le)
      with lt have "(2::nat) ^ (n + i) < 2 ^ m" by linarith
      then have "n + i < m" by (rule power_less_imp_less_exp [rotated]) simp
      then show "n < m" by simp
    next
      assume n: "n < m"
      have "2 ^ (m - 1) \<le> unat y"
        using least [of "m - 1"] n by (cases "unat y < 2 ^ (m - 1)") auto
      moreover have "unat y < 2 * 2 ^ (m - 1)" using lt n by (cases m) simp_all
      ultimately have "unat y div 2 ^ (m - 1) = 1" by (simp add: div_nat_eqI)
      then have "bit y (n + (m - 1 - n))" using n by (simp add: bit_word_nat)
      then show "\<exists>i<32. bit y (n + i)" using m32 n by (intro exI [of _ "m - 1 - n"]) auto
    qed
    then show ?thesis using m32 by (auto simp: bit_smear bit_mask_iff)
  qed
  then have "smear y = mask m" by (intro bit_eqI) simp
  then show thesis using m32 lt least by (rule that)
qed

lemma rte_align32pow2_pow2:
  assumes "0 < x" and "x \<le> 2 ^ 31"
  shows "\<exists>k\<le>31. rte_align32pow2 x = 2 ^ k \<and> unat (rte_align32pow2 x) = 2 ^ k \<and> unat x \<le> 2 ^ k
    \<and> (\<forall>j. unat x \<le> 2 ^ j \<longrightarrow> k \<le> j)"
proof -
  have x0: "0 < unat x" using assms(1) by (simp only: word_less_nat_alt unat_0)
  then have "1 \<le> x" by (simp add: word_le_nat_alt)
  then have x: "unat (x - 1) = unat x - 1" "0 < unat x" using x0 by (simp_all only: unat_sub unat_1)
  obtain m where m: "smear (x - 1) = mask m" "m \<le> 32" "unat (x - 1) < 2 ^ m"
    "\<And>j. unat (x - 1) < 2 ^ j \<Longrightarrow> m \<le> j" by (rule smear_mask) blast
  have "unat x \<le> 2 ^ 31" using assms(2) by (simp add: word_le_nat_alt)
  then have m31: "m \<le> 31" using x by (intro m(4)) linarith
  have eq: "rte_align32pow2 x = smear (x - 1) + 1"
    unfolding rte_align32pow2_def smear_def Let_def by (rule refl)
  have a: "rte_align32pow2 x = 2 ^ m" unfolding eq m(1) by (simp add: mask_eq_exp_minus_1)
  have "(2::nat) ^ m < 2 ^ 32" using m31 by (intro power_strict_increasing) auto
  then have u: "unat (rte_align32pow2 x) = 2 ^ m"
    unfolding a using unat_of_nat_eq [where 'a=32, of "2 ^ m"] by simp
  have "m \<le> j" if "unat x \<le> 2 ^ j" for j
    using that x by (intro m(4)) linarith
  moreover have "unat x \<le> 2 ^ m" using m(3) x by linarith
  ultimately show ?thesis using a u m31 by blast
qed

lemma rte_align32pow2_wraps:
  assumes "\<not> (0 < x \<and> x \<le> 2 ^ 31)"
  shows "rte_align32pow2 x = 0"
proof -
  obtain m where m: "smear (x - 1) = mask m" "m \<le> 32" "unat (x - 1) < 2 ^ m"
    by (rule smear_mask) blast
  have "2 ^ 31 \<le> unat (x - 1)"
  proof (cases "x = 0")
    case False
    then have "0 < unat x" by (simp add: unat_gt_0)
    then have "1 \<le> x" by (simp add: word_le_nat_alt)
    then have u: "unat (x - 1) = unat x - 1" by (simp only: unat_sub unat_1)
    have "0 < x" using False by (simp add: word_gt_0)
    then have "2 ^ 31 < unat x" using assms by (simp add: word_le_nat_alt)
    then show ?thesis using u by linarith
  qed (simp add: unsigned_minus_1_eq_mask mask_eq_exp_minus_1)
  then have "(2::nat) ^ 31 < 2 ^ m" using m(3) by linarith
  then have "31 < m" by (rule power_less_imp_less_exp [rotated]) simp
  then have "m = 32" using m(2) by simp
  moreover have "rte_align32pow2 x = smear (x - 1) + 1"
    unfolding rte_align32pow2_def smear_def Let_def by (rule refl)
  ultimately show ?thesis unfolding m(1) by (simp add: mask_eq_exp_minus_1)
qed

section \<open>The queue a ring holds\<close>

definition ring_wf :: "'a rte_ring \<Rightarrow> bool" where
  "ring_wf r \<longleftrightarrow>
     (\<exists>k\<le>31. unat (ring_size r) = 2 ^ k \<and> ring_mask r = mask k
        \<and> unat (ring_capacity r) < 2 ^ k \<and> length (ring_cells r) = 2 ^ k)"

definition slot :: "'a rte_ring \<Rightarrow> uint32 \<Rightarrow> nat \<Rightarrow> nat" where
  "slot r h i = (unat h + i) mod unat (ring_size r)"

definition ring_rep :: "'a rte_ring \<Rightarrow> 'a list \<Rightarrow> bool" where
  "ring_rep r q \<longleftrightarrow>
     ring_wf r \<and> head (prod r) = tail (prod r) \<and> head (cons r) = tail (cons r)
     \<and> tail (prod r) = tail (cons r) + of_nat (length q)
     \<and> length q \<le> unat (ring_capacity r)
     \<and> (\<forall>i<length q. ring_cells r ! slot r (tail (cons r)) i = Some (q ! i))"

lemma ring_wf_bounds:
  assumes "ring_wf r"
  shows "0 < unat (ring_size r)" and "unat (ring_size r) \<le> 2 ^ 31"
    and "unat (ring_capacity r) < unat (ring_size r)"
    and "length (ring_cells r) = unat (ring_size r)"
    and "unat (h AND ring_mask r) = unat h mod unat (ring_size r)"
    and "unat (h + of_nat i) mod unat (ring_size r) = (unat h + i) mod unat (ring_size r)"
proof -
  obtain k where k: "k \<le> 31" "unat (ring_size r) = 2 ^ k" "ring_mask r = mask k"
    "unat (ring_capacity r) < 2 ^ k" "length (ring_cells r) = 2 ^ k"
    using assms by (auto simp: ring_wf_def)
  show "0 < unat (ring_size r)" and "unat (ring_capacity r) < unat (ring_size r)"
    and "length (ring_cells r) = unat (ring_size r)"
    using k by simp_all
  show "unat (ring_size r) \<le> 2 ^ 31"
    unfolding k(2) by (rule power_increasing [OF k(1)]) simp
  show "unat (h AND ring_mask r) = unat h mod unat (ring_size r)"
    unfolding k(2,3) by (rule unat_mask_mod)
  have "(2 :: nat) ^ k dvd 2 ^ 32"
    by (rule le_imp_power_dvd) (use k(1) in simp)
  moreover have "unat (h + of_nat i) = (unat h + i) mod 2 ^ 32"
    by (simp add: unat_word_ariths unsigned_of_nat take_bit_eq_mod mod_add_right_eq)
  ultimately show "unat (h + of_nat i) mod unat (ring_size r) = (unat h + i) mod unat (ring_size r)"
    unfolding k(2) by (simp only: mod_mod_cancel)
qed

lemma slot_lt: "ring_wf r \<Longrightarrow> slot r h i < length (ring_cells r)"
  by (simp add: slot_def ring_wf_bounds)

lemma slot_shift:
  assumes "ring_wf r"
  shows "slot r (h + of_nat j) i = slot r h (j + i)"
proof -
  let ?s = "unat (ring_size r)"
  have "(unat (h + of_nat j) + i) mod ?s = (unat (h + of_nat j) mod ?s + i) mod ?s"
    by (simp only: mod_add_left_eq)
  also have "\<dots> = (unat h + j + i) mod ?s"
    by (simp only: ring_wf_bounds(6) [OF assms] mod_add_left_eq)
  finally show ?thesis by (simp add: slot_def add.assoc)
qed

lemma mod_add_inj:
  fixes a i j n :: nat
  assumes "(a + i) mod n = (a + j) mod n" and "i \<le> j" and "j < n"
  shows "i = j"
proof -
  have "n dvd (a + j) - (a + i)"
    using assms by (subst mod_eq_dvd_iff_nat [symmetric]) simp_all
  then have "n dvd j - i" by simp
  with assms(2,3) show ?thesis
    by (auto dest: dvd_imp_le)
qed

lemma slot_inj:
  assumes "slot r h i = slot r h j" and "i < unat (ring_size r)" and "j < unat (ring_size r)"
  shows "i = j"
proof (cases "i \<le> j")
  case True
  then show ?thesis using mod_add_inj assms unfolding slot_def by blast
next
  case False
  then show ?thesis using mod_add_inj [of "unat h" j _ i] assms unfolding slot_def by (metis nat_le_linear)
qed

section \<open>Enqueue\<close>

lemma put_cells:
  assumes wf: "ring_wf r" and n: "n \<le> length objs" "n \<le> unat (ring_size r)"
    and len: "length cells = unat (ring_size r)"
  shows "\<exists>cells'. c_for 0 n (\<lambda>i. put_cell objs i (slot r h i)) cells = Inr cells' \<and>
     (length cells' = unat (ring_size r) \<and> (\<forall>j<n. cells' ! slot r h j = Some (objs ! j))
      \<and> (\<forall>p. (\<forall>j<n. p \<noteq> slot r h j) \<longrightarrow> cells' ! p = cells ! p))"
proof (rule c_for_rule [where I = "\<lambda>m cells'. length cells' = unat (ring_size r)
      \<and> (\<forall>j<m. cells' ! slot r h j = Some (objs ! j))
      \<and> (\<forall>p. (\<forall>j<m. p \<noteq> slot r h j) \<longrightarrow> cells' ! p = cells ! p)"])
  fix i c
  assume i: "i < n" and c: "length c = unat (ring_size r)
      \<and> (\<forall>j<i. c ! slot r h j = Some (objs ! j)) \<and> (\<forall>p. (\<forall>j<i. p \<noteq> slot r h j) \<longrightarrow> c ! p = cells ! p)"
  have lt: "slot r h i < length c"
    using slot_lt [OF wf, of h i] c ring_wf_bounds(4) [OF wf] by simp
  have ne: "slot r h j \<noteq> slot r h i" if "j < i" for j
    using slot_inj [of r h j i] that i n(2) by auto
  show "\<exists>s'. put_cell objs i (slot r h i) c = Inr s' \<and> length s' = unat (ring_size r)
      \<and> (\<forall>j<Suc i. s' ! slot r h j = Some (objs ! j))
      \<and> (\<forall>p. (\<forall>j<Suc i. p \<noteq> slot r h j) \<longrightarrow> s' ! p = cells ! p)"
    using i n(1) c lt ne by (simp add: put_cell_def less_Suc_eq nth_list_update) metis
qed (use len in auto)

lemma rep_sub:
  assumes "ring_rep r q"
  shows "unat (ring_capacity r + tail (cons r) - head (prod r)) = unat (ring_capacity r) - length q"
    and "unat (tail (prod r) - head (cons r)) = length q"
proof -
  have q: "length q \<le> unat (ring_capacity r)" "head (prod r) = tail (cons r) + of_nat (length q)"
    "tail (prod r) - head (cons r) = of_nat (length q)"
    using assms by (simp_all add: ring_rep_def)
  have lt: "length q < 2 ^ LENGTH(32)"
    using q(1) unat_lt2p [of "ring_capacity r"] by simp
  then have u: "unat (of_nat (length q) :: uint32) = length q" by (rule unat_of_nat_eq)
  show "unat (tail (prod r) - head (cons r)) = length q"
    by (simp only: q(3) u)
  have "ring_capacity r + tail (cons r) - head (prod r) = ring_capacity r - of_nat (length q)"
    by (simp add: q(2))
  also have "unat \<dots> = unat (ring_capacity r) - length q"
    using q(1) by (subst unat_sub) (simp_all add: word_le_nat_alt u)
  finally show "unat (ring_capacity r + tail (cons r) - head (prod r)) = unat (ring_capacity r) - length q" .
qed

definition ring_moved :: "rte_ring_queue_behavior \<Rightarrow> nat \<Rightarrow> nat \<Rightarrow> nat" where
  "ring_moved behavior possible n =
     (if n \<le> possible then n else if behavior = RTE_RING_QUEUE_FIXED then 0 else possible)"

lemma ring_moved_le [simp]: "ring_moved behavior possible n \<le> possible" "ring_moved behavior possible n \<le> n"
  by (simp_all add: ring_moved_def)

lemma limit_eq:
  assumes "unat f = p"
  shows "unat (if f < n then (if b = RTE_RING_QUEUE_FIXED then 0 else f) else n) = ring_moved b p (unat n)"
  using assms by (simp add: ring_moved_def word_less_nat_alt)

theorem do_enqueue_rep:
  fixes r :: "'a rte_ring" and b :: rte_ring_queue_behavior and n :: uint32
  assumes rep: "ring_rep r q" and objs: "unat n \<le> length objs"
  defines "m \<equiv> ring_moved b (unat (ring_capacity r) - length q) (unat n)"
  shows "\<exists>r'. do_enqueue r objs n b is_sp = Inr (of_nat m, of_nat (unat (ring_capacity r) - length q - m), r')
    \<and> ring_rep r' (q @ take m objs) \<and> ring_capacity r' = ring_capacity r"
proof -
  let ?free = "ring_capacity r + tail (cons r) - head (prod r)"
  define k where "k = (if ?free < n then (if b = RTE_RING_QUEUE_FIXED then 0 else ?free) else n)"
  have wf: "ring_wf r" and lq: "length q \<le> unat (ring_capacity r)"
    and pt: "head (prod r) = tail (prod r)" "tail (prod r) = tail (cons r) + of_nat (length q)"
      "head (cons r) = tail (cons r)"
    and cells: "\<And>i. i < length q \<Longrightarrow> ring_cells r ! slot r (tail (cons r)) i = Some (q ! i)"
    using rep by (simp_all add: ring_rep_def)
  have free: "unat ?free = unat (ring_capacity r) - length q" by (rule rep_sub [OF rep])
  have k: "unat k = m" unfolding k_def m_def by (rule limit_eq [OF free])
  have m: "m \<le> unat (ring_capacity r) - length q" "m \<le> length objs"
    using objs by (auto simp: m_def intro: order_trans [OF ring_moved_le(2)])
  have qm: "length q + m \<le> unat (ring_capacity r)" using m(1) lq by linarith
  have km: "k = of_nat m" by (metis k of_nat_unat ucast_id)
  have "unat (?free - k) = unat ?free - unat k"
    using m(1) k free by (intro unat_sub) (simp add: word_le_nat_alt)
  then have left: "?free - k = of_nat (unat (ring_capacity r) - length q - m)"
    by (metis free k of_nat_unat ucast_id)
  show ?thesis
  proof (cases "m = 0")
    case True
    then have "k = 0" using km by simp
    then have "do_enqueue r objs n b is_sp = Inr (0, ?free - k, r)"
      unfolding do_enqueue_def move_prod_head_def update_tail_def Let_def k_def by simp
    then show ?thesis using True left km rep by simp
  next
    case False
    then have k0: "k \<noteq> 0" using k by auto
    have mc: "m \<le> unat (ring_size r)" using m(1) ring_wf_bounds(3) [OF wf] by simp
    obtain cs where cs: "c_for 0 m (\<lambda>i. put_cell objs i (slot r (head (prod r)) i)) (ring_cells r) = Inr cs"
      "length cs = unat (ring_size r)" "\<And>j. j < m \<Longrightarrow> cs ! slot r (head (prod r)) j = Some (objs ! j)"
      "\<And>p. (\<And>j. j < m \<Longrightarrow> p \<noteq> slot r (head (prod r)) j) \<Longrightarrow> cs ! p = ring_cells r ! p"
      using put_cells [OF wf m(2) mc ring_wf_bounds(4) [OF wf], of "head (prod r)"] by blast
    have copy: "ring_copy (put_cell objs) (head (prod r) AND ring_mask r) k (ring_size r) (ring_cells r) = Inr cs"
      using cs(1) mc k ring_wf_bounds(1,2,5) [OF wf]
      by (subst ring_copy_eq) (simp_all add: slot_def mod_add_left_eq)
    let ?r' = "r\<lparr>prod := (prod r)\<lparr>head := head (prod r) + k, tail := head (prod r) + k\<rparr>, ring_cells := cs\<rparr>"
    have "do_enqueue r objs n b is_sp = Inr (k, ?free - k, ?r')"
      using k0 copy unfolding do_enqueue_def move_prod_head_def update_tail_def ENQUEUE_PTRS_def Let_def k_def [symmetric]
      by simp
    moreover have "ring_rep ?r' (q @ take m objs)"
    proof -
      have sl: "slot ?r' = slot r" by (simp add: slot_def fun_eq_iff)
      have "cs ! slot r (tail (cons r)) i = Some ((q @ take m objs) ! i)" if i: "i < length q + m" for i
      proof (cases "i < length q")
        case True
        have "slot r (tail (cons r)) i \<noteq> slot r (head (prod r)) j" if "j < m" for j
          using slot_inj [of r "tail (cons r)" i "length q + j"] True that qm ring_wf_bounds(3) [OF wf]
          by (auto simp: pt slot_shift [OF wf])
        then show ?thesis using cs(4) cells [OF True] True by (simp add: nth_append)
      next
        case False
        then have "slot r (tail (cons r)) i = slot r (head (prod r)) (i - length q)"
          by (simp add: pt slot_shift [OF wf])
        then show ?thesis using cs(3) [of "i - length q"] False i by (simp add: nth_append)
      qed
      moreover have "ring_wf ?r'" using wf cs(2) ring_wf_bounds(4) [OF wf] by (simp add: ring_wf_def)
      ultimately show ?thesis
        using m lq unfolding ring_rep_def sl by (simp add: pt km min_absorb2)
    qed
    ultimately show ?thesis using left km by auto
  qed
qed

section \<open>Dequeue\<close>

lemma get_cells:
  assumes "\<And>i. i < m \<Longrightarrow> p i < length cells \<and> cells ! p i = Some (q ! i)" and "m \<le> length q"
  shows "c_for 0 m (\<lambda>i. get_cell cells i (p i)) [] = Inr (take m q)"
proof -
  have "\<exists>xs. c_for 0 m (\<lambda>i. get_cell cells i (p i)) [] = Inr xs \<and> xs = take m q"
    by (rule c_for_rule [where I = "\<lambda>i xs. xs = take i q"])
       (use assms in \<open>auto simp: get_cell_def take_Suc_conv_app_nth\<close>)
  then show ?thesis by simp
qed

theorem do_dequeue_rep:
  fixes r :: "'a rte_ring" and b :: rte_ring_queue_behavior and n :: uint32
  assumes rep: "ring_rep r q"
  defines "m \<equiv> ring_moved b (length q) (unat n)"
  shows "\<exists>r'. do_dequeue r n b is_sc = Inr (take m q, of_nat (length q - m), r')
    \<and> ring_rep r' (drop m q) \<and> ring_capacity r' = ring_capacity r"
proof -
  let ?entries = "tail (prod r) - head (cons r)"
  define k where "k = (if ?entries < n then (if b = RTE_RING_QUEUE_FIXED then 0 else ?entries) else n)"
  have wf: "ring_wf r" and lq: "length q \<le> unat (ring_capacity r)"
    and pt: "head (prod r) = tail (prod r)" "tail (prod r) = tail (cons r) + of_nat (length q)"
      "head (cons r) = tail (cons r)"
    and cells: "\<And>i. i < length q \<Longrightarrow> ring_cells r ! slot r (tail (cons r)) i = Some (q ! i)"
    using rep by (simp_all add: ring_rep_def)
  have entries: "unat ?entries = length q" by (rule rep_sub [OF rep])
  have k: "unat k = m" unfolding k_def m_def by (rule limit_eq [OF entries])
  have m: "m \<le> length q" by (simp add: m_def)
  have km: "k = of_nat m" by (metis k of_nat_unat ucast_id)
  have "unat (?entries - k) = unat ?entries - unat k"
    using m k entries by (intro unat_sub) (simp add: word_le_nat_alt)
  then have left: "?entries - k = of_nat (length q - m)"
    by (metis entries k of_nat_unat ucast_id)
  show ?thesis
  proof (cases "m = 0")
    case True
    then have "k = 0" using km by simp
    then have "do_dequeue r n b is_sc = Inr ([], ?entries - k, r)"
      unfolding do_dequeue_def move_cons_head_def update_tail_def Let_def k_def by simp
    then show ?thesis using True left rep by simp
  next
    case False
    then have k0: "k \<noteq> 0" using k by auto
    have mc: "m \<le> unat (ring_size r)" using m lq ring_wf_bounds(3) [OF wf] by simp
    have copy: "ring_copy (get_cell (ring_cells r)) (head (cons r) AND ring_mask r) k (ring_size r) [] = Inr (take m q)"
      using mc k ring_wf_bounds(1,2,5) [OF wf] get_cells [of m "slot r (head (cons r))" "ring_cells r" q]
        m cells slot_lt [OF wf]
      by (subst ring_copy_eq) (simp_all add: slot_def mod_add_left_eq pt)
    let ?r' = "r\<lparr>cons := (cons r)\<lparr>head := head (cons r) + k, tail := head (cons r) + k\<rparr>\<rparr>"
    have "do_dequeue r n b is_sc = Inr (take m q, ?entries - k, ?r')"
      using k0 copy unfolding do_dequeue_def move_cons_head_def update_tail_def DEQUEUE_PTRS_def Let_def k_def [symmetric]
      by simp
    moreover have "ring_rep ?r' (drop m q)"
    proof -
      have sl: "slot ?r' = slot r" by (simp add: slot_def fun_eq_iff)
      have "ring_cells r ! slot r (tail (cons r) + k) i = Some (drop m q ! i)" if "i < length q - m" for i
        using that m cells [of "m + i"] by (simp add: km slot_shift [OF wf])
      moreover have "ring_wf ?r'" using wf by (simp add: ring_wf_def)
      moreover have "tail (cons r) + k + of_nat (length q - m) = tail (prod r)"
        using m by (simp add: pt km of_nat_diff)
      ultimately show ?thesis
        using m lq unfolding ring_rep_def sl by (simp add: pt)
    qed
    ultimately show ?thesis using left by auto
  qed
qed

section \<open>Counting\<close>

lemma rte_ring_count_rep:
  assumes "ring_rep r q"
  shows "rte_ring_count r = of_nat (length q)" and "unat (rte_ring_count r) = length q"
proof -
  have wf: "ring_wf r" and lq: "length q \<le> unat (ring_capacity r)"
    and e: "tail (prod r) - tail (cons r) = of_nat (length q)"
    using assms by (simp_all add: ring_rep_def)
  have u: "unat (of_nat (length q) :: uint32) = length q"
    using lq unat_lt2p [of "ring_capacity r"] by (intro unat_of_nat_eq) simp
  have "unat ((tail (prod r) - tail (cons r)) AND ring_mask r) = length q"
    using lq ring_wf_bounds(3) [OF wf] by (simp add: e ring_wf_bounds(5) [OF wf] u)
  then have "(tail (prod r) - tail (cons r)) AND ring_mask r = of_nat (length q)"
    by (metis of_nat_unat ucast_id)
  then show "rte_ring_count r = of_nat (length q)"
    using lq u by (simp add: rte_ring_count_def Let_def word_less_nat_alt)
  then show "unat (rte_ring_count r) = length q" using u by simp
qed

lemma rte_ring_free_count_rep:
  assumes "ring_rep r q"
  shows "unat (rte_ring_free_count r) = unat (ring_capacity r) - length q"
  using assms rte_ring_count_rep [OF assms]
  by (simp add: rte_ring_free_count_def unat_sub word_le_nat_alt ring_rep_def)

lemma rte_ring_empty_rep: "ring_rep r q \<Longrightarrow> rte_ring_empty r \<longleftrightarrow> q = []"
  using rte_ring_count_rep(2) [of r q] by (auto simp: rte_ring_empty_def unat_eq_0)

lemma rte_ring_full_rep: "ring_rep r q \<Longrightarrow> rte_ring_full r \<longleftrightarrow> length q = unat (ring_capacity r)"
  using rte_ring_free_count_rep [of r q] by (auto simp: rte_ring_full_def unat_eq_0 [symmetric] ring_rep_def)

section \<open>Initialisation\<close>

lemma unat_2p: "k < 32 \<Longrightarrow> unat (2 ^ k :: uint32) = 2 ^ k"
  using unat_of_nat_eq [where 'a=32, of "2 ^ k"] power_strict_increasing [of k 32 "2::nat"] by simp

lemma POWEROF2_iff: "POWEROF2 x \<longleftrightarrow> x = 0 \<or> (\<exists>k<32. x = 2 ^ k)"
proof
  assume p: "POWEROF2 x"
  show "x = 0 \<or> (\<exists>k<32. x = 2 ^ k)"
  proof (cases "x = 0")
    case False
    define m where "m = (LEAST m. unat x < 2 ^ m)"
    have lt: "unat x < 2 ^ m"
      unfolding m_def by (rule LeastI [of _ 32]) (use unat_lt2p [of x] in simp)
    have least: "m \<le> j" if "unat x < 2 ^ j" for j
      unfolding m_def by (rule Least_le) (rule that)
    have m32: "m \<le> 32" by (rule least) (use unat_lt2p [of x] in simp)
    have x0: "0 < unat x" using False by (simp add: unat_gt_0)
    then have m0: "0 < m" using lt by (cases m) auto
    then have ge: "2 ^ (m - 1) \<le> unat x"
      using least [of "m - 1"] by (cases "unat x < 2 ^ (m - 1)") auto
    have lt2: "unat x < 2 * 2 ^ (m - 1)" using lt m0 by (cases m) simp_all
    have "unat x = 2 ^ (m - 1)"
    proof (rule ccontr)
      assume ne: "unat x \<noteq> 2 ^ (m - 1)"
      have "1 \<le> x" using x0 by (simp add: word_le_nat_alt)
      then have u: "unat (x - 1) = unat x - 1" by (simp only: unat_sub unat_1)
      have "unat x div 2 ^ (m - 1) = 1" using ge lt2 by (simp add: div_nat_eqI)
      moreover have "unat (x - 1) div 2 ^ (m - 1) = 1"
        unfolding u using ge lt2 ne by (intro div_nat_eqI) auto
      ultimately have "bit x (m - 1)" "bit (x - 1) (m - 1)" by (simp_all only: bit_word_nat odd_one not_False_eq_True)
      then have "bit ((x - 1) AND x) (m - 1)" by (simp only: bit_and_iff)
      then show False using p by (simp add: POWEROF2_def)
    qed
    then have "unat x = unat (2 ^ (m - 1) :: uint32)" using m32 m0 by (simp add: unat_2p)
    then have "x = 2 ^ (m - 1)" by (rule word_unat_eq_iff [THEN iffD2])
    then show ?thesis using m32 m0 by (intro disjI2 exI [of _ "m - 1"]) auto
  qed simp
next
  assume "x = 0 \<or> (\<exists>k<32. x = 2 ^ k)"
  then show "POWEROF2 x"
  proof
    assume "\<exists>k<32. x = 2 ^ k"
    then obtain k where k: "x = 2 ^ k" by blast
    have "x - 1 = mask k" by (simp add: k mask_eq_exp_minus_1)
    then show ?thesis unfolding POWEROF2_def k
      by (intro bit_eqI) (auto simp: bit_simps)
  qed (simp add: POWEROF2_def)
qed

text \<open>The size and the capacity that \<open>rte_ring_init\<close> gives a ring, and the arguments it is meant for.\<close>

definition init_size :: "uint32 \<Rightarrow> uint32 \<Rightarrow> uint32" where
  "init_size count flags = (if flags AND RING_F_EXACT_SZ \<noteq> 0 then rte_align32pow2 (count + 1) else count)"

definition init_capacity :: "uint32 \<Rightarrow> uint32 \<Rightarrow> uint32" where
  "init_capacity count flags = (if flags AND RING_F_EXACT_SZ \<noteq> 0 then count else count - 1)"

definition init_ok :: "string \<Rightarrow> uint32 \<Rightarrow> uint32 \<Rightarrow> bool" where
  "init_ok name count flags \<longleftrightarrow> length name < RTE_MEMZONE_NAMESIZE \<and>
     (if flags AND RING_F_EXACT_SZ \<noteq> 0 then count < 2 ^ 31
      else count \<noteq> 0 \<and> POWEROF2 count \<and> count \<le> RTE_RING_SZ_MASK)"

lemma init_size_pow2:
  assumes "init_ok name count flags"
  obtains k where "k \<le> 31" "init_size count flags = 2 ^ k" "unat (init_size count flags) = 2 ^ k"
    "unat (init_capacity count flags) < 2 ^ k"
proof (cases "flags AND RING_F_EXACT_SZ = 0")
  case True
  then have c: "count \<noteq> 0" "POWEROF2 count" "unat count \<le> 2 ^ 28"
    using assms by (simp_all add: init_ok_def word_le_nat_alt RTE_RING_SZ_MASK_def)
  then obtain k where k: "k < 32" "count = 2 ^ k" by (auto simp: POWEROF2_iff)
  have u: "unat count = 2 ^ k" using k by (simp add: unat_2p)
  have "1 \<le> count" using u by (simp add: word_le_nat_alt)
  then have "unat (count - 1) = unat count - 1" by (simp only: unat_sub unat_1)
  then show thesis using that [of k] True k u by (simp add: init_size_def init_capacity_def)
next
  case False
  then have c: "count < 2 ^ 31" using assms by (simp add: init_ok_def)
  then have lt: "unat count < 2 ^ 31" by (simp add: word_less_nat_alt)
  then have u: "unat (count + 1) = unat count + 1" by (simp add: unat_word_ariths)
  have "0 < count + 1" "count + 1 \<le> 2 ^ 31"
    using lt u by (simp_all add: word_less_nat_alt word_le_nat_alt)
  then obtain k where k: "k \<le> 31" "rte_align32pow2 (count + 1) = 2 ^ k"
    "unat (rte_align32pow2 (count + 1)) = 2 ^ k" "unat (count + 1) \<le> 2 ^ k"
    using rte_align32pow2_pow2 by blast
  then show thesis using that [of k] False u by (simp add: init_size_def init_capacity_def)
qed

lemma rte_ring_init_rep:
  assumes "init_ok name count flags"
  shows "\<exists>r. rte_ring_init (unat (init_size count flags)) name count flags = (0, Some r)
    \<and> ring_rep r [] \<and> ring_capacity r = init_capacity count flags"
proof -
  obtain k where k: "k \<le> 31" "init_size count flags = 2 ^ k" "unat (init_size count flags) = 2 ^ k"
    "unat (init_capacity count flags) < 2 ^ k" using assms by (rule init_size_pow2)
  let ?r = "\<lparr>ring_name = name, ring_flags = flags, ring_size = init_size count flags,
    ring_mask = init_size count flags - 1, ring_capacity = init_capacity count flags,
    prod = \<lparr>head = 0, tail = 0, single = flags AND RING_F_SP_ENQ \<noteq> 0\<rparr>,
    cons = \<lparr>head = 0, tail = 0, single = flags AND RING_F_SC_DEQ \<noteq> 0\<rparr>,
    ring_cells = replicate (unat (init_size count flags)) None\<rparr>"
  have "rte_ring_init (unat (init_size count flags)) name count flags = (0, Some ?r)"
    using assms unfolding rte_ring_init_def init_ok_def init_size_def init_capacity_def Let_def
    by (auto simp: not_le not_less)
  moreover have "ring_rep ?r []"
    using k by (auto simp: ring_rep_def ring_wf_def mask_eq_exp_minus_1)
  ultimately show ?thesis by auto
qed

section \<open>The ring is a bounded FIFO queue\<close>

text \<open>
  The contract: a bounded sequence, all-or-nothing for \<open>FIXED\<close> and as many as possible for
  \<open>VARIABLE\<close>. \<open>Enqueued\<close> has the number of objects taken and the free space left,
  \<open>Dequeued\<close> the objects and the number left.
\<close>

datatype 'a ring_op =
    Enqueue rte_ring_queue_behavior "'a list"
  | Dequeue rte_ring_queue_behavior uint32

datatype 'a ring_ret = Enqueued uint32 uint32 | Dequeued "'a list" uint32

fun fifo_step :: "nat \<Rightarrow> 'a list \<Rightarrow> 'a ring_op \<Rightarrow> 'a ring_ret \<times> 'a list" where
  "fifo_step capacity q (Enqueue b objs) =
     (let m = ring_moved b (capacity - length q) (unat (of_nat (length objs) :: uint32))
      in (Enqueued (of_nat m) (of_nat (capacity - length q - m)), q @ take m objs))"
| "fifo_step capacity q (Dequeue b n) =
     (let m = ring_moved b (length q) (unat n)
      in (Dequeued (take m q) (of_nat (length q - m)), drop m q))"

fun fifo_run :: "nat \<Rightarrow> 'a list \<Rightarrow> 'a ring_op list \<Rightarrow> 'a ring_ret list \<times> 'a list" where
  "fifo_run capacity q [] = ([], q)"
| "fifo_run capacity q (op # ops) =
     (case fifo_step capacity q op of (out, q) \<Rightarrow>
      case fifo_run capacity q ops of (outs, q) \<Rightarrow> (out # outs, q))"

fun ring_step :: "'a rte_ring \<Rightarrow> 'a ring_op \<Rightarrow> ('a ring_ret \<times> 'a rte_ring) cres" where
  "ring_step r (Enqueue b objs) =
     cbind (case b of RTE_RING_QUEUE_FIXED \<Rightarrow> rte_ring_enqueue_bulk r objs (of_nat (length objs))
                    | RTE_RING_QUEUE_VARIABLE \<Rightarrow> rte_ring_enqueue_burst r objs (of_nat (length objs)))
       (\<lambda>(n, free_space, r). Inr (Enqueued n free_space, r))"
| "ring_step r (Dequeue b n) =
     cbind (case b of RTE_RING_QUEUE_FIXED \<Rightarrow> rte_ring_dequeue_bulk r n
                    | RTE_RING_QUEUE_VARIABLE \<Rightarrow> rte_ring_dequeue_burst r n)
       (\<lambda>(objs, available, r). Inr (Dequeued objs available, r))"

locale bounded_queue =
  fixes rep :: "'s \<Rightarrow> 'a list \<Rightarrow> bool"
    and capacity :: "'s \<Rightarrow> nat"
    and step :: "'s \<Rightarrow> 'a ring_op \<Rightarrow> ('a ring_ret \<times> 's) cres"
  assumes rep_le: "rep s q \<Longrightarrow> length q \<le> capacity s"
    and step_refines: "rep s q \<Longrightarrow> fifo_step (capacity s) q op = (out, q') \<Longrightarrow>
      \<exists>s'. step s op = Inr (out, s') \<and> rep s' q' \<and> capacity s' = capacity s"
begin

lemma run_refines:
  "rep s q \<Longrightarrow> fifo_run (capacity s) q ops = (outs, q') \<Longrightarrow>
   \<exists>s'. run_ops step s ops = Inr (outs, s') \<and> rep s' q' \<and> capacity s' = capacity s"
proof (induction ops arbitrary: s q outs)
  case (Cons op ops)
  obtain out q1 where 1: "fifo_step (capacity s) q op = (out, q1)" by fastforce
  obtain outs1 where 2: "fifo_run (capacity s) q1 ops = (outs1, q')" "outs = out # outs1"
    using Cons.prems(2) 1 by (auto split: prod.splits)
  obtain s1 where s1: "step s op = Inr (out, s1)" "rep s1 q1" "capacity s1 = capacity s"
    using step_refines [OF Cons.prems(1) 1] by blast
  have "fifo_run (capacity s1) q1 ops = (outs1, q')" using 2(1) s1(3) by simp
  from Cons.IH [OF s1(2) this] show ?case using s1 2(2) by auto
qed simp

lemma run_bounded:
  "rep s q \<Longrightarrow> fifo_run (capacity s) q ops = (outs, q') \<Longrightarrow> length q' \<le> capacity s"
  using run_refines rep_le by metis

end

lemma ring_step_refines:
  assumes rep: "ring_rep r q" and f: "fifo_step (unat (ring_capacity r)) q op = (out, q')"
  shows "\<exists>r'. ring_step r op = Inr (out, r') \<and> ring_rep r' q' \<and> ring_capacity r' = ring_capacity r"
proof (cases op)
  case (Enqueue b objs)
  have le: "unat (of_nat (length objs) :: uint32) \<le> length objs"
    by (simp add: unsigned_of_nat take_bit_eq_mod)
  obtain r' where "do_enqueue r objs (of_nat (length objs)) b (single (prod r)) = Inr (case out of Enqueued n s \<Rightarrow> (n, s, r'))"
    "ring_rep r' q'" "ring_capacity r' = ring_capacity r" "\<exists>n s. out = Enqueued n s"
    using do_enqueue_rep [OF rep le, where b = b and is_sp = "single (prod r)"] f Enqueue by (auto simp: Let_def)
  then show ?thesis using Enqueue
    by (cases b) (auto simp: rte_ring_enqueue_bulk_def rte_ring_enqueue_burst_def)
next
  case (Dequeue b n)
  obtain r' where "do_dequeue r n b (single (cons r)) = Inr (case out of Dequeued xs s \<Rightarrow> (xs, s, r'))"
    "ring_rep r' q'" "ring_capacity r' = ring_capacity r" "\<exists>n s. out = Dequeued n s"
    using do_dequeue_rep [OF rep, where b = b and n = n and is_sc = "single (cons r)"] f Dequeue by (auto simp: Let_def)
  then show ?thesis using Dequeue
    by (cases b) (auto simp: rte_ring_dequeue_bulk_def rte_ring_dequeue_burst_def)
qed

interpretation rq: bounded_queue ring_rep "\<lambda>r. unat (ring_capacity r)" ring_step
proof unfold_locales
  show "length q \<le> unat (ring_capacity r)" if "ring_rep r q" for r :: "'a rte_ring" and q
    using that by (simp add: ring_rep_def)
  show "\<exists>r'. ring_step r op = Inr (out, r') \<and> ring_rep r' q' \<and> unat (ring_capacity r') = unat (ring_capacity r)"
    if "ring_rep r q" "fifo_step (unat (ring_capacity r)) q op = (out, q')" for r :: "'a rte_ring" and q op out q'
    using ring_step_refines [OF that] by auto
qed

text \<open>
  C4. A ring initialised with a power of two up to the size limit, or with the exact-size
  flag and any count below \<open>2 ^ 31\<close>, is a bounded FIFO queue: whatever sequence of bulk and
  burst operations runs on it, no access leaves the object table or reads an uninitialised
  slot, and every result is that of a list of at most \<open>capacity\<close> objects that is appended at
  one end and consumed at the other, also when the 32-bit indices wrap around.
\<close>

theorem ring_is_bounded_fifo:
  assumes "init_ok name count flags"
  shows "\<exists>r :: 'a rte_ring. rte_ring_init (unat (init_size count flags)) name count flags = (0, Some r) \<and>
    (\<forall>ops. \<exists>r'. run_ops ring_step r ops = Inr (fst (fifo_run (unat (init_capacity count flags)) [] ops), r')
       \<and> ring_rep r' (snd (fifo_run (unat (init_capacity count flags)) [] ops)))"
proof -
  obtain r :: "'a rte_ring" where r: "rte_ring_init (unat (init_size count flags)) name count flags = (0, Some r)"
    "ring_rep r []" "ring_capacity r = init_capacity count flags"
    using rte_ring_init_rep [OF assms] by blast
  have "\<exists>r'. run_ops ring_step r ops = Inr (fst (fifo_run (unat (init_capacity count flags)) [] ops), r')
       \<and> ring_rep r' (snd (fifo_run (unat (init_capacity count flags)) [] ops))" for ops
    using rq.run_refines [OF r(2), of ops] r(3) by (metis prod.collapse)
  then show ?thesis using r(1) by blast
qed

theorem ring_is_bounded_fifo_witness:
  "\<exists>r. rte_ring_init 4 ''r'' 4 0 = (0, Some r) \<and>
    (\<exists>r'. run_ops ring_step r [Enqueue RTE_RING_QUEUE_VARIABLE [10, 11, 12, 13 :: nat],
             Dequeue RTE_RING_QUEUE_FIXED 2, Dequeue RTE_RING_QUEUE_FIXED 2]
       = Inr ([Enqueued 3 0, Dequeued [10, 11] 1, Dequeued [] 1], r'))"
proof -
  have ok: "init_ok ''r'' 4 0" "unat (init_size 4 0) = 4" "unat (init_capacity 4 0) = 3"
    by (simp_all add: init_ok_def init_size_def init_capacity_def c_defs POWEROF2_def)
  have q: "fst (fifo_run 3 [] [Enqueue RTE_RING_QUEUE_VARIABLE [10, 11, 12, 13 :: nat],
             Dequeue RTE_RING_QUEUE_FIXED 2, Dequeue RTE_RING_QUEUE_FIXED 2])
     = [Enqueued 3 0, Dequeued [10, 11] 1, Dequeued [] 1]"
    by (simp add: ring_moved_def Let_def)
  show ?thesis
    using ring_is_bounded_fifo [OF ok(1), where 'a = nat] unfolding ok(2,3) q [symmetric] by metis
qed

text \<open>
  C26. For \<open>0 < x \<le> 2\<^sup>3\<^sup>1\<close>, \<open>rte_align32pow2 x\<close> is the least power of two that is at
  least \<open>x\<close>.  For every other argument, zero and those above \<open>2\<^sup>3\<^sup>1\<close>, the sum wraps around and the
  result is 0.
\<close>

theorem rte_align32pow2_least:
  "if 0 < x \<and> x \<le> 2 ^ 31
   then \<exists>k\<le>31. unat (rte_align32pow2 x) = 2 ^ k \<and> unat x \<le> 2 ^ k
          \<and> (\<forall>j. unat x \<le> 2 ^ j \<longrightarrow> k \<le> j)
   else rte_align32pow2 x = 0"
proof (cases "0 < x \<and> x \<le> 2 ^ 31")
  case True
  then show ?thesis using rte_align32pow2_pow2 [of x] by (simp only: if_True simp_thms) blast
next
  case False
  then show ?thesis using rte_align32pow2_wraps [of x] by (simp only: if_False simp_thms)
qed

theorem rte_align32pow2_least_witness:
  "unat (rte_align32pow2 5) = 8 \<and> rte_align32pow2 0 = 0 \<and> rte_align32pow2 (2 ^ 31 + 1) = 0
   \<and> (\<exists>k\<le>31. unat (rte_align32pow2 5) = 2 ^ k \<and> unat (5 :: uint32) \<le> 2 ^ k
        \<and> (\<forall>j. unat (5 :: uint32) \<le> 2 ^ j \<longrightarrow> k \<le> j))"
proof -
  have "(0 :: uint32) < 5" "(5 :: uint32) \<le> 2 ^ 31" "\<not> (2 ^ 31 + 1 :: uint32) \<le> 2 ^ 31" by simp_all
  moreover have "unat (rte_align32pow2 5) = 8" by code_simp
  ultimately show ?thesis
    using rte_align32pow2_least [of 5] rte_align32pow2_least [of 0] rte_align32pow2_least [of "2 ^ 31 + 1"]
    by (simp only: if_True if_False simp_thms less_irrefl)
qed

text \<open>
  C27. A count of 0 passes the power-of-two test, so that \<open>rte_ring_init\<close> succeeds on memory
  sized for no object at all; the ring it makes claims a capacity of \<open>2 ^ 32 - 1\<close>, and the
  first object enqueued is written past the end of it.
\<close>

theorem ring_count_zero_accepted:
  assumes "length name < RTE_MEMZONE_NAMESIZE" and "flags AND RING_F_EXACT_SZ = 0"
  shows "rte_ring_get_memsize 0 = int SIZEOF_RTE_RING \<and>
    (\<exists>r :: 'a rte_ring. rte_ring_init 0 name 0 flags = (0, Some r) \<and> unat (ring_capacity r) = 2 ^ 32 - 1
       \<and> (\<forall>obj. rte_ring_enqueue r obj = Inl Out_of_bounds))"
proof -
  let ?ht = "\<lambda>s. \<lparr>head = 0, tail = 0, single = s\<rparr>"
  let ?r = "\<lparr>ring_name = name, ring_flags = flags, ring_size = 0, ring_mask = -1, ring_capacity = -1,
    prod = ?ht (flags AND RING_F_SP_ENQ \<noteq> 0), cons = ?ht (flags AND RING_F_SC_DEQ \<noteq> 0), ring_cells = []\<rparr> :: 'a rte_ring"
  have "rte_ring_init 0 name 0 flags = (0, Some ?r)"
    using assms by (simp add: rte_ring_init_def POWEROF2_def Let_def RTE_RING_SZ_MASK_def)
  moreover have "rte_ring_enqueue ?r obj = Inl Out_of_bounds" for obj
  proof -
    have s: "c_for 0 (Suc 0) f s = f 0 s" for f :: "nat \<Rightarrow> 's \<Rightarrow> 's cres" and s
      by (cases "f 0 s") (simp_all add: c_for_def)
    show ?thesis
      by (simp add: rte_ring_enqueue_def enqueue_ret_def rte_ring_enqueue_bulk_def do_enqueue_def move_prod_head_def
          Let_def ENQUEUE_PTRS_def ring_copy_def put_cell_def s)
  qed
  moreover have "unat (ring_capacity ?r) = 2 ^ 32 - 1"
    by (simp add: unsigned_minus_1_eq_mask mask_eq_exp_minus_1)
  moreover have "rte_ring_get_memsize 0 = int SIZEOF_RTE_RING"
    by (simp add: rte_ring_get_memsize_def POWEROF2_def rte_align_def c_defs)
  ultimately show ?thesis by blast
qed

theorem ring_count_zero_accepted_witness:
  "\<exists>r. rte_ring_init 0 ''r'' 0 0 = (0, Some r) \<and> rte_ring_enqueue r (7 :: nat) = Inl Out_of_bounds"
  using ring_count_zero_accepted [of "''r''" 0, where 'a = nat] by (auto simp: c_defs)

end
