(* ===== verification/Mempool.thy ===== *)
theory Mempool
  imports Ring "HOL-Library.Multiset"
begin

text \<open>
  The object pools of \<^verbatim>\<open>dpdk/lib/librte_mempool\<close> with the ring driver of
  \<^verbatim>\<open>dpdk/drivers/mempool/ring\<close>: a ring of free objects, reached through a table of
  operations, and in front of it one cache of objects per lcore. Objects are addresses. The
  allocators of the environment abstraction layer are the parameter \<open>eal_env\<close>.
  The debug build (cookies and statistics) is not modelled: it is off in the configuration.
\<close>

section \<open>Data\<close>

type_synonym addr = nat

definition RTE_MEMPOOL_CACHE_MAX_SIZE :: nat where [c_defs]: "RTE_MEMPOOL_CACHE_MAX_SIZE = 512"
definition RTE_MAX_LCORE :: nat where [c_defs]: "RTE_MAX_LCORE = 128"
definition RTE_MEMPOOL_ALIGN :: nat where [c_defs]: "RTE_MEMPOOL_ALIGN = RTE_CACHE_LINE_SIZE"
definition RTE_MEMPOOL_MZ_PREFIX :: string where [c_defs]: "RTE_MEMPOOL_MZ_PREFIX = ''MP_''"
definition RTE_RING_MZ_PREFIX :: string where [c_defs]: "RTE_RING_MZ_PREFIX = ''RG_''"
definition RTE_RING_NAMESIZE :: nat where [c_defs]:
  "RTE_RING_NAMESIZE = RTE_MEMZONE_NAMESIZE - (length RTE_RING_MZ_PREFIX + 1) + 1"
definition RTE_MEMPOOL_MAX_OPS_IDX :: nat where [c_defs]: "RTE_MEMPOOL_MAX_OPS_IDX = 16"
definition RTE_MEMPOOL_OPS_NAMESIZE :: nat where [c_defs]: "RTE_MEMPOOL_OPS_NAMESIZE = 32"
definition SIZEOF_OBJHDR :: nat where [c_defs]: "SIZEOF_OBJHDR = 24"

definition MEMPOOL_F_NO_SPREAD :: uint32 where [c_defs]: "MEMPOOL_F_NO_SPREAD = 0x0001"
definition MEMPOOL_F_NO_CACHE_ALIGN :: uint32 where [c_defs]: "MEMPOOL_F_NO_CACHE_ALIGN = 0x0002"
definition MEMPOOL_F_SP_PUT :: uint32 where [c_defs]: "MEMPOOL_F_SP_PUT = 0x0004"
definition MEMPOOL_F_SC_GET :: uint32 where [c_defs]: "MEMPOOL_F_SC_GET = 0x0008"
definition MEMPOOL_F_POOL_CREATED :: uint32 where [c_defs]: "MEMPOOL_F_POOL_CREATED = 0x0010"
definition MEMPOOL_F_NO_PHYS_CONTIG :: uint32 where [c_defs]: "MEMPOOL_F_NO_PHYS_CONTIG = 0x0020"

definition ENOMEM :: int where [c_defs]: "ENOMEM = 12"
definition EEXIST :: int where [c_defs]: "EEXIST = 17"
definition ENOSPC :: int where [c_defs]: "ENOSPC = 28"

record rte_mempool_cache =
  cache_sz :: uint32
  flushthresh :: uint32
  cache_len :: uint32
  cache_objs :: "addr option list"

record rte_mempool_objsz =
  objsz_elt :: uint32
  objsz_header :: uint32
  objsz_trailer :: uint32
  objsz_total :: uint32

text \<open>The physical address is \<open>None\<close> for \<open>RTE_BAD_PHYS_ADDR\<close>.\<close>

record rte_mempool_objhdr =
  hdr_obj :: addr
  hdr_physaddr :: "nat option"

record rte_mempool_memhdr =
  mem_addr :: addr
  mem_phys :: "nat option"
  mem_len :: nat
  mem_free_cb :: bool

record rte_mempool =
  mp_name :: string
  pool_data :: "addr rte_ring option"
  mp_flags :: uint32
  mp_size :: uint32
  mp_cache_size :: uint32
  mp_elt_size :: uint32
  mp_header_size :: uint32
  mp_trailer_size :: uint32
  private_data_size :: uint32
  ops_index :: nat
  local_cache :: "rte_mempool_cache list"
  populated_size :: uint32
  elt_list :: "rte_mempool_objhdr list"
  nb_mem_chunks :: uint32
  mem_list :: "rte_mempool_memhdr list"

record rte_memzone =
  mz_addr :: addr
  mz_phys_addr :: nat
  mz_len :: nat

text \<open>
  What the pool code uses of the environment abstraction layer: whether \<open>rte_zmalloc\<close> of the
  named object succeeds, \<open>rte_memzone_reserve_aligned\<close> with the value of \<open>rte_errno\<close> when it
  fails, the virtual to physical translation, the page size and the platform tests.
\<close>

record eal_env =
  zmalloc_ok :: "string \<Rightarrow> bool"
  memzone_reserve :: "string \<Rightarrow> nat \<Rightarrow> nat \<Rightarrow> int + rte_memzone"
  virt2phy :: "addr \<Rightarrow> nat option"
  page_size :: nat
  has_hugepages :: bool
  xen_dom0_supported :: bool
  memory_nchannel :: uint32
  memory_nrank :: uint32

section \<open>Creating a ring\<close>

text \<open>The value of \<open>rte_errno\<close>, or the ring.\<close>

definition rte_ring_create :: "eal_env \<Rightarrow> string \<Rightarrow> uint32 \<Rightarrow> uint32 \<Rightarrow> int + 'a rte_ring" where
  "rte_ring_create env name requested_count flags =
     (let count = (if flags AND RING_F_EXACT_SZ \<noteq> 0 then rte_align32pow2 (requested_count + 1) else requested_count);
          sz = rte_ring_get_memsize count;
          mz_name = RTE_RING_MZ_PREFIX @ name
      in if sz < 0 then Inl sz
         else if RTE_MEMZONE_NAMESIZE \<le> length mz_name then Inl ENAMETOOLONG
         else if \<not> zmalloc_ok env ''RING_TAILQ_ENTRY'' then Inl ENOMEM
         else (case memzone_reserve env mz_name (nat sz) RTE_CACHE_LINE_SIZE of
                 Inl e \<Rightarrow> Inl e
               | Inr mz \<Rightarrow> (case rte_ring_init (unat count) name requested_count flags of
                              (_, Some r) \<Rightarrow> Inr r
                            | (e, None) \<Rightarrow> Inl e)))"

text \<open>
  The source does not look at what \<open>rte_ring_init\<close> returns, since the arguments are checked
  already: the case of a failing \<open>rte_ring_init\<close> above is never reached.
\<close>

lemma rte_ring_create_init_ok:
  assumes "\<not> rte_ring_get_memsize cnt < 0" and "\<not> RTE_MEMZONE_NAMESIZE \<le> length (RTE_RING_MZ_PREFIX @ name)"
    and "cnt = (if flags AND RING_F_EXACT_SZ \<noteq> 0 then rte_align32pow2 (requested_count + 1) else requested_count)"
  shows "\<exists>r. rte_ring_init (unat cnt) name requested_count flags = (0, Some r)"
  using assms by (auto simp: rte_ring_init_def rte_ring_get_memsize_def EINVAL_def Let_def split: if_splits)

section \<open>Operations of the ring driver\<close>

definition pool_ring :: "rte_mempool \<Rightarrow> addr rte_ring cres" where
  "pool_ring mp = (case pool_data mp of None \<Rightarrow> Inl Null_deref | Some r \<Rightarrow> Inr r)"

definition ring_put_ret ::
  "rte_mempool \<Rightarrow> (uint32 \<times> uint32 \<times> addr rte_ring) cres \<Rightarrow> (int \<times> rte_mempool) cres" where
  "ring_put_ret mp m = cbind m (\<lambda>(n, free_space, r).
     Inr (if n = 0 then - ENOBUFS else 0, mp\<lparr>pool_data := Some r\<rparr>))"

definition ring_get_ret ::
  "rte_mempool \<Rightarrow> (addr list \<times> uint32 \<times> addr rte_ring) cres \<Rightarrow> (int \<times> addr list \<times> rte_mempool) cres" where
  "ring_get_ret mp m = cbind m (\<lambda>(objs, available, r).
     Inr (if objs = [] then - ENOBUFS else 0, objs, mp\<lparr>pool_data := Some r\<rparr>))"

definition common_ring_mp_enqueue where
  "common_ring_mp_enqueue mp obj_table n =
     cbind (pool_ring mp) (\<lambda>r. ring_put_ret mp (rte_ring_mp_enqueue_bulk r obj_table n))"

definition common_ring_sp_enqueue where
  "common_ring_sp_enqueue mp obj_table n =
     cbind (pool_ring mp) (\<lambda>r. ring_put_ret mp (rte_ring_sp_enqueue_bulk r obj_table n))"

definition common_ring_mc_dequeue where
  "common_ring_mc_dequeue mp n =
     cbind (pool_ring mp) (\<lambda>r. ring_get_ret mp (rte_ring_mc_dequeue_bulk r n))"

definition common_ring_sc_dequeue where
  "common_ring_sc_dequeue mp n =
     cbind (pool_ring mp) (\<lambda>r. ring_get_ret mp (rte_ring_sc_dequeue_bulk r n))"

definition common_ring_get_count :: "rte_mempool \<Rightarrow> uint32 cres" where
  "common_ring_get_count mp = cbind (pool_ring mp) (\<lambda>r. Inr (rte_ring_count r))"

definition common_ring_alloc :: "eal_env \<Rightarrow> rte_mempool \<Rightarrow> int \<times> rte_mempool" where
  "common_ring_alloc env mp =
     (let rg_name = RTE_MEMPOOL_MZ_PREFIX @ mp_name mp;
          rg_flags = (if mp_flags mp AND MEMPOOL_F_SP_PUT \<noteq> 0 then RING_F_SP_ENQ else 0)
                     OR (if mp_flags mp AND MEMPOOL_F_SC_GET \<noteq> 0 then RING_F_SC_DEQ else 0)
      in if RTE_RING_NAMESIZE \<le> length rg_name then (- ENAMETOOLONG, mp)
         else (case rte_ring_create env rg_name (rte_align32pow2 (mp_size mp + 1)) rg_flags of
                 Inl e \<Rightarrow> (- e, mp)
               | Inr r \<Rightarrow> (0, mp\<lparr>pool_data := Some r\<rparr>)))"

definition common_ring_free :: "rte_mempool \<Rightarrow> rte_mempool" where
  "common_ring_free mp = mp\<lparr>pool_data := None\<rparr>"

section \<open>The table of operations\<close>

record rte_mempool_ops =
  ops_name :: string
  alloc_fn :: "eal_env \<Rightarrow> rte_mempool \<Rightarrow> int \<times> rte_mempool"
  free_fn :: "rte_mempool \<Rightarrow> rte_mempool"
  enqueue_fn :: "rte_mempool \<Rightarrow> addr list \<Rightarrow> uint32 \<Rightarrow> (int \<times> rte_mempool) cres"
  dequeue_fn :: "rte_mempool \<Rightarrow> uint32 \<Rightarrow> (int \<times> addr list \<times> rte_mempool) cres"
  get_count_fn :: "rte_mempool \<Rightarrow> uint32 cres"

text \<open>
  A structure without callbacks (\<open>-EINVAL\<close>) has no value of this type; the index or the
  error, and the table.
\<close>

definition rte_mempool_register_ops :: "rte_mempool_ops \<Rightarrow> rte_mempool_ops list \<Rightarrow> int \<times> rte_mempool_ops list" where
  "rte_mempool_register_ops h ops =
     (if RTE_MEMPOOL_MAX_OPS_IDX \<le> length ops then (- ENOSPC, ops)
      else if RTE_MEMPOOL_OPS_NAMESIZE - 1 \<le> length (ops_name h) then (- EEXIST, ops)
      else (int (length ops), ops @ [h]))"

definition ops_mp_mc :: rte_mempool_ops where
  "ops_mp_mc = \<lparr>ops_name = ''ring_mp_mc'', alloc_fn = common_ring_alloc, free_fn = common_ring_free,
     enqueue_fn = common_ring_mp_enqueue, dequeue_fn = common_ring_mc_dequeue, get_count_fn = common_ring_get_count\<rparr>"

definition ops_sp_sc :: rte_mempool_ops where
  "ops_sp_sc = \<lparr>ops_name = ''ring_sp_sc'', alloc_fn = common_ring_alloc, free_fn = common_ring_free,
     enqueue_fn = common_ring_sp_enqueue, dequeue_fn = common_ring_sc_dequeue, get_count_fn = common_ring_get_count\<rparr>"

definition ops_mp_sc :: rte_mempool_ops where
  "ops_mp_sc = \<lparr>ops_name = ''ring_mp_sc'', alloc_fn = common_ring_alloc, free_fn = common_ring_free,
     enqueue_fn = common_ring_mp_enqueue, dequeue_fn = common_ring_sc_dequeue, get_count_fn = common_ring_get_count\<rparr>"

definition ops_sp_mc :: rte_mempool_ops where
  "ops_sp_mc = \<lparr>ops_name = ''ring_sp_mc'', alloc_fn = common_ring_alloc, free_fn = common_ring_free,
     enqueue_fn = common_ring_sp_enqueue, dequeue_fn = common_ring_mc_dequeue, get_count_fn = common_ring_get_count\<rparr>"

definition rte_mempool_ops_table :: "rte_mempool_ops list" where
  "rte_mempool_ops_table =
     foldl (\<lambda>ops h. snd (rte_mempool_register_ops h ops)) [] [ops_mp_mc, ops_sp_sc, ops_mp_sc, ops_sp_mc]"

text \<open>Outside the table \<open>RTE_VERIFY\<close> ends the process; an unused entry has null callbacks.\<close>

definition rte_mempool_get_ops :: "nat \<Rightarrow> rte_mempool_ops cres" where
  "rte_mempool_get_ops idx =
     (if RTE_MEMPOOL_MAX_OPS_IDX \<le> idx then Inl Exit_failure
      else if length rte_mempool_ops_table \<le> idx then Inl Null_deref
      else Inr (rte_mempool_ops_table ! idx))"

definition rte_mempool_ops_alloc :: "eal_env \<Rightarrow> rte_mempool \<Rightarrow> (int \<times> rte_mempool) cres" where
  "rte_mempool_ops_alloc env mp = cbind (rte_mempool_get_ops (ops_index mp)) (\<lambda>ops. Inr (alloc_fn ops env mp))"

definition rte_mempool_ops_free :: "rte_mempool \<Rightarrow> rte_mempool cres" where
  "rte_mempool_ops_free mp = cbind (rte_mempool_get_ops (ops_index mp)) (\<lambda>ops. Inr (free_fn ops mp))"

definition rte_mempool_ops_enqueue_bulk :: "rte_mempool \<Rightarrow> addr list \<Rightarrow> uint32 \<Rightarrow> (int \<times> rte_mempool) cres" where
  "rte_mempool_ops_enqueue_bulk mp obj_table n =
     cbind (rte_mempool_get_ops (ops_index mp)) (\<lambda>ops. enqueue_fn ops mp obj_table n)"

definition rte_mempool_ops_dequeue_bulk :: "rte_mempool \<Rightarrow> uint32 \<Rightarrow> (int \<times> addr list \<times> rte_mempool) cres" where
  "rte_mempool_ops_dequeue_bulk mp n =
     cbind (rte_mempool_get_ops (ops_index mp)) (\<lambda>ops. dequeue_fn ops mp n)"

definition rte_mempool_ops_get_count :: "rte_mempool \<Rightarrow> uint32 cres" where
  "rte_mempool_ops_get_count mp = cbind (rte_mempool_get_ops (ops_index mp)) (\<lambda>ops. get_count_fn ops mp)"

definition rte_mempool_set_ops_byname :: "rte_mempool \<Rightarrow> string \<Rightarrow> int \<times> rte_mempool" where
  "rte_mempool_set_ops_byname mp name =
     (if mp_flags mp AND MEMPOOL_F_POOL_CREATED \<noteq> 0 then (- EEXIST, mp)
      else let i = length (takeWhile (\<lambda>ops. ops_name ops \<noteq> name) rte_mempool_ops_table)
           in if i = length rte_mempool_ops_table then (- EINVAL, mp)
              else (0, mp\<lparr>ops_index := i\<rparr>))"

section \<open>Caches\<close>

text \<open>\<open>c * 1.5\<close> is exact in double precision; the conversion cuts the fraction off.\<close>

definition CALC_CACHE_FLUSHTHRESH :: "uint32 \<Rightarrow> nat" where
  "CALC_CACHE_FLUSHTHRESH c = 3 * unat c div 2"

definition mempool_cache_init :: "rte_mempool_cache \<Rightarrow> uint32 \<Rightarrow> rte_mempool_cache" where
  "mempool_cache_init cache sz =
     cache\<lparr>cache_sz := sz, flushthresh := of_nat (CALC_CACHE_FLUSHTHRESH sz), cache_len := 0\<rparr>"

definition zeroed_cache :: rte_mempool_cache where
  "zeroed_cache = \<lparr>cache_sz = 0, flushthresh = 0, cache_len = 0,
     cache_objs = replicate (RTE_MEMPOOL_CACHE_MAX_SIZE * 3) None\<rparr>"

definition rte_mempool_cache_create :: "eal_env \<Rightarrow> uint32 \<Rightarrow> int + rte_mempool_cache" where
  "rte_mempool_cache_create env sz =
     (if sz = 0 \<or> RTE_MEMPOOL_CACHE_MAX_SIZE < unat sz then Inl EINVAL
      else if \<not> zmalloc_ok env ''MEMPOOL_CACHE'' then Inl ENOMEM
      else Inr (mempool_cache_init zeroed_cache sz))"

definition rte_mempool_default_cache :: "rte_mempool \<Rightarrow> nat \<Rightarrow> nat option" where
  "rte_mempool_default_cache mp lcore_id =
     (if mp_cache_size mp = 0 then None else if RTE_MAX_LCORE \<le> lcore_id then None else Some lcore_id)"

text \<open>The objects in the cells from \<open>off\<close> on, and a block copy into them.\<close>

definition objs_read :: "addr option list \<Rightarrow> nat \<Rightarrow> nat \<Rightarrow> addr list cres" where
  "objs_read cells off n =
     (if length cells < off + n then Inl Out_of_bounds
      else if None \<in> set (take n (drop off cells)) then Inl Uninit_read
      else Inr (map the (take n (drop off cells))))"

definition objs_write :: "addr option list \<Rightarrow> nat \<Rightarrow> addr list \<Rightarrow> addr option list cres" where
  "objs_write cells off objs =
     (if length cells < off + length objs then Inl Out_of_bounds
      else Inr (take off cells @ map Some objs @ drop (off + length objs) cells))"

definition rte_mempool_cache_flush ::
  "rte_mempool \<Rightarrow> rte_mempool_cache \<Rightarrow> (rte_mempool \<times> rte_mempool_cache) cres" where
  "rte_mempool_cache_flush mp cache =
     cbind (objs_read (cache_objs cache) 0 (unat (cache_len cache))) (\<lambda>objs.
     cbind (rte_mempool_ops_enqueue_bulk mp objs (cache_len cache)) (\<lambda>(ret, mp).
     Inr (mp, cache\<lparr>cache_len := 0\<rparr>)))"

section \<open>Put and get\<close>

definition mempool_generic_put ::
  "rte_mempool \<Rightarrow> addr list \<Rightarrow> uint32 \<Rightarrow> rte_mempool_cache option \<Rightarrow> (rte_mempool \<times> rte_mempool_cache option) cres" where
  "mempool_generic_put mp obj_table n cache =
     (case cache of
        Some c \<Rightarrow>
          if unat n \<le> RTE_MEMPOOL_CACHE_MAX_SIZE then
            if length obj_table < unat n then Inl Out_of_bounds else
            cbind (objs_write (cache_objs c) (unat (cache_len c)) (take (unat n) obj_table)) (\<lambda>cells.
            let c = c\<lparr>cache_objs := cells, cache_len := cache_len c + n\<rparr>
            in if flushthresh c \<le> cache_len c then
                 cbind (objs_read (cache_objs c) (unat (cache_sz c)) (unat (cache_len c - cache_sz c))) (\<lambda>objs.
                 cbind (rte_mempool_ops_enqueue_bulk mp objs (cache_len c - cache_sz c)) (\<lambda>(ret, mp).
                 Inr (mp, Some (c\<lparr>cache_len := cache_sz c\<rparr>))))
               else Inr (mp, Some c))
          else cbind (rte_mempool_ops_enqueue_bulk mp obj_table n) (\<lambda>(ret, mp). Inr (mp, cache))
      | None \<Rightarrow> cbind (rte_mempool_ops_enqueue_bulk mp obj_table n) (\<lambda>(ret, mp). Inr (mp, cache)))"

definition cache_fill :: "rte_mempool_cache \<Rightarrow> uint32 \<Rightarrow> addr list cres" where
  "cache_fill c n =
     c_for 0 (unat n) (\<lambda>index obj_table.
       cbind (objs_read (cache_objs c) (unat (cache_len c - 1 - of_nat index)) 1) (\<lambda>objs.
       Inr (obj_table @ objs))) []"

definition mempool_generic_get ::
  "rte_mempool \<Rightarrow> uint32 \<Rightarrow> rte_mempool_cache option \<Rightarrow> (int \<times> addr list \<times> rte_mempool \<times> rte_mempool_cache option) cres" where
  "mempool_generic_get mp n cache =
     (let ring_dequeue = \<lambda>mp.
            cbind (rte_mempool_ops_dequeue_bulk mp n) (\<lambda>(ret, objs, mp). Inr (ret, objs, mp, cache));
          respond = \<lambda>mp c.
            cbind (cache_fill c n) (\<lambda>objs. Inr (0, objs, mp, Some (c\<lparr>cache_len := cache_len c - n\<rparr>)))
      in case cache of
           None \<Rightarrow> ring_dequeue mp
         | Some c \<Rightarrow>
             if cache_sz c \<le> n then ring_dequeue mp
             else if cache_len c < n then
               (let req = n + (cache_sz c - cache_len c)
                in cbind (rte_mempool_ops_dequeue_bulk mp req) (\<lambda>(ret, objs, mp).
                   if ret < 0 then ring_dequeue mp
                   else cbind (objs_write (cache_objs c) (unat (cache_len c)) objs) (\<lambda>cells.
                        respond mp (c\<lparr>cache_objs := cells, cache_len := cache_len c + req\<rparr>))))
             else respond mp c)"

text \<open>The entry points use the cache of the calling lcore.\<close>

definition cache_at :: "rte_mempool \<Rightarrow> nat option \<Rightarrow> rte_mempool_cache option cres" where
  "cache_at mp i =
     (case i of None \<Rightarrow> Inr None
      | Some i \<Rightarrow> if i < length (local_cache mp) then Inr (Some (local_cache mp ! i)) else Inl Out_of_bounds)"

definition cache_store :: "rte_mempool \<Rightarrow> nat option \<Rightarrow> rte_mempool_cache option \<Rightarrow> rte_mempool" where
  "cache_store mp i cache =
     (case (i, cache) of (Some i, Some c) \<Rightarrow> mp\<lparr>local_cache := (local_cache mp)[i := c]\<rparr> | _ \<Rightarrow> mp)"

definition rte_mempool_put_bulk :: "nat \<Rightarrow> rte_mempool \<Rightarrow> addr list \<Rightarrow> uint32 \<Rightarrow> rte_mempool cres" where
  "rte_mempool_put_bulk lcore_id mp obj_table n =
     (let i = rte_mempool_default_cache mp lcore_id
      in cbind (cache_at mp i) (\<lambda>cache.
         cbind (mempool_generic_put mp obj_table n cache) (\<lambda>(mp, cache).
         Inr (cache_store mp i cache))))"

definition rte_mempool_put :: "nat \<Rightarrow> rte_mempool \<Rightarrow> addr \<Rightarrow> rte_mempool cres" where
  "rte_mempool_put lcore_id mp obj = rte_mempool_put_bulk lcore_id mp [obj] 1"

definition rte_mempool_get_bulk :: "nat \<Rightarrow> rte_mempool \<Rightarrow> uint32 \<Rightarrow> (int \<times> addr list \<times> rte_mempool) cres" where
  "rte_mempool_get_bulk lcore_id mp n =
     (let i = rte_mempool_default_cache mp lcore_id
      in cbind (cache_at mp i) (\<lambda>cache.
         cbind (mempool_generic_get mp n cache) (\<lambda>(ret, objs, mp, cache).
         Inr (ret, objs, cache_store mp i cache))))"

definition rte_mempool_get :: "nat \<Rightarrow> rte_mempool \<Rightarrow> (int \<times> addr list \<times> rte_mempool) cres" where
  "rte_mempool_get lcore_id mp = rte_mempool_get_bulk lcore_id mp 1"

definition rte_mempool_avail_count :: "rte_mempool \<Rightarrow> uint32 cres" where
  "rte_mempool_avail_count mp =
     cbind (rte_mempool_ops_get_count mp) (\<lambda>count.
     if mp_cache_size mp = 0 then Inr count else
     cbind (c_for 0 RTE_MAX_LCORE (\<lambda>lcore_id count.
       if lcore_id < length (local_cache mp)
       then Inr (count + cache_len (local_cache mp ! lcore_id)) else Inl Out_of_bounds) count) (\<lambda>count.
     Inr (if mp_size mp < count then mp_size mp else count)))"

definition rte_mempool_in_use_count :: "rte_mempool \<Rightarrow> uint32 cres" where
  "rte_mempool_in_use_count mp = cbind (rte_mempool_avail_count mp) (\<lambda>count. Inr (mp_size mp - count))"

definition rte_mempool_full :: "rte_mempool \<Rightarrow> bool cres" where
  "rte_mempool_full mp = cbind (rte_mempool_avail_count mp) (\<lambda>count. Inr (count = mp_size mp))"

definition rte_mempool_empty :: "rte_mempool \<Rightarrow> bool cres" where
  "rte_mempool_empty mp = cbind (rte_mempool_avail_count mp) (\<lambda>count. Inr (count = 0))"

definition mempool_audit_cache :: "rte_mempool \<Rightarrow> unit cres" where
  "mempool_audit_cache mp =
     (if mp_cache_size mp = 0 then Inr () else
      c_for 0 RTE_MAX_LCORE (\<lambda>lcore_id u.
        if lcore_id < length (local_cache mp)
        then (if flushthresh (local_cache mp ! lcore_id) < cache_len (local_cache mp ! lcore_id)
              then Inl Exit_failure else Inr ())
        else Inl Out_of_bounds) ())"

section \<open>Object sizes\<close>

function gcd_loop :: "uint32 \<Rightarrow> uint32 \<Rightarrow> uint32" where
  "gcd_loop a b = (if b \<noteq> 0 then gcd_loop b (a mod b) else a)"
  by pat_completeness auto
termination
  by (relation "measure (\<lambda>(a, b). unat b)") (auto simp: unat_mod unat_gt_0)

declare gcd_loop.simps [simp del]

definition get_gcd :: "uint32 \<Rightarrow> uint32 \<Rightarrow> uint32" where
  "get_gcd a b =
     (if a = 0 then b else if b = 0 then a
      else if a < b then gcd_loop b a else gcd_loop a b)"

text \<open>
  The search for a size that is coprime to the number of channels and ranks may not end when
  that number is 0 modulo \<open>2 ^ 32\<close>, hence the fuel; the sizes tried are \<open>uint32\<close>.
\<close>

fun spread_loop :: "nat \<Rightarrow> uint32 \<Rightarrow> uint32 \<Rightarrow> uint32 option" where
  "spread_loop fuel k new_obj_size =
     (if get_gcd new_obj_size k = 1 then Some new_obj_size
      else case fuel of 0 \<Rightarrow> None | Suc fuel \<Rightarrow> spread_loop fuel k (new_obj_size + 1))"

declare spread_loop.simps [simp del]

definition optimize_object_size :: "eal_env \<Rightarrow> nat \<Rightarrow> uint32 \<Rightarrow> uint32 option" where
  "optimize_object_size env fuel obj_size =
     (let nchan = (if memory_nchannel env = 0 then 4 else memory_nchannel env);
          nrank = (if memory_nrank env = 0 then 1 else memory_nrank env);
          new_obj_size = (obj_size + 63) div 64
      in map_option (\<lambda>s. s * 64) (spread_loop fuel (nrank * nchan) new_obj_size))"

definition align32 :: "uint32 \<Rightarrow> nat \<Rightarrow> uint32" where
  "align32 v k = (v + mask k) AND NOT (mask k)"

definition rte_mempool_calc_obj_size :: "eal_env \<Rightarrow> nat \<Rightarrow> uint32 \<Rightarrow> uint32 \<Rightarrow> rte_mempool_objsz option" where
  "rte_mempool_calc_obj_size env fuel elt_size flags =
     (let header = (if flags AND MEMPOOL_F_NO_CACHE_ALIGN = 0
                    then align32 (of_nat SIZEOF_OBJHDR) 6 else of_nat SIZEOF_OBJHDR);
          elt = align32 elt_size 3;
          trailer = (if flags AND MEMPOOL_F_NO_CACHE_ALIGN = 0
                     then (64 - ((header + elt) AND 63)) AND 63 else 0);
          finish = \<lambda>trailer. \<lparr>objsz_elt = elt, objsz_header = header, objsz_trailer = trailer,
                     objsz_total = header + elt + trailer\<rparr>
      in if flags AND MEMPOOL_F_NO_SPREAD = 0
         then map_option (\<lambda>new_size. finish (new_size - header - elt))
                (optimize_object_size env fuel (header + elt + trailer))
         else Some (finish trailer))"

definition rte_mempool_xmem_size :: "nat \<Rightarrow> nat \<Rightarrow> nat \<Rightarrow> nat" where
  "rte_mempool_xmem_size elt_num total_elt_sz pg_shift =
     (if total_elt_sz = 0 then 0
      else if pg_shift = 0 then total_elt_sz * elt_num
      else let pg_sz = 2 ^ pg_shift;
               obj_per_page = pg_sz div total_elt_sz
           in if obj_per_page = 0 then rte_align total_elt_sz pg_sz * elt_num
              else (elt_num + obj_per_page - 1) div obj_per_page * 2 ^ pg_shift)"

text \<open>
  The loop of \<open>rte_mempool_xmem_usage\<close> over a table of page addresses (\<open>None\<close> for contiguous
  memory): either an object fits, or the next page is added, or the number that fits is returned
  as a negative value.
\<close>

function xmem_usage_loop ::
  "nat \<Rightarrow> nat \<Rightarrow> nat list \<Rightarrow> nat \<Rightarrow> nat \<Rightarrow> nat \<Rightarrow> nat \<Rightarrow> nat \<Rightarrow> nat \<Rightarrow> int" where
  "xmem_usage_loop elt_num total_elt_sz paddr pg_num pg_sz elt_cnt start end_addr idx =
     (if elt_cnt < elt_num then
        if total_elt_sz \<le> end_addr - start then
          xmem_usage_loop elt_num total_elt_sz paddr pg_num pg_sz (elt_cnt + 1) (start + total_elt_sz) end_addr idx
        else if idx < pg_num then
          if end_addr = paddr ! idx
          then xmem_usage_loop elt_num total_elt_sz paddr pg_num pg_sz elt_cnt start (end_addr + pg_sz) (idx + 1)
          else xmem_usage_loop elt_num total_elt_sz paddr pg_num pg_sz elt_cnt (paddr ! idx) (paddr ! idx + pg_sz) (idx + 1)
        else - int elt_cnt
      else int (idx * pg_sz))"
  by pat_completeness auto
termination
  by (relation "measure (\<lambda>(elt_num, _, _, pg_num, _, elt_cnt, _, _, idx). (elt_num - elt_cnt) + (pg_num - idx))") auto

declare xmem_usage_loop.simps [simp del]

definition rte_mempool_xmem_usage :: "nat \<Rightarrow> nat \<Rightarrow> nat list option \<Rightarrow> nat \<Rightarrow> nat \<Rightarrow> int" where
  "rte_mempool_xmem_usage elt_num total_elt_sz paddr pg_num pg_shift =
     (let pg_sz = 2 ^ pg_shift
      in case paddr of
           None \<Rightarrow> xmem_usage_loop elt_num total_elt_sz [] pg_num pg_sz 0 0 (pg_sz * pg_num) pg_num
         | Some p \<Rightarrow> xmem_usage_loop elt_num total_elt_sz p pg_num pg_sz 0 (p ! 0) (p ! 0 + pg_sz) 1)"

section \<open>Filling a pool\<close>

definition mempool_add_elem :: "rte_mempool \<Rightarrow> addr \<Rightarrow> nat option \<Rightarrow> rte_mempool cres" where
  "mempool_add_elem mp obj physaddr =
     cbind (rte_mempool_ops_enqueue_bulk
       (mp\<lparr>elt_list := elt_list mp @ [\<lparr>hdr_obj = obj, hdr_physaddr = physaddr\<rparr>],
          populated_size := populated_size mp + 1\<rparr>) [obj] 1) (\<lambda>(ret, mp). Inr mp)"

text \<open>\<open>rte_mempool_obj_iter\<close> with a callback that changes a state of the caller.\<close>

definition rte_mempool_obj_iter ::
  "rte_mempool \<Rightarrow> (rte_mempool \<Rightarrow> addr \<Rightarrow> nat \<Rightarrow> 's \<Rightarrow> 's cres) \<Rightarrow> 's \<Rightarrow> (nat \<times> 's) cres" where
  "rte_mempool_obj_iter mp obj_cb s =
     cbind (c_for 0 (length (elt_list mp)) (\<lambda>n s. obj_cb mp (hdr_obj (elt_list mp ! n)) n s) s) (\<lambda>s.
     Inr (length (elt_list mp), s))"

definition rte_mempool_mem_iter ::
  "rte_mempool \<Rightarrow> (rte_mempool \<Rightarrow> rte_mempool_memhdr \<Rightarrow> nat \<Rightarrow> 's \<Rightarrow> 's cres) \<Rightarrow> 's \<Rightarrow> (nat \<times> 's) cres" where
  "rte_mempool_mem_iter mp mem_cb s =
     cbind (c_for 0 (length (mem_list mp)) (\<lambda>n s. mem_cb mp (mem_list mp ! n) n s) s) (\<lambda>s.
     Inr (length (mem_list mp), s))"

definition free_elt :: "nat \<Rightarrow> rte_mempool \<Rightarrow> rte_mempool cres" where
  "free_elt i mp =
     cbind (rte_mempool_ops_dequeue_bulk mp 1) (\<lambda>(ret, elt, mp).
     Inr (mp\<lparr>elt_list := tl (elt_list mp), populated_size := populated_size mp - 1\<rparr>))"

definition rte_mempool_free_memchunks :: "rte_mempool \<Rightarrow> rte_mempool cres" where
  "rte_mempool_free_memchunks mp =
     cbind (c_for 0 (length (elt_list mp)) free_elt mp) (\<lambda>mp.
     Inr (mp\<lparr>mem_list := [], nb_mem_chunks := nb_mem_chunks mp - of_nat (length (mem_list mp))\<rparr>))"

definition pool_total_elt_sz :: "rte_mempool \<Rightarrow> nat" where
  "pool_total_elt_sz mp = unat (mp_header_size mp + mp_elt_size mp + mp_trailer_size mp)"

lemma ops_table: "rte_mempool_ops_table = [ops_mp_mc, ops_sp_sc, ops_mp_sc, ops_sp_mc]"
  by (simp add: rte_mempool_ops_table_def rte_mempool_register_ops_def ops_mp_mc_def ops_sp_sc_def
      ops_mp_sc_def ops_sp_mc_def c_defs)

lemma get_ops_cases:
  assumes "idx < 4"
  obtains ops where "rte_mempool_get_ops idx = Inr ops" "get_count_fn ops = common_ring_get_count"
    "alloc_fn ops = common_ring_alloc" "free_fn ops = common_ring_free"
    "enqueue_fn ops = common_ring_mp_enqueue \<or> enqueue_fn ops = common_ring_sp_enqueue"
    "dequeue_fn ops = common_ring_mc_dequeue \<or> dequeue_fn ops = common_ring_sc_dequeue"
proof -
  have "idx = 0 \<or> idx = 1 \<or> idx = 2 \<or> idx = 3" using assms by auto
  then show thesis
    by (intro that [of "rte_mempool_ops_table ! idx"])
       (elim disjE; simp add: rte_mempool_get_ops_def ops_table c_defs ops_mp_mc_def ops_sp_sc_def
         ops_mp_sc_def ops_sp_mc_def nth_Cons')+
qed

lemma get_ops_fails: "\<not> idx < 4 \<Longrightarrow> \<exists>e. rte_mempool_get_ops idx = Inl e"
  unfolding rte_mempool_get_ops_def ops_table by simp

lemma enqueue_frame:
  assumes "rte_mempool_ops_enqueue_bulk mp objs n = Inr (ret, mp')"
  shows "\<exists>r. mp' = mp\<lparr>pool_data := Some r\<rparr>"
proof (cases "ops_index mp < 4")
  case True
  then obtain ops where "rte_mempool_get_ops (ops_index mp) = Inr ops"
    "enqueue_fn ops = common_ring_mp_enqueue \<or> enqueue_fn ops = common_ring_sp_enqueue"
    by (rule get_ops_cases)
  then show ?thesis using assms
    by (auto simp: rte_mempool_ops_enqueue_bulk_def common_ring_mp_enqueue_def common_ring_sp_enqueue_def
        ring_put_ret_def cbind_eq_Inr_iff)
next
  case False
  then show ?thesis using assms get_ops_fails [of "ops_index mp"]
    by (auto simp: rte_mempool_ops_enqueue_bulk_def)
qed

lemma unat_plus1:
  fixes x y :: uint32
  assumes "x < y"
  shows "unat (x + 1) = unat x + 1"
proof -
  have "unat x + 1 < 2 ^ 32" using assms unat_lt2p [of y] by (simp add: word_less_nat_alt)
  then show ?thesis by (simp add: unat_word_ariths)
qed

lemma add_elem_frame:
  "mempool_add_elem mp obj p = Inr mp' \<Longrightarrow>
   \<exists>r. mp' = mp\<lparr>elt_list := elt_list mp @ [\<lparr>hdr_obj = obj, hdr_physaddr = p\<rparr>],
            populated_size := populated_size mp + 1, pool_data := Some r\<rparr>"
  by (auto simp: mempool_add_elem_def cbind_eq_Inr_iff dest!: enqueue_frame)

text \<open>The loop that cuts a chunk into objects; \<open>i\<close> counts them.\<close>

function populate_loop :: "addr \<Rightarrow> nat option \<Rightarrow> nat \<Rightarrow> rte_mempool \<Rightarrow> nat \<Rightarrow> nat \<Rightarrow> (nat \<times> rte_mempool) cres" where
  "populate_loop vaddr paddr len mp off i =
     (if off + pool_total_elt_sz mp \<le> len \<and> populated_size mp < mp_size mp then
        let off = off + unat (mp_header_size mp)
        in cbind (mempool_add_elem mp (vaddr + off) (map_option (\<lambda>p. p + off) paddr)) (\<lambda>mp.
           populate_loop vaddr paddr len mp (off + unat (mp_elt_size mp + mp_trailer_size mp)) (i + 1))
      else Inr (i, mp))"
  by pat_completeness auto
termination
proof (relation "measure (\<lambda>(_, _, _, mp, _, _). unat (mp_size mp) - unat (populated_size mp))")
  fix vaddr paddr len mp off i off' mp'
  assume lt: "off + pool_total_elt_sz mp \<le> len \<and> populated_size mp < mp_size mp"
    and add: "mempool_add_elem mp (vaddr + off') (map_option (\<lambda>p. p + off') paddr) = Inr mp'"
  have same: "mp_size mp' = mp_size mp" "populated_size mp' = populated_size mp + 1"
    using add_elem_frame [OF add] by auto
  have "unat (populated_size mp + 1) = unat (populated_size mp) + 1"
    using lt unat_plus1 by blast
  then show "((vaddr, paddr, len, mp', off' + unat (mp_elt_size mp' + mp_trailer_size mp'), i + 1),
      (vaddr, paddr, len, mp, off, i)) \<in> measure (\<lambda>(_, _, _, mp, _, _). unat (mp_size mp) - unat (populated_size mp))"
    using lt by (auto simp: same word_less_nat_alt intro: diff_less_mono2)
qed simp

declare populate_loop.simps [simp del]

definition align_ptr :: "addr \<Rightarrow> nat \<Rightarrow> addr" where
  "align_ptr p a = (p + a - 1) div a * a"

text \<open>The number of objects added or a negative error, and the pool.\<close>

definition rte_mempool_populate_phys ::
  "eal_env \<Rightarrow> rte_mempool \<Rightarrow> addr \<Rightarrow> nat option \<Rightarrow> nat \<Rightarrow> bool \<Rightarrow> (int \<times> rte_mempool) cres" where
  "rte_mempool_populate_phys env mp vaddr paddr len free_cb =
     cbind (if mp_flags mp AND MEMPOOL_F_POOL_CREATED = 0
            then cbind (rte_mempool_ops_alloc env mp) (\<lambda>(ret, mp).
                 Inr (if ret \<noteq> 0 then (ret, mp)
                      else (0, mp\<lparr>mp_flags := mp_flags mp OR MEMPOOL_F_POOL_CREATED\<rparr>)))
            else Inr (0, mp)) (\<lambda>(ret, mp).
     if ret \<noteq> 0 then Inr (ret, mp)
     else if mp_size mp \<le> populated_size mp then Inr (- ENOSPC, mp)
     else if \<not> zmalloc_ok env ''MEMPOOL_MEMHDR'' then Inr (- ENOMEM, mp)
     else let off = align_ptr vaddr (if mp_flags mp AND MEMPOOL_F_NO_CACHE_ALIGN \<noteq> 0 then 8 else 64) - vaddr
          in cbind (populate_loop vaddr paddr len mp off 0) (\<lambda>(i, mp).
             if i = 0 then Inr (- EINVAL, mp)
             else Inr (int i, mp\<lparr>mem_list := mem_list mp @
                        [\<lparr>mem_addr = vaddr, mem_phys = paddr, mem_len = len, mem_free_cb = free_cb\<rparr>],
                      nb_mem_chunks := nb_mem_chunks mp + 1\<rparr>)))"

text \<open>The largest group of contiguous pages from page \<open>i\<close> on has \<open>n\<close> pages.\<close>

function contig_pages :: "nat list \<Rightarrow> nat \<Rightarrow> nat \<Rightarrow> nat \<Rightarrow> nat \<Rightarrow> nat" where
  "contig_pages paddr pg_sz pg_num i n =
     (if i + n < pg_num \<and> paddr ! (i + n - 1) + pg_sz = paddr ! (i + n)
      then contig_pages paddr pg_sz pg_num i (n + 1) else n)"
  by pat_completeness auto
termination by (relation "measure (\<lambda>(_, _, pg_num, i, n). pg_num - (i + n))") auto

declare contig_pages.simps [simp del]

lemma contig_pages_ge: "n \<le> contig_pages paddr pg_sz pg_num i n"
  by (induction paddr pg_sz pg_num i n rule: contig_pages.induct) (subst contig_pages.simps, auto)

function phys_tab_loop ::
  "eal_env \<Rightarrow> addr \<Rightarrow> nat list \<Rightarrow> nat \<Rightarrow> nat \<Rightarrow> rte_mempool \<Rightarrow> bool \<Rightarrow> int \<Rightarrow> nat \<Rightarrow> (int \<times> rte_mempool) cres" where
  "phys_tab_loop env vaddr paddr pg_num pg_sz mp free_cb cnt i =
     (if i < pg_num \<and> populated_size mp < mp_size mp then
        let n = contig_pages paddr pg_sz pg_num i 1
        in cbind (rte_mempool_populate_phys env mp (vaddr + i * pg_sz) (Some (paddr ! i)) (n * pg_sz) free_cb) (\<lambda>(ret, mp).
           if ret < 0 then cbind (rte_mempool_free_memchunks mp) (\<lambda>mp. Inr (ret, mp))
           else phys_tab_loop env vaddr paddr pg_num pg_sz mp False (cnt + ret) (i + n))
      else Inr (cnt, mp))"
  by pat_completeness auto
termination
proof (relation "measure (\<lambda>(_, _, _, pg_num, _, _, _, _, i). pg_num - i)", goal_cases)
  case (2 env vaddr paddr pg_num pg_sz mp free_cb cnt i n)
  then show ?case using contig_pages_ge [of 1 paddr pg_sz pg_num i] by auto
qed simp

declare phys_tab_loop.simps [simp del]

definition rte_mempool_populate_phys_tab ::
  "eal_env \<Rightarrow> rte_mempool \<Rightarrow> addr \<Rightarrow> nat list \<Rightarrow> nat \<Rightarrow> nat \<Rightarrow> bool \<Rightarrow> (int \<times> rte_mempool) cres" where
  "rte_mempool_populate_phys_tab env mp vaddr paddr pg_num pg_shift free_cb =
     (let pg_sz = 2 ^ pg_shift
      in if nb_mem_chunks mp \<noteq> 0 then Inr (- EEXIST, mp)
         else if mp_flags mp AND MEMPOOL_F_NO_PHYS_CONTIG \<noteq> 0
         then rte_mempool_populate_phys env mp vaddr None (pg_num * pg_sz) free_cb
         else phys_tab_loop env vaddr paddr pg_num pg_sz mp free_cb 0 0)"

text \<open>
  The same over the physical addresses of a virtual area.  \<open>RTE_BAD_PHYS_ADDR\<close> is the number
  -1, so that after a page without an address the sum with the length so far is \<open>phys_len - 1\<close>,
  which no page without an address has.
\<close>

definition phys_plus :: "nat option \<Rightarrow> nat \<Rightarrow> nat" where
  "phys_plus paddr phys_len = (case paddr of None \<Rightarrow> phys_len - 1 | Some p \<Rightarrow> p + phys_len)"

function contig_virt :: "eal_env \<Rightarrow> addr \<Rightarrow> nat \<Rightarrow> nat \<Rightarrow> nat \<Rightarrow> nat option \<Rightarrow> nat \<Rightarrow> nat" where
  "contig_virt env a len pg_sz off paddr phys_len =
     (if 0 < pg_sz \<and> off + phys_len < len \<and> virt2phy env (a + off + phys_len) = Some (phys_plus paddr phys_len)
      then contig_virt env a len pg_sz off paddr (phys_len + pg_sz) else phys_len)"
  by pat_completeness auto
termination by (relation "measure (\<lambda>(_, _, len, _, off, _, phys_len). len - (off + phys_len))") auto

declare contig_virt.simps [simp del]

lemma contig_virt_ge: "phys_len \<le> contig_virt env a len pg_sz off paddr phys_len"
  by (induction env a len pg_sz off paddr phys_len rule: contig_virt.induct) (subst contig_virt.simps, auto)

function virt_loop ::
  "eal_env \<Rightarrow> addr \<Rightarrow> nat \<Rightarrow> nat \<Rightarrow> rte_mempool \<Rightarrow> bool \<Rightarrow> int \<Rightarrow> nat \<Rightarrow> (int \<times> rte_mempool) cres" where
  "virt_loop env a len pg_sz mp free_cb cnt off =
     (if 0 < pg_sz \<and> off + pg_sz \<le> len \<and> populated_size mp < mp_size mp then
        let paddr = virt2phy env (a + off);
            fail = \<lambda>ret mp. cbind (rte_mempool_free_memchunks mp) (\<lambda>mp. Inr (ret, mp))
        in if paddr = None \<and> has_hugepages env then fail (- EINVAL) mp
           else let phys_len = contig_virt env a len pg_sz off paddr pg_sz
                in cbind (rte_mempool_populate_phys env mp (a + off) paddr phys_len free_cb) (\<lambda>(ret, mp).
                   if ret < 0 then fail ret mp
                   else virt_loop env a len pg_sz mp False (cnt + ret) (off + phys_len))
      else Inr (cnt, mp))"
  by pat_completeness auto
termination
proof (relation "measure (\<lambda>(_, _, len, _, _, _, _, off). len - off)", goal_cases)
  case (2 env a len pg_sz mp free_cb cnt off paddr fail phys_len)
  then show ?case using contig_virt_ge [of pg_sz env a len pg_sz off paddr] by auto
qed simp

declare virt_loop.simps [simp del]

definition rte_mempool_populate_virt ::
  "eal_env \<Rightarrow> rte_mempool \<Rightarrow> addr \<Rightarrow> nat \<Rightarrow> nat \<Rightarrow> bool \<Rightarrow> (int \<times> rte_mempool) cres" where
  "rte_mempool_populate_virt env mp a len pg_sz free_cb =
     (if nb_mem_chunks mp \<noteq> 0 then Inr (- EEXIST, mp)
      else if align_ptr a pg_sz \<noteq> a then Inr (- EINVAL, mp)
      else if rte_align len pg_sz \<noteq> len then Inr (- EINVAL, mp)
      else if mp_flags mp AND MEMPOOL_F_NO_PHYS_CONTIG \<noteq> 0
      then rte_mempool_populate_phys env mp a None len free_cb
      else virt_loop env a len pg_sz mp free_cb 0 0)"

text \<open>
  Memory zones are reserved until all objects are placed; \<open>n\<close> is the number still to place and
  each round places at least one, so that \<open>mp_size\<close> rounds are enough fuel.
\<close>

fun populate_default_loop ::
  "nat \<Rightarrow> eal_env \<Rightarrow> nat \<Rightarrow> nat \<Rightarrow> nat \<Rightarrow> nat \<Rightarrow> uint32 \<Rightarrow> rte_mempool \<Rightarrow> (int \<times> rte_mempool) option cres" where
  "populate_default_loop fuel env pg_sz pg_shift align mz_id n mp =
     (let fail = \<lambda>ret mp. cbind (rte_mempool_free_memchunks mp) (\<lambda>mp. Inr (Some (ret, mp)));
          sz = rte_mempool_xmem_size (unat n) (pool_total_elt_sz mp) pg_shift;
          mz_name = RTE_MEMPOOL_MZ_PREFIX @ mp_name mp @ ''_'' @ fmt_u mz_id
      in if n = 0 then Inr (Some (int (unat (mp_size mp)), mp))
         else case fuel of
           0 \<Rightarrow> Inr None
         | Suc fuel \<Rightarrow>
             if RTE_MEMZONE_NAMESIZE \<le> length mz_name then fail (- ENAMETOOLONG) mp
             else case (case memzone_reserve env mz_name sz align of
                          Inr mz \<Rightarrow> Inr mz | Inl _ \<Rightarrow> memzone_reserve env mz_name 0 align) of
               Inl e \<Rightarrow> fail (- e) mp
             | Inr mz \<Rightarrow>
                 cbind (if has_hugepages env \<and> \<not> xen_dom0_supported env
                        then rte_mempool_populate_phys env mp (mz_addr mz)
                               (if mp_flags mp AND MEMPOOL_F_NO_PHYS_CONTIG \<noteq> 0 then None else Some (mz_phys_addr mz))
                               (mz_len mz) True
                        else rte_mempool_populate_virt env mp (mz_addr mz) (mz_len mz) pg_sz True) (\<lambda>(ret, mp).
                 if ret < 0 then fail ret mp
                 else populate_default_loop fuel env pg_sz pg_shift align (mz_id + 1) (n - of_int ret) mp))"

declare populate_default_loop.simps [simp del]

definition page_shift :: "nat \<Rightarrow> nat" where
  "page_shift pg_sz = length (takeWhile (\<lambda>i. even (pg_sz div 2 ^ i)) [0..<64])"

definition rte_mempool_populate_default :: "nat \<Rightarrow> eal_env \<Rightarrow> rte_mempool \<Rightarrow> (int \<times> rte_mempool) option cres" where
  "rte_mempool_populate_default fuel env mp =
     (if nb_mem_chunks mp \<noteq> 0 then Inr (Some (- EEXIST, mp))
      else let (pg_sz, pg_shift, align) =
             (if xen_dom0_supported env then (2 ^ 21, 21, 2 ^ 21)
              else if has_hugepages env then (0, 0, RTE_CACHE_LINE_SIZE)
              else (page_size env, page_shift (page_size env), page_size env))
           in populate_default_loop fuel env pg_sz pg_shift align 0 (mp_size mp) mp)"

section \<open>Creating and freeing a pool\<close>

definition SIZEOF_RTE_MEMPOOL :: nat where [c_defs]: "SIZEOF_RTE_MEMPOOL = 192"
definition SIZEOF_RTE_MEMPOOL_CACHE :: nat where [c_defs]: "SIZEOF_RTE_MEMPOOL_CACHE = 12352"

definition MEMPOOL_HEADER_SIZE :: "uint32 \<Rightarrow> nat" where
  "MEMPOOL_HEADER_SIZE cs =
     SIZEOF_RTE_MEMPOOL + (if cs = 0 then 0 else SIZEOF_RTE_MEMPOOL_CACHE * RTE_MAX_LCORE)"

text \<open>
  The value of \<open>rte_errno\<close> (0 where the function leaves it as it was) or the pool; \<open>None\<close>
  when the search for an object size does not end within the fuel.
\<close>

definition rte_mempool_create_empty ::
  "nat \<Rightarrow> eal_env \<Rightarrow> string \<Rightarrow> uint32 \<Rightarrow> uint32 \<Rightarrow> uint32 \<Rightarrow> uint32 \<Rightarrow> uint32 \<Rightarrow> (int + rte_mempool) option" where
  "rte_mempool_create_empty fuel env name n elt_size cache_size priv_size flags =
     (if RTE_MEMPOOL_CACHE_MAX_SIZE < unat cache_size \<or> unat n < CALC_CACHE_FLUSHTHRESH cache_size
      then Some (Inl EINVAL)
      else let flags = (if flags AND MEMPOOL_F_NO_CACHE_ALIGN \<noteq> 0 then flags OR MEMPOOL_F_NO_SPREAD else flags)
           in case rte_mempool_calc_obj_size env fuel elt_size flags of
                None \<Rightarrow> None
              | Some objsz \<Rightarrow> Some (
                  if objsz_total objsz = 0 then Inl EINVAL
                  else let priv_size = align32 priv_size 6;
                           mempool_size = rte_align (MEMPOOL_HEADER_SIZE cache_size + unat priv_size) RTE_MEMPOOL_ALIGN;
                           mz_name = RTE_MEMPOOL_MZ_PREFIX @ name
                       in if \<not> zmalloc_ok env ''MEMPOOL_TAILQ_ENTRY'' then Inl 0
                          else if RTE_MEMZONE_NAMESIZE \<le> length mz_name then Inl ENAMETOOLONG
                          else case memzone_reserve env mz_name mempool_size RTE_CACHE_LINE_SIZE of
                            Inl e \<Rightarrow> Inl e
                          | Inr mz \<Rightarrow> Inr
                              \<lparr>mp_name = name, pool_data = None, mp_flags = flags, mp_size = n,
                               mp_cache_size = cache_size, mp_elt_size = objsz_elt objsz,
                               mp_header_size = objsz_header objsz, mp_trailer_size = objsz_trailer objsz,
                               private_data_size = priv_size, ops_index = 0,
                               local_cache = (if cache_size = 0 then []
                                  else replicate RTE_MAX_LCORE (mempool_cache_init zeroed_cache cache_size)),
                               populated_size = 0, elt_list = [], nb_mem_chunks = 0, mem_list = []\<rparr>))"

definition rte_mempool_free :: "rte_mempool \<Rightarrow> rte_mempool cres" where
  "rte_mempool_free mp = cbind (rte_mempool_free_memchunks mp) rte_mempool_ops_free"

definition ops_name_for_flags :: "uint32 \<Rightarrow> string" where
  "ops_name_for_flags flags =
     (if flags AND MEMPOOL_F_SP_PUT \<noteq> 0 \<and> flags AND MEMPOOL_F_SC_GET \<noteq> 0 then ''ring_sp_sc''
      else if flags AND MEMPOOL_F_SP_PUT \<noteq> 0 then ''ring_sp_mc''
      else if flags AND MEMPOOL_F_SC_GET \<noteq> 0 then ''ring_mp_sc''
      else ''ring_mp_mc'')"

text \<open>
  The constructor \<open>mp_init\<close> of the private data and the object initialiser \<open>obj_init\<close> act on a
  state of the caller. The result is the pool, or nothing after a failure.
\<close>

definition rte_mempool_create ::
  "nat \<Rightarrow> eal_env \<Rightarrow> string \<Rightarrow> uint32 \<Rightarrow> uint32 \<Rightarrow> uint32 \<Rightarrow> uint32 \<Rightarrow>
   (rte_mempool \<Rightarrow> 's \<Rightarrow> 's cres) \<Rightarrow> (rte_mempool \<Rightarrow> addr \<Rightarrow> nat \<Rightarrow> 's \<Rightarrow> 's cres) \<Rightarrow> uint32 \<Rightarrow> 's \<Rightarrow>
   (rte_mempool option \<times> 's) option cres" where
  "rte_mempool_create fuel env name n elt_size cache_size priv_size mp_init obj_init flags s =
     (case rte_mempool_create_empty fuel env name n elt_size cache_size priv_size flags of
        None \<Rightarrow> Inr None
      | Some (Inl _) \<Rightarrow> Inr (Some (None, s))
      | Some (Inr mp) \<Rightarrow>
          (let (ret, mp) = rte_mempool_set_ops_byname mp (ops_name_for_flags flags)
           in if ret \<noteq> 0 then cbind (rte_mempool_free mp) (\<lambda>_. Inr (Some (None, s)))
              else cbind (mp_init mp s) (\<lambda>s.
                   cbind (rte_mempool_populate_default fuel env mp) (\<lambda>res.
                   case res of
                     None \<Rightarrow> Inr None
                   | Some (ret, mp) \<Rightarrow>
                       if ret < 0 then cbind (rte_mempool_free mp) (\<lambda>_. Inr (Some (None, s)))
                       else cbind (rte_mempool_obj_iter mp obj_init s) (\<lambda>(n, s). Inr (Some (Some mp, s)))))))"

end
