(* ===== verification/Mbuf.thy ===== *)
theory Mbuf
  imports Mempool Ip
begin

text \<open>
  The packet buffers of \<^verbatim>\<open>dpdk/lib/librte_mbuf\<close>. A store holds the buffer structures by their
  address, the bytes of memory, and the pools with their private data. A packet is a chain of
  structures linked by \<open>next\<close>; several structures may share one data buffer, counted by the
  reference count of the structure in front of that buffer. Accesses to packet data are checked
  against the data buffer of the structure they go through. Loops that follow \<open>next\<close> take fuel,
  since a cyclic chain makes them run for ever. The configuration is the default one: atomic
  reference counts, assertions and debug checks off.
\<close>

section \<open>Data\<close>

definition RTE_PKTMBUF_HEADROOM :: uint16 where [c_defs]: "RTE_PKTMBUF_HEADROOM = 128"
definition SIZEOF_RTE_MBUF :: nat where [c_defs]: "SIZEOF_RTE_MBUF = 128"
definition RTE_MBUF_PRIV_ALIGN :: nat where [c_defs]: "RTE_MBUF_PRIV_ALIGN = 8"
definition SIZEOF_POOL_PRIVATE :: uint32 where [c_defs]: "SIZEOF_POOL_PRIVATE = 4"

definition PKT_RX_VLAN_PKT :: uint64 where [c_defs]: "PKT_RX_VLAN_PKT = push_bit 0 1"
definition PKT_RX_VLAN_STRIPPED :: uint64 where [c_defs]: "PKT_RX_VLAN_STRIPPED = push_bit 6 1"
definition PKT_TX_MACSEC :: uint64 where [c_defs]: "PKT_TX_MACSEC = push_bit 44 1"
definition PKT_TX_TUNNEL_MASK :: uint64 where [c_defs]: "PKT_TX_TUNNEL_MASK = push_bit 45 0xF"
definition PKT_TX_QINQ_PKT :: uint64 where [c_defs]: "PKT_TX_QINQ_PKT = push_bit 49 1"
definition PKT_TX_IEEE1588_TMST :: uint64 where [c_defs]: "PKT_TX_IEEE1588_TMST = push_bit 51 1"
definition PKT_TX_L4_MASK :: uint64 where [c_defs]: "PKT_TX_L4_MASK = push_bit 52 3"
definition PKT_TX_IP_CKSUM :: uint64 where [c_defs]: "PKT_TX_IP_CKSUM = push_bit 54 1"
definition PKT_TX_IPV4 :: uint64 where [c_defs]: "PKT_TX_IPV4 = push_bit 55 1"
definition PKT_TX_IPV6 :: uint64 where [c_defs]: "PKT_TX_IPV6 = push_bit 56 1"
definition PKT_TX_VLAN_PKT :: uint64 where [c_defs]: "PKT_TX_VLAN_PKT = push_bit 57 1"
definition PKT_TX_OUTER_IP_CKSUM :: uint64 where [c_defs]: "PKT_TX_OUTER_IP_CKSUM = push_bit 58 1"
definition PKT_TX_OUTER_IPV4 :: uint64 where [c_defs]: "PKT_TX_OUTER_IPV4 = push_bit 59 1"

definition PKT_TX_OFFLOAD_MASK :: uint64 where [c_defs]:
  "PKT_TX_OFFLOAD_MASK = PKT_TX_IP_CKSUM OR PKT_TX_L4_MASK OR PKT_TX_OUTER_IP_CKSUM OR PKT_TX_TCP_SEG
     OR PKT_TX_IEEE1588_TMST OR PKT_TX_QINQ_PKT OR PKT_TX_VLAN_PKT OR PKT_TX_TUNNEL_MASK OR PKT_TX_MACSEC"

definition IND_ATTACHED_MBUF :: uint64 where [c_defs]: "IND_ATTACHED_MBUF = push_bit 62 1"
definition CTRL_MBUF_FLAG :: uint64 where [c_defs]: "CTRL_MBUF_FLAG = push_bit 63 1"

definition EOVERFLOW :: int where [c_defs]: "EOVERFLOW = 75"
definition ENOTSUP :: int where [c_defs]: "ENOTSUP = 95"

record rte_mbuf =
  buf_addr :: addr
  buf_physaddr :: uint64
  data_off :: uint16
  refcnt :: uint16
  nb_segs :: uint16
  in_port :: uint16
  ol_flags :: uint64
  packet_type :: uint32
  pkt_len :: uint32
  data_len :: uint16
  vlan_tci :: uint16
  hash_info :: uint64
  vlan_tci_outer :: uint16
  buf_len :: uint16
  timestamp :: uint64
  udata64 :: uint64
  mb_pool :: addr
  next_seg :: "addr option"
  tx_offload :: uint64
  priv_size :: uint16
  timesync :: uint16
  seqn :: uint32

record rte_pktmbuf_pool_private =
  mbuf_data_room_size :: uint16
  mbuf_priv_size :: uint16

text \<open>A pool and the private data behind its structure.\<close>

record pktmbuf_pool =
  pool_mp :: rte_mempool
  pool_priv :: rte_pktmbuf_pool_private

record mbuf_mem =
  mbufs :: "addr \<Rightarrow> rte_mbuf option"
  mem_bytes :: "addr \<Rightarrow> uint8"
  pools :: "addr \<Rightarrow> pktmbuf_pool option"

section \<open>Access to the store\<close>

definition mbuf_at :: "mbuf_mem \<Rightarrow> addr \<Rightarrow> rte_mbuf cres" where
  "mbuf_at h m = (case mbufs h m of None \<Rightarrow> Inl Null_deref | Some b \<Rightarrow> Inr b)"

definition mbuf_set :: "addr \<Rightarrow> rte_mbuf \<Rightarrow> mbuf_mem \<Rightarrow> mbuf_mem" where
  "mbuf_set m b h = h\<lparr>mbufs := (mbufs h)(m := Some b)\<rparr>"

definition mbuf_upd :: "addr \<Rightarrow> (rte_mbuf \<Rightarrow> rte_mbuf) \<Rightarrow> mbuf_mem \<Rightarrow> mbuf_mem cres" where
  "mbuf_upd m f h = cbind (mbuf_at h m) (\<lambda>b. Inr (mbuf_set m (f b) h))"

definition pool_at :: "mbuf_mem \<Rightarrow> addr \<Rightarrow> pktmbuf_pool cres" where
  "pool_at h p = (case pools h p of None \<Rightarrow> Inl Null_deref | Some pp \<Rightarrow> Inr pp)"

definition pool_set :: "addr \<Rightarrow> pktmbuf_pool \<Rightarrow> mbuf_mem \<Rightarrow> mbuf_mem" where
  "pool_set p pp h = h\<lparr>pools := (pools h)(p := Some pp)\<rparr>"

definition bytes_at :: "(addr \<Rightarrow> uint8) \<Rightarrow> addr \<Rightarrow> nat \<Rightarrow> uint8 list" where
  "bytes_at f a n = map (\<lambda>i. f (a + i)) [0..<n]"

definition bytes_put :: "(addr \<Rightarrow> uint8) \<Rightarrow> addr \<Rightarrow> uint8 list \<Rightarrow> addr \<Rightarrow> uint8" where
  "bytes_put f a bs = (\<lambda>x. if a \<le> x \<and> x < a + length bs then bs ! (x - a) else f x)"

text \<open>\<open>n\<close> bytes at offset \<open>off\<close> of the data of a segment, which must lie in its buffer.\<close>

definition rte_pktmbuf_mtod_offset :: "rte_mbuf \<Rightarrow> nat \<Rightarrow> addr" where
  "rte_pktmbuf_mtod_offset b off = buf_addr b + unat (data_off b) + off"

definition rte_pktmbuf_mtod :: "rte_mbuf \<Rightarrow> addr" where
  "rte_pktmbuf_mtod b = rte_pktmbuf_mtod_offset b 0"

definition data_read :: "mbuf_mem \<Rightarrow> rte_mbuf \<Rightarrow> nat \<Rightarrow> nat \<Rightarrow> uint8 list cres" where
  "data_read h b off n =
     (if unat (data_off b) + off + n \<le> unat (buf_len b)
      then Inr (bytes_at (mem_bytes h) (rte_pktmbuf_mtod_offset b off) n) else Inl Out_of_bounds)"

definition data_write :: "rte_mbuf \<Rightarrow> nat \<Rightarrow> uint8 list \<Rightarrow> mbuf_mem \<Rightarrow> mbuf_mem cres" where
  "data_write b off bs h =
     (if unat (data_off b) + off + length bs \<le> unat (buf_len b)
      then Inr (h\<lparr>mem_bytes := bytes_put (mem_bytes h) (rte_pktmbuf_mtod_offset b off) bs\<rparr>) else Inl Out_of_bounds)"

section \<open>Buffer structures\<close>

definition rte_mbuf_data_dma_addr :: "rte_mbuf \<Rightarrow> uint64" where
  "rte_mbuf_data_dma_addr mb = buf_physaddr mb + ucast (data_off mb)"

definition rte_mbuf_data_dma_addr_default :: "rte_mbuf \<Rightarrow> uint64" where
  "rte_mbuf_data_dma_addr_default mb = buf_physaddr mb + ucast RTE_PKTMBUF_HEADROOM"

definition rte_mbuf_from_indirect :: "rte_mbuf \<Rightarrow> addr" where
  "rte_mbuf_from_indirect mi = buf_addr mi - (SIZEOF_RTE_MBUF + unat (priv_size mi))"

definition RTE_MBUF_INDIRECT :: "rte_mbuf \<Rightarrow> bool" where
  "RTE_MBUF_INDIRECT mb \<longleftrightarrow> ol_flags mb AND IND_ATTACHED_MBUF \<noteq> 0"

definition RTE_MBUF_DIRECT :: "rte_mbuf \<Rightarrow> bool" where
  "RTE_MBUF_DIRECT mb \<longleftrightarrow> \<not> RTE_MBUF_INDIRECT mb"

definition rte_pktmbuf_data_room_size :: "pktmbuf_pool \<Rightarrow> uint16" where
  "rte_pktmbuf_data_room_size mp = mbuf_data_room_size (pool_priv mp)"

definition rte_pktmbuf_priv_size :: "pktmbuf_pool \<Rightarrow> uint16" where
  "rte_pktmbuf_priv_size mp = mbuf_priv_size (pool_priv mp)"

definition rte_mbuf_to_baddr :: "mbuf_mem \<Rightarrow> addr \<Rightarrow> addr cres" where
  "rte_mbuf_to_baddr h md =
     cbind (mbuf_at h md) (\<lambda>b. cbind (pool_at h (mb_pool b)) (\<lambda>pp.
     Inr (md + SIZEOF_RTE_MBUF + unat (rte_pktmbuf_priv_size pp))))"

definition rte_mbuf_refcnt_update :: "addr \<Rightarrow> uint16 \<Rightarrow> mbuf_mem \<Rightarrow> (uint16 \<times> mbuf_mem) cres" where
  "rte_mbuf_refcnt_update m v h =
     cbind (mbuf_at h m) (\<lambda>b.
     if refcnt b = 1 then Inr (1 + v, mbuf_set m (b\<lparr>refcnt := 1 + v\<rparr>) h)
     else Inr (refcnt b + v, mbuf_set m (b\<lparr>refcnt := refcnt b + v\<rparr>) h))"

definition rte_mempool_virt2phy :: "rte_mempool \<Rightarrow> addr \<Rightarrow> uint64 cres" where
  "rte_mempool_virt2phy mp elt =
     (case find (\<lambda>hdr. hdr_obj hdr = elt) (elt_list mp) of
        None \<Rightarrow> Inl Out_of_bounds
      | Some hdr \<Rightarrow> Inr (case hdr_physaddr hdr of None \<Rightarrow> - 1 | Some p \<Rightarrow> of_nat p))"

definition rte_pktmbuf_reset_headroom :: "rte_mbuf \<Rightarrow> rte_mbuf" where
  "rte_pktmbuf_reset_headroom b = b\<lparr>data_off := min RTE_PKTMBUF_HEADROOM (buf_len b)\<rparr>"

definition rte_pktmbuf_reset :: "rte_mbuf \<Rightarrow> rte_mbuf" where
  "rte_pktmbuf_reset b =
     rte_pktmbuf_reset_headroom
       (b\<lparr>next_seg := None, pkt_len := 0, tx_offload := 0, vlan_tci := 0, vlan_tci_outer := 0, nb_segs := 1,
         in_port := 0xff, ol_flags := 0, packet_type := 0\<rparr>)\<lparr>data_len := 0\<rparr>"

section \<open>Creating a pool of packet buffers\<close>

text \<open>\<open>rte_pktmbuf_pool_init\<close> computes the private data of the pool.\<close>

definition rte_pktmbuf_pool_init :: "rte_mempool \<Rightarrow> rte_pktmbuf_pool_private option \<Rightarrow> pktmbuf_pool" where
  "rte_pktmbuf_pool_init mp opaque_arg =
     \<lparr>pool_mp = mp,
      pool_priv = (case opaque_arg of
        Some user_mbp_priv \<Rightarrow> user_mbp_priv
      | None \<Rightarrow> \<lparr>mbuf_data_room_size = (if of_nat SIZEOF_RTE_MBUF < mp_elt_size mp
                                        then ucast (mp_elt_size mp - of_nat SIZEOF_RTE_MBUF) else 0),
                 mbuf_priv_size = 0\<rparr>)\<rparr>"

definition rte_pktmbuf_init :: "addr \<Rightarrow> addr \<Rightarrow> mbuf_mem \<Rightarrow> mbuf_mem cres" where
  "rte_pktmbuf_init p m h =
     cbind (pool_at h p) (\<lambda>pp.
     cbind (rte_mempool_virt2phy (pool_mp pp) m) (\<lambda>phys.
     let mbuf_size = SIZEOF_RTE_MBUF + unat (rte_pktmbuf_priv_size pp);
         room = rte_pktmbuf_data_room_size pp
     in Inr (mbuf_set m
          \<lparr>buf_addr = m + mbuf_size, buf_physaddr = phys + of_nat mbuf_size,
           data_off = min RTE_PKTMBUF_HEADROOM room, refcnt = 1, nb_segs = 1, in_port = 0xff, ol_flags = 0,
           packet_type = 0, pkt_len = 0, data_len = 0, vlan_tci = 0, hash_info = 0, vlan_tci_outer = 0,
           buf_len = room, timestamp = 0, udata64 = 0, mb_pool = p, next_seg = None, tx_offload = 0,
           priv_size = rte_pktmbuf_priv_size pp, timesync = 0, seqn = 0\<rparr>
          (h\<lparr>mem_bytes := bytes_put (mem_bytes h) (m + SIZEOF_RTE_MBUF) (replicate (unat (rte_pktmbuf_priv_size pp)) 0)\<rparr>))))"

definition rte_ctrlmbuf_init :: "addr \<Rightarrow> addr \<Rightarrow> mbuf_mem \<Rightarrow> mbuf_mem cres" where
  "rte_ctrlmbuf_init p m h =
     cbind (rte_pktmbuf_init p m h) (mbuf_upd m (\<lambda>b. b\<lparr>ol_flags := ol_flags b OR CTRL_MBUF_FLAG\<rparr>))"

text \<open>
  The pool is placed at the address \<open>p\<close>. The result is \<open>None\<close> when the size search does not
  end, otherwise whether the pool was created, and the store.
\<close>

definition rte_pktmbuf_pool_create ::
  "nat \<Rightarrow> eal_env \<Rightarrow> addr \<Rightarrow> string \<Rightarrow> uint32 \<Rightarrow> uint32 \<Rightarrow> uint16 \<Rightarrow> uint16 \<Rightarrow> mbuf_mem \<Rightarrow> (bool \<times> mbuf_mem) option cres" where
  "rte_pktmbuf_pool_create fuel env p name n cache_size psize data_room_size h =
     (if rte_align (unat psize) RTE_MBUF_PRIV_ALIGN \<noteq> unat psize then Inr (Some (False, h))
      else let elt_size = of_nat SIZEOF_RTE_MBUF + ucast psize + ucast data_room_size;
               mbp_priv = \<lparr>mbuf_data_room_size = data_room_size, mbuf_priv_size = psize\<rparr>
           in case rte_mempool_create_empty fuel env name n elt_size cache_size SIZEOF_POOL_PRIVATE 0 of
                None \<Rightarrow> Inr None
              | Some (Inl _) \<Rightarrow> Inr (Some (False, h))
              | Some (Inr mp) \<Rightarrow>
                  (let (ret, mp) = rte_mempool_set_ops_byname mp ''ring_mp_mc''
                   in if ret \<noteq> 0 then cbind (rte_mempool_free mp) (\<lambda>_. Inr (Some (False, h)))
                      else cbind (rte_mempool_populate_default fuel env mp) (\<lambda>res.
                           case res of
                             None \<Rightarrow> Inr None
                           | Some (ret, mp) \<Rightarrow>
                               if ret < 0 then cbind (rte_mempool_free mp) (\<lambda>_. Inr (Some (False, h)))
                               else cbind (rte_mempool_obj_iter mp (\<lambda>mp m i. rte_pktmbuf_init p m)
                                      (pool_set p (rte_pktmbuf_pool_init mp (Some mbp_priv)) h)) (\<lambda>(n, h).
                                    Inr (Some (True, h))))))"

section \<open>Allocating and freeing\<close>

definition rte_mbuf_raw_alloc :: "nat \<Rightarrow> addr \<Rightarrow> mbuf_mem \<Rightarrow> (addr option \<times> mbuf_mem) cres" where
  "rte_mbuf_raw_alloc lcore p h =
     cbind (pool_at h p) (\<lambda>pp.
     cbind (rte_mempool_get lcore (pool_mp pp)) (\<lambda>(ret, objs, mp).
     Inr (if ret < 0 then None else Some (hd objs), pool_set p (pp\<lparr>pool_mp := mp\<rparr>) h)))"

definition rte_mbuf_raw_free :: "nat \<Rightarrow> addr \<Rightarrow> mbuf_mem \<Rightarrow> mbuf_mem cres" where
  "rte_mbuf_raw_free lcore m h =
     cbind (mbuf_at h m) (\<lambda>b.
     cbind (pool_at h (mb_pool b)) (\<lambda>pp.
     cbind (rte_mempool_put lcore (pool_mp pp) m) (\<lambda>mp.
     Inr (pool_set (mb_pool b) (pp\<lparr>pool_mp := mp\<rparr>) h))))"

definition rte_pktmbuf_alloc :: "nat \<Rightarrow> addr \<Rightarrow> mbuf_mem \<Rightarrow> (addr option \<times> mbuf_mem) cres" where
  "rte_pktmbuf_alloc lcore p h =
     cbind (rte_mbuf_raw_alloc lcore p h) (\<lambda>(m, h).
     case m of None \<Rightarrow> Inr (None, h)
     | Some m \<Rightarrow> cbind (mbuf_upd m rte_pktmbuf_reset h) (\<lambda>h. Inr (Some m, h)))"

text \<open>The unrolled loop resets the buffers in order.\<close>

definition rte_pktmbuf_alloc_bulk :: "nat \<Rightarrow> addr \<Rightarrow> uint32 \<Rightarrow> mbuf_mem \<Rightarrow> (int \<times> addr list \<times> mbuf_mem) cres" where
  "rte_pktmbuf_alloc_bulk lcore p cnt h =
     cbind (pool_at h p) (\<lambda>pp.
     cbind (rte_mempool_get_bulk lcore (pool_mp pp) cnt) (\<lambda>(rc, objs, mp).
     let h = pool_set p (pp\<lparr>pool_mp := mp\<rparr>) h
     in if rc \<noteq> 0 then Inr (rc, [], h)
        else cbind (c_for 0 (unat cnt) (\<lambda>idx. mbuf_upd (objs ! idx) rte_pktmbuf_reset) h) (\<lambda>h.
             Inr (0, objs, h))))"

definition rte_pktmbuf_attach :: "addr \<Rightarrow> addr \<Rightarrow> mbuf_mem \<Rightarrow> mbuf_mem cres" where
  "rte_pktmbuf_attach mi m h =
     cbind (mbuf_at h m) (\<lambda>b.
     let md = (if RTE_MBUF_DIRECT b then m else rte_mbuf_from_indirect b)
     in cbind (rte_mbuf_refcnt_update md 1 h) (\<lambda>(_, h).
        cbind (mbuf_at h m) (\<lambda>b.
        mbuf_upd mi (\<lambda>i. i\<lparr>priv_size := priv_size b, buf_physaddr := buf_physaddr b, buf_addr := buf_addr b,
          buf_len := buf_len b, data_off := data_off b, data_len := data_len b, in_port := in_port b,
          vlan_tci := vlan_tci b, vlan_tci_outer := vlan_tci_outer b, tx_offload := tx_offload b,
          hash_info := hash_info b, next_seg := None, pkt_len := ucast (data_len b), nb_segs := 1,
          ol_flags := ol_flags b OR IND_ATTACHED_MBUF, packet_type := packet_type b,
          timestamp := timestamp b\<rparr>) h)))"

definition rte_pktmbuf_detach :: "nat \<Rightarrow> addr \<Rightarrow> mbuf_mem \<Rightarrow> mbuf_mem cres" where
  "rte_pktmbuf_detach lcore m h =
     cbind (mbuf_at h m) (\<lambda>b.
     cbind (pool_at h (mb_pool b)) (\<lambda>pp.
     cbind (rte_mempool_virt2phy (pool_mp pp) m) (\<lambda>phys.
     let md = rte_mbuf_from_indirect b;
         mbuf_size = SIZEOF_RTE_MBUF + unat (rte_pktmbuf_priv_size pp);
         b' = (rte_pktmbuf_reset_headroom (b\<lparr>priv_size := rte_pktmbuf_priv_size pp, buf_addr := m + mbuf_size,
                 buf_physaddr := phys + of_nat mbuf_size, buf_len := rte_pktmbuf_data_room_size pp\<rparr>))
                 \<lparr>data_len := 0, ol_flags := 0\<rparr>
     in cbind (rte_mbuf_refcnt_update md (- 1) (mbuf_set m b' h)) (\<lambda>(c, h).
        if c = 0
        then cbind (mbuf_upd md (\<lambda>d. d\<lparr>next_seg := None, nb_segs := 1, refcnt := 1\<rparr>) h) (rte_mbuf_raw_free lcore md)
        else Inr h))))"

text \<open>The part of \<open>rte_pktmbuf_prefree_seg\<close> that both branches share.\<close>

definition unlink_seg :: "nat \<Rightarrow> addr \<Rightarrow> mbuf_mem \<Rightarrow> mbuf_mem cres" where
  "unlink_seg lcore m h =
     cbind (mbuf_at h m) (\<lambda>b.
     cbind (if RTE_MBUF_INDIRECT b then rte_pktmbuf_detach lcore m h else Inr h)
       (mbuf_upd m (\<lambda>b. if next_seg b \<noteq> None then b\<lparr>next_seg := None, nb_segs := 1\<rparr> else b)))"

definition rte_pktmbuf_prefree_seg :: "nat \<Rightarrow> addr \<Rightarrow> mbuf_mem \<Rightarrow> (addr option \<times> mbuf_mem) cres" where
  "rte_pktmbuf_prefree_seg lcore m h =
     cbind (mbuf_at h m) (\<lambda>b.
     if refcnt b = 1 then cbind (unlink_seg lcore m h) (\<lambda>h. Inr (Some m, h))
     else let h = mbuf_set m (b\<lparr>refcnt := refcnt b - 1\<rparr>) h
          in if refcnt b - 1 = 0
             then cbind (unlink_seg lcore m h) (\<lambda>h.
                  cbind (mbuf_upd m (\<lambda>b. b\<lparr>refcnt := 1\<rparr>) h) (\<lambda>h. Inr (Some m, h)))
             else Inr (None, h))"

definition rte_pktmbuf_free_seg :: "nat \<Rightarrow> addr \<Rightarrow> mbuf_mem \<Rightarrow> mbuf_mem cres" where
  "rte_pktmbuf_free_seg lcore m h =
     cbind (rte_pktmbuf_prefree_seg lcore m h) (\<lambda>(m, h).
     case m of None \<Rightarrow> Inr h | Some m \<Rightarrow> rte_mbuf_raw_free lcore m h)"

fun rte_pktmbuf_free :: "nat \<Rightarrow> nat \<Rightarrow> addr option \<Rightarrow> mbuf_mem \<Rightarrow> mbuf_mem cres" where
  "rte_pktmbuf_free fuel lcore None h = Inr h"
| "rte_pktmbuf_free 0 lcore (Some m) h = Inl No_return"
| "rte_pktmbuf_free (Suc fuel) lcore (Some m) h =
     cbind (mbuf_at h m) (\<lambda>b.
     cbind (rte_pktmbuf_free_seg lcore m h) (rte_pktmbuf_free fuel lcore (next_seg b)))"

text \<open>
  The loop of \<open>rte_pktmbuf_clone\<close>: \<open>prev\<close> is the structure whose \<open>next\<close> field the variable of
  that name points to. The result tells whether all segments were allocated.
\<close>

fun clone_loop ::
  "nat \<Rightarrow> nat \<Rightarrow> addr \<Rightarrow> addr \<Rightarrow> addr \<Rightarrow> addr \<Rightarrow> uint8 \<Rightarrow> mbuf_mem \<Rightarrow> (bool \<times> addr \<times> uint8 \<times> mbuf_mem) cres" where
  "clone_loop 0 lcore mp prev mi md nseg h = Inl No_return"
| "clone_loop (Suc fuel) lcore mp prev mi md nseg h =
     cbind (rte_pktmbuf_attach mi md h) (\<lambda>h.
     cbind (mbuf_upd prev (\<lambda>b. b\<lparr>next_seg := Some mi\<rparr>) h) (\<lambda>h.
     cbind (mbuf_at h md) (\<lambda>b.
     case next_seg b of
       None \<Rightarrow> Inr (True, mi, nseg + 1, h)
     | Some md \<Rightarrow>
         cbind (rte_pktmbuf_alloc lcore mp h) (\<lambda>(m, h).
         case m of None \<Rightarrow> Inr (False, mi, nseg + 1, h)
         | Some m \<Rightarrow> clone_loop fuel lcore mp mi m md (nseg + 1) h))))"

definition rte_pktmbuf_clone :: "nat \<Rightarrow> nat \<Rightarrow> addr \<Rightarrow> addr \<Rightarrow> mbuf_mem \<Rightarrow> (addr option \<times> mbuf_mem) cres" where
  "rte_pktmbuf_clone fuel lcore md mp h =
     cbind (rte_pktmbuf_alloc lcore mp h) (\<lambda>(mc, h).
     case mc of None \<Rightarrow> Inr (None, h)
     | Some mc \<Rightarrow>
         cbind (mbuf_at h md) (\<lambda>b.
         cbind (clone_loop fuel lcore mp mc mc md 0 h) (\<lambda>(ok, prev, nseg, h).
         cbind (mbuf_upd prev (\<lambda>b. b\<lparr>next_seg := None\<rparr>) h) (\<lambda>h.
         cbind (mbuf_upd mc (\<lambda>c. c\<lparr>nb_segs := ucast nseg, pkt_len := pkt_len b\<rparr>) h) (\<lambda>h.
         if ok then Inr (Some mc, h)
         else cbind (rte_pktmbuf_free fuel lcore (Some mc) h) (\<lambda>h. Inr (None, h)))))))"

fun rte_pktmbuf_refcnt_update :: "nat \<Rightarrow> addr \<Rightarrow> uint16 \<Rightarrow> mbuf_mem \<Rightarrow> mbuf_mem cres" where
  "rte_pktmbuf_refcnt_update 0 m v h = Inl No_return"
| "rte_pktmbuf_refcnt_update (Suc fuel) m v h =
     cbind (rte_mbuf_refcnt_update m v h) (\<lambda>(_, h).
     cbind (mbuf_at h m) (\<lambda>b.
     case next_seg b of None \<Rightarrow> Inr h | Some m \<Rightarrow> rte_pktmbuf_refcnt_update fuel m v h))"

section \<open>Changing the data area\<close>

definition rte_pktmbuf_headroom :: "rte_mbuf \<Rightarrow> uint16" where
  "rte_pktmbuf_headroom b = data_off b"

definition rte_pktmbuf_tailroom :: "rte_mbuf \<Rightarrow> uint16" where
  "rte_pktmbuf_tailroom b = buf_len b - rte_pktmbuf_headroom b - data_len b"

fun rte_pktmbuf_lastseg :: "nat \<Rightarrow> mbuf_mem \<Rightarrow> addr \<Rightarrow> addr cres" where
  "rte_pktmbuf_lastseg 0 h m = Inl No_return"
| "rte_pktmbuf_lastseg (Suc fuel) h m =
     cbind (mbuf_at h m) (\<lambda>b. case next_seg b of None \<Rightarrow> Inr m | Some n \<Rightarrow> rte_pktmbuf_lastseg fuel h n)"

text \<open>These return the address of the data, \<open>None\<close> for \<open>NULL\<close>.\<close>

definition rte_pktmbuf_prepend :: "addr \<Rightarrow> uint16 \<Rightarrow> mbuf_mem \<Rightarrow> (addr option \<times> mbuf_mem) cres" where
  "rte_pktmbuf_prepend m len h =
     cbind (mbuf_at h m) (\<lambda>b.
     if rte_pktmbuf_headroom b < len then Inr (None, h)
     else let b = b\<lparr>data_off := data_off b - len, data_len := data_len b + len, pkt_len := pkt_len b + ucast len\<rparr>
          in Inr (Some (rte_pktmbuf_mtod b), mbuf_set m b h))"

definition rte_pktmbuf_append :: "nat \<Rightarrow> addr \<Rightarrow> uint16 \<Rightarrow> mbuf_mem \<Rightarrow> (addr option \<times> mbuf_mem) cres" where
  "rte_pktmbuf_append fuel m len h =
     cbind (rte_pktmbuf_lastseg fuel h m) (\<lambda>m_last.
     cbind (mbuf_at h m_last) (\<lambda>b.
     if rte_pktmbuf_tailroom b < len then Inr (None, h)
     else cbind (mbuf_upd m (\<lambda>b. b\<lparr>pkt_len := pkt_len b + ucast len\<rparr>)
                  (mbuf_set m_last (b\<lparr>data_len := data_len b + len\<rparr>) h)) (\<lambda>h.
          Inr (Some (rte_pktmbuf_mtod_offset b (unat (data_len b))), h))))"

definition rte_pktmbuf_adj :: "addr \<Rightarrow> uint16 \<Rightarrow> mbuf_mem \<Rightarrow> (addr option \<times> mbuf_mem) cres" where
  "rte_pktmbuf_adj m len h =
     cbind (mbuf_at h m) (\<lambda>b.
     if data_len b < len then Inr (None, h)
     else let b = b\<lparr>data_len := data_len b - len, data_off := data_off b + len, pkt_len := pkt_len b - ucast len\<rparr>
          in Inr (Some (rte_pktmbuf_mtod b), mbuf_set m b h))"

definition rte_pktmbuf_trim :: "nat \<Rightarrow> addr \<Rightarrow> uint16 \<Rightarrow> mbuf_mem \<Rightarrow> (int \<times> mbuf_mem) cres" where
  "rte_pktmbuf_trim fuel m len h =
     cbind (rte_pktmbuf_lastseg fuel h m) (\<lambda>m_last.
     cbind (mbuf_at h m_last) (\<lambda>b.
     if data_len b < len then Inr (- 1, h)
     else cbind (mbuf_upd m (\<lambda>b. b\<lparr>pkt_len := pkt_len b - ucast len\<rparr>)
                  (mbuf_set m_last (b\<lparr>data_len := data_len b - len\<rparr>) h)) (\<lambda>h. Inr (0, h))))"

definition rte_pktmbuf_is_contiguous :: "rte_mbuf \<Rightarrow> bool" where
  "rte_pktmbuf_is_contiguous b \<longleftrightarrow> nb_segs b = 1"

definition rte_pktmbuf_chain :: "nat \<Rightarrow> addr \<Rightarrow> addr \<Rightarrow> mbuf_mem \<Rightarrow> (int \<times> mbuf_mem) cres" where
  "rte_pktmbuf_chain fuel m1 m2 h =
     cbind (mbuf_at h m1) (\<lambda>b1.
     cbind (mbuf_at h m2) (\<lambda>b2.
     if 2 ^ 16 \<le> unat (nb_segs b1) + unat (nb_segs b2) then Inr (- EOVERFLOW, h)
     else cbind (rte_pktmbuf_lastseg fuel h m1) (\<lambda>cur_tail.
          cbind (mbuf_upd cur_tail (\<lambda>b. b\<lparr>next_seg := Some m2\<rparr>) h) (\<lambda>h.
          cbind (mbuf_upd m1 (\<lambda>b. b\<lparr>nb_segs := ucast (ucast (nb_segs b + nb_segs b2) :: uint8),
                   pkt_len := pkt_len b + pkt_len b2\<rparr>) h) (\<lambda>h.
          cbind (mbuf_upd m2 (\<lambda>b. b\<lparr>pkt_len := ucast (data_len b)\<rparr>) h) (\<lambda>h.
          Inr (0, h)))))))"

text \<open>The loop of \<open>rte_pktmbuf_linearize\<close>; \<open>pos\<close> is the offset of the write pointer in the data of the first segment.\<close>

fun linearize_loop :: "nat \<Rightarrow> nat \<Rightarrow> rte_mbuf \<Rightarrow> nat \<Rightarrow> addr option \<Rightarrow> mbuf_mem \<Rightarrow> mbuf_mem cres" where
  "linearize_loop fuel lcore b pos None h = Inr h"
| "linearize_loop 0 lcore b pos (Some m) h = Inl No_return"
| "linearize_loop (Suc fuel) lcore b pos (Some m) h =
     cbind (mbuf_at h m) (\<lambda>s.
     cbind (data_read h s 0 (unat (data_len s))) (\<lambda>bs.
     cbind (data_write b pos bs h) (\<lambda>h.
     cbind (rte_pktmbuf_free_seg lcore m h)
       (linearize_loop fuel lcore b (pos + unat (data_len s)) (next_seg s)))))"

definition rte_pktmbuf_linearize :: "nat \<Rightarrow> nat \<Rightarrow> addr \<Rightarrow> mbuf_mem \<Rightarrow> (int \<times> mbuf_mem) cres" where
  "rte_pktmbuf_linearize fuel lcore m h =
     cbind (mbuf_at h m) (\<lambda>b.
     if rte_pktmbuf_is_contiguous b then Inr (0, h)
     else let copy_len = sint (pkt_len b - ucast (data_len b))
          in if int (unat (rte_pktmbuf_tailroom b)) < copy_len then Inr (- 1, h)
             else cbind (linearize_loop fuel lcore b (unat (data_len b)) (next_seg b)
                    (mbuf_set m (b\<lparr>data_len := ucast (pkt_len b)\<rparr>) h)) (\<lambda>h.
                  cbind (mbuf_upd m (\<lambda>b. b\<lparr>next_seg := None, nb_segs := 1\<rparr>) h) (\<lambda>h.
                  Inr (0, h))))"

section \<open>Reading across segments\<close>

text \<open>The pointer \<open>rte_pktmbuf_read\<close> returns: into the data of a segment, or the filled user buffer.\<close>

datatype read_ptr = Mbuf_data addr uint32 | User_buf "uint8 list"

fun read_seek :: "nat \<Rightarrow> mbuf_mem \<Rightarrow> addr \<Rightarrow> uint32 \<Rightarrow> (addr \<times> uint32) cres" where
  "read_seek 0 h seg off = Inl No_return"
| "read_seek (Suc fuel) h seg off =
     cbind (mbuf_at h seg) (\<lambda>b.
     if ucast (data_len b) \<le> off
     then case next_seg b of None \<Rightarrow> Inl Null_deref | Some seg \<Rightarrow> read_seek fuel h seg (off - ucast (data_len b))
     else Inr (seg, off))"

fun read_copy :: "nat \<Rightarrow> mbuf_mem \<Rightarrow> addr option \<Rightarrow> uint32 \<Rightarrow> uint32 \<Rightarrow> uint8 list \<Rightarrow> uint8 list cres" where
  "read_copy fuel h seg off len buf =
     (if len = 0 then Inr buf
      else case (fuel, seg) of
        (0, _) \<Rightarrow> Inl No_return
      | (_, None) \<Rightarrow> Inl Null_deref
      | (Suc fuel, Some seg) \<Rightarrow>
          cbind (mbuf_at h seg) (\<lambda>b.
          let copy_len = min (ucast (data_len b) - off) len
          in cbind (data_read h b (unat off) (unat copy_len)) (\<lambda>bs.
             read_copy fuel h (next_seg b) 0 (len - copy_len) (buf @ bs))))"

declare read_copy.simps [simp del]

definition pktmbuf_read_slow :: "nat \<Rightarrow> mbuf_mem \<Rightarrow> addr \<Rightarrow> uint32 \<Rightarrow> uint32 \<Rightarrow> read_ptr option cres" where
  "pktmbuf_read_slow fuel h m off len =
     cbind (mbuf_at h m) (\<lambda>b.
     if pkt_len b < off + len then Inr None
     else cbind (read_seek fuel h m off) (\<lambda>(seg, off).
          cbind (mbuf_at h seg) (\<lambda>s.
          if off + len \<le> ucast (data_len s) then Inr (Some (Mbuf_data seg off))
          else cbind (read_copy fuel h (Some seg) off len []) (\<lambda>buf. Inr (Some (User_buf buf))))))"

definition rte_pktmbuf_read :: "nat \<Rightarrow> mbuf_mem \<Rightarrow> addr \<Rightarrow> uint32 \<Rightarrow> uint32 \<Rightarrow> read_ptr option cres" where
  "rte_pktmbuf_read fuel h m off len =
     cbind (mbuf_at h m) (\<lambda>b.
     if off + len \<le> ucast (data_len b) then Inr (Some (Mbuf_data m off))
     else pktmbuf_read_slow fuel h m off len)"

text \<open>What the caller finds behind the pointer.\<close>

definition read_result :: "mbuf_mem \<Rightarrow> read_ptr \<Rightarrow> nat \<Rightarrow> uint8 list cres" where
  "read_result h p len =
     (case p of
        Mbuf_data seg off \<Rightarrow> cbind (mbuf_at h seg) (\<lambda>b. data_read h b (unat off) len)
      | User_buf bs \<Rightarrow> if len \<le> length bs then Inr (take len bs) else Inl Uninit_read)"

section \<open>Checksum of a packet\<close>

fun cksum_seek :: "nat \<Rightarrow> mbuf_mem \<Rightarrow> addr option \<Rightarrow> uint32 \<Rightarrow> uint32 \<Rightarrow> (addr option \<times> uint32 \<times> uint32) cres" where
  "cksum_seek fuel h None off seglen = Inr (None, off, seglen)"
| "cksum_seek 0 h (Some seg) off seglen = Inl No_return"
| "cksum_seek (Suc fuel) h (Some seg) off seglen =
     cbind (mbuf_at h seg) (\<lambda>b.
     let seglen = ucast (data_len b)
     in if off < seglen then Inr (Some seg, off, seglen)
        else cksum_seek fuel h (next_seg b) (off - seglen) seglen)"

fun cksum_segs :: "nat \<Rightarrow> mbuf_mem \<Rightarrow> addr \<Rightarrow> uint32 \<Rightarrow> uint32 \<Rightarrow> uint32 \<Rightarrow> uint32 \<Rightarrow> uint32 \<Rightarrow> uint32 cres" where
  "cksum_segs 0 h seg off seglen len acc dn = Inl No_return"
| "cksum_segs (Suc fuel) h seg off seglen len acc dn =
     cbind (mbuf_at h seg) (\<lambda>b.
     cbind (data_read h b (unat off) (unat seglen)) (\<lambda>bs.
     cbind (raw_cksum_sum bs (unat seglen) 0) (\<lambda>tmp.
     let tmp = (if dn AND 1 \<noteq> 0 then ucast (rte_bswap16 (ucast tmp)) else tmp);
         acc = acc + tmp;
         dn = dn + seglen
     in if dn = len then Inr acc
        else case next_seg b of
               None \<Rightarrow> Inl Null_deref
             | Some seg \<Rightarrow>
                 cbind (mbuf_at h seg) (\<lambda>b.
                 cksum_segs fuel h seg 0 (min (ucast (data_len b)) (len - dn)) len acc dn))))"

text \<open>\<open>None\<close> for the return value \<open>-1\<close>.\<close>

definition rte_raw_cksum_mbuf :: "nat \<Rightarrow> mbuf_mem \<Rightarrow> addr \<Rightarrow> uint32 \<Rightarrow> uint32 \<Rightarrow> uint16 option cres" where
  "rte_raw_cksum_mbuf fuel h m off len =
     cbind (mbuf_at h m) (\<lambda>b.
     if off + len \<le> ucast (data_len b)
     then cbind (data_read h b (unat off) (unat len)) (\<lambda>bs.
          cbind (rte_raw_cksum bs (unat len)) (\<lambda>c. Inr (Some c)))
     else if pkt_len b < off + len then Inr None
     else cbind (cksum_seek fuel h (Some m) off 0) (\<lambda>(seg, off, seglen).
          case seg of
            None \<Rightarrow> Inl Null_deref
          | Some seg \<Rightarrow>
              let seglen = seglen - off
              in if len \<le> seglen
                 then cbind (mbuf_at h seg) (\<lambda>s.
                      cbind (data_read h s (unat off) (unat len)) (\<lambda>bs.
                      cbind (rte_raw_cksum bs (unat len)) (\<lambda>c. Inr (Some c))))
                 else cbind (cksum_segs fuel h seg off seglen len 0 0) (\<lambda>acc.
                      Inr (Some (raw_cksum_reduce acc)))))"

section \<open>VLAN tags\<close>

definition rte_vlan_strip :: "addr \<Rightarrow> mbuf_mem \<Rightarrow> (int \<times> mbuf_mem) cres" where
  "rte_vlan_strip m h =
     cbind (mbuf_at h m) (\<lambda>b.
     cbind (data_read h b 12 2) (\<lambda>ty.
     if le16 (ty ! 0) (ty ! 1) \<noteq> rte_cpu_to_be_16 ETHER_TYPE_VLAN then Inr (- 1, h)
     else cbind (data_read h b 14 2) (\<lambda>tci.
          cbind (data_read h b 0 (2 * ETHER_ADDR_LEN)) (\<lambda>addrs.
          cbind (rte_pktmbuf_adj m 4 (mbuf_set m
                  (b\<lparr>ol_flags := ol_flags b OR PKT_RX_VLAN_PKT OR PKT_RX_VLAN_STRIPPED,
                     vlan_tci := rte_be_to_cpu_16 (le16 (tci ! 0) (tci ! 1))\<rparr>) h)) (\<lambda>(p, h).
          case p of
            None \<Rightarrow> Inl Null_deref
          | Some p \<Rightarrow> cbind (mbuf_at h m) (\<lambda>b. cbind (data_write b 0 addrs h) (\<lambda>h. Inr (0, h))))))))"

text \<open>The result carries the buffer that \<open>*m\<close> points to afterwards.\<close>

definition rte_vlan_insert :: "nat \<Rightarrow> nat \<Rightarrow> addr \<Rightarrow> mbuf_mem \<Rightarrow> (int \<times> addr \<times> mbuf_mem) cres" where
  "rte_vlan_insert fuel lcore m h =
     cbind (mbuf_at h m) (\<lambda>b.
     cbind (if 1 < refcnt b
            then cbind (rte_pktmbuf_clone fuel lcore m (mb_pool b) h) (\<lambda>(copy, h).
                 case copy of None \<Rightarrow> Inr (None, h)
                 | Some copy \<Rightarrow> cbind (rte_pktmbuf_free fuel lcore (Some m) h) (\<lambda>h. Inr (Some copy, h)))
            else Inr (Some m, h)) (\<lambda>(m', h).
     case m' of None \<Rightarrow> Inr (- ENOMEM, m, h)
     | Some m \<Rightarrow>
         cbind (mbuf_at h m) (\<lambda>b.
         cbind (rte_pktmbuf_prepend m 4 h) (\<lambda>(p, h).
         case p of None \<Rightarrow> Inr (- ENOSPC, m, h)
         | Some p \<Rightarrow>
             cbind (data_read h b 0 (2 * ETHER_ADDR_LEN)) (\<lambda>addrs.
             cbind (mbuf_at h m) (\<lambda>b.
             cbind (data_write b 0 addrs h) (\<lambda>h.
             cbind (data_write b 12 (le16_bytes (rte_cpu_to_be_16 ETHER_TYPE_VLAN)) h) (\<lambda>h.
             cbind (data_write b 14 (le16_bytes (rte_cpu_to_be_16 (vlan_tci b))) h) (\<lambda>h.
             cbind (mbuf_upd m (\<lambda>b. b\<lparr>ol_flags := ol_flags b AND NOT PKT_RX_VLAN_STRIPPED\<rparr>) h) (\<lambda>h.
             Inr (0, m, h)))))))))))"

section \<open>Checks\<close>

text \<open>The bit fields of \<open>tx_offload\<close>.\<close>

definition tx_field :: "rte_mbuf \<Rightarrow> nat \<Rightarrow> nat \<Rightarrow> uint64" where
  "tx_field b off w = drop_bit off (tx_offload b) AND mask w"

definition l2_len where "l2_len b = tx_field b 0 7"
definition l3_len where "l3_len b = tx_field b 7 9"
definition l4_len where "l4_len b = tx_field b 16 8"
definition tso_segsz where "tso_segsz b = tx_field b 24 16"
definition outer_l3_len where "outer_l3_len b = tx_field b 40 9"
definition outer_l2_len where "outer_l2_len b = tx_field b 49 7"

definition rte_validate_tx_offload :: "rte_mbuf \<Rightarrow> int" where
  "rte_validate_tx_offload m =
     (let fl = ol_flags m;
          on = \<lambda>f. fl AND f \<noteq> 0;
          inner_l3_offset = l2_len m + (if on PKT_TX_OUTER_IP_CKSUM then outer_l2_len m + outer_l3_len m else 0)
      in if \<not> on PKT_TX_OFFLOAD_MASK then 0
         else if ucast (data_len m) < inner_l3_offset + l3_len m + l4_len m then - ENOTSUP
         else if on PKT_TX_IP_CKSUM \<and> on PKT_TX_IPV6 then - EINVAL
         else if on (PKT_TX_L4_MASK OR PKT_TX_TCP_SEG) \<and> \<not> on (PKT_TX_IPV4 OR PKT_TX_IPV6) then - EINVAL
         else if on PKT_TX_TCP_SEG \<and> (tso_segsz m = 0 \<or> on PKT_TX_IPV4 \<and> \<not> on PKT_TX_IP_CKSUM) then - EINVAL
         else if on PKT_TX_OUTER_IP_CKSUM \<and> \<not> on PKT_TX_OUTER_IPV4 then - EINVAL
         else 0)"

text \<open>\<open>rte_panic\<close> ends the process. The segments are counted down from \<open>nb_segs\<close>.\<close>

fun count_segs :: "nat \<Rightarrow> mbuf_mem \<Rightarrow> addr option \<Rightarrow> nat cres" where
  "count_segs 0 h seg = Inr 0"
| "count_segs (Suc n) h None = Inr (Suc n)"
| "count_segs (Suc n) h (Some seg) = cbind (mbuf_at h seg) (\<lambda>b. count_segs n h (next_seg b))"

definition rte_mbuf_sanity_check :: "mbuf_mem \<Rightarrow> addr option \<Rightarrow> bool \<Rightarrow> unit cres" where
  "rte_mbuf_sanity_check h m is_header =
     (case m of None \<Rightarrow> Inl Exit_failure
      | Some m \<Rightarrow>
          cbind (mbuf_at h m) (\<lambda>b.
          if mb_pool b = 0 \<or> buf_physaddr b = 0 \<or> buf_addr b = 0 then Inl Exit_failure
          else if refcnt b = 0 \<or> refcnt b = 0xFFFF then Inl Exit_failure
          else if \<not> is_header then Inr ()
          else cbind (count_segs (unat (nb_segs b)) h (Some m)) (\<lambda>n.
               if n \<noteq> 0 then Inl Exit_failure else Inr ())))"

end
