(* ===== verification/Ethdev.thy ===== *)
theory Ethdev
  imports Mbuf
begin

text \<open>
  The Ethernet device layer of \<^verbatim>\<open>lib/librte_ether\<close>: the table of devices, configuring a device and
  its queues, starting and stopping it, and the receive and transmit calls. A driver is the
  record of functions it registers, as in the source; its functions work on the data of the
  device and on the world, which is the state of the hardware and the packet buffers. A missing
  function pointer is \<open>None\<close>. The debug build, flow rules, filters, statistics, hot plugging and
  the sharing of the table between processes are not modelled.
\<close>

section \<open>Configuration and device information\<close>

definition RTE_MAX_ETHPORTS :: nat where [c_defs]: "RTE_MAX_ETHPORTS = 32"
definition RTE_MAX_QUEUES_PER_PORT :: nat where [c_defs]: "RTE_MAX_QUEUES_PER_PORT = 1024"
definition RTE_ETH_DEV_INTR_LSC :: uint32 where [c_defs]: "RTE_ETH_DEV_INTR_LSC = 0x0002"
definition RTE_ETH_DEV_INTR_RMV :: uint32 where [c_defs]: "RTE_ETH_DEV_INTR_RMV = 0x0008"
definition EBUSY :: int where [c_defs]: "EBUSY = 16"

datatype rte_eth_dev_state = RTE_ETH_DEV_UNUSED | RTE_ETH_DEV_ATTACHED | RTE_ETH_DEV_DEFERRED

text \<open>The fields of the configuration that the device layer reads.\<close>

record rte_eth_conf =
  max_rx_pkt_len :: uint32
  jumbo_frame :: bool
  hw_strip_crc :: bool
  intr_lsc :: bool
  intr_rmv :: bool

record rte_eth_thresh =
  pthresh :: uint8
  hthresh :: uint8
  wthresh :: uint8

record rte_eth_rxconf =
  rx_thresh :: rte_eth_thresh
  rx_free_thresh :: uint16
  rx_drop_en :: uint8
  rx_deferred_start :: uint8

record rte_eth_txconf =
  tx_thresh :: rte_eth_thresh
  tx_rs_thresh :: uint16
  tx_free_thresh :: uint16
  txq_flags :: uint32
  tx_deferred_start :: uint8

record rte_eth_desc_lim =
  nb_max :: uint16
  nb_min :: uint16
  nb_align :: uint16

record rte_eth_dev_info =
  min_rx_bufsize :: uint32
  max_rx_pktlen :: uint32
  max_rx_queues :: uint16
  max_tx_queues :: uint16
  max_mac_addrs :: uint32
  default_rxconf :: rte_eth_rxconf
  default_txconf :: rte_eth_txconf
  rx_desc_lim :: rte_eth_desc_lim
  tx_desc_lim :: rte_eth_desc_lim
  info_nb_rx_queues :: uint16
  info_nb_tx_queues :: uint16

section \<open>Devices\<close>

text \<open>
  A queue is the driver's pointer to it; the array of queues is \<open>NULL\<close> before the first
  configuration, and its cells are \<open>NULL\<close> until the queue is set up.
\<close>

record rte_eth_dev_data =
  rx_queues :: "addr option list option"
  tx_queues :: "addr option list option"
  nb_rx_queues :: uint16
  nb_tx_queues :: uint16
  dev_private :: addr
  link_up :: bool
  dev_conf :: rte_eth_conf
  min_rx_buf_size :: uint32
  mac_addrs :: "ether_addr list"
  mac_pool_sel :: "uint64 list"
  promiscuous :: bool
  all_multicast :: bool
  dev_started :: bool
  rx_queue_started :: "bool list"
  tx_queue_started :: "bool list"
  dev_flags :: uint32

type_synonym 'w world = "'w \<times> mbuf_mem"
type_synonym 'w drv_op = "rte_eth_dev_data \<Rightarrow> 'w world \<Rightarrow> (int \<times> rte_eth_dev_data \<times> 'w world) cres"
type_synonym 'w drv_void = "rte_eth_dev_data \<Rightarrow> 'w world \<Rightarrow> (rte_eth_dev_data \<times> 'w world) cres"

text \<open>The functions of a driver that the modelled part of the layer calls.\<close>

record 'w eth_dev_ops =
  op_dev_configure :: "'w drv_op option"
  op_dev_start :: "'w drv_op option"
  op_dev_stop :: "'w drv_void option"
  op_dev_set_link_up :: "'w drv_op option"
  op_dev_set_link_down :: "'w drv_op option"
  op_dev_close :: "'w drv_void option"
  op_link_update :: "'w drv_op option"
  op_promiscuous_enable :: "'w drv_void option"
  op_promiscuous_disable :: "'w drv_void option"
  op_allmulticast_enable :: "'w drv_void option"
  op_allmulticast_disable :: "'w drv_void option"
  op_mac_addr_add :: "(ether_addr \<Rightarrow> uint32 \<Rightarrow> uint32 \<Rightarrow> 'w drv_op) option"
  op_mac_addr_set :: "(ether_addr \<Rightarrow> 'w drv_void) option"
  op_dev_infos_get :: "(rte_eth_dev_data \<Rightarrow> 'w world \<Rightarrow> rte_eth_dev_info \<Rightarrow> rte_eth_dev_info cres) option"
  op_rx_queue_start :: "(uint16 \<Rightarrow> 'w drv_op) option"
  op_rx_queue_stop :: "(uint16 \<Rightarrow> 'w drv_op) option"
  op_tx_queue_start :: "(uint16 \<Rightarrow> 'w drv_op) option"
  op_tx_queue_stop :: "(uint16 \<Rightarrow> 'w drv_op) option"
  op_rx_queue_setup :: "(uint16 \<Rightarrow> uint16 \<Rightarrow> rte_eth_rxconf \<Rightarrow> addr \<Rightarrow> 'w drv_op) option"
  op_rx_queue_release :: "(addr option \<Rightarrow> 'w world \<Rightarrow> 'w world cres) option"
  op_tx_queue_setup :: "(uint16 \<Rightarrow> uint16 \<Rightarrow> rte_eth_txconf \<Rightarrow> 'w drv_op) option"
  op_tx_queue_release :: "(addr option \<Rightarrow> 'w world \<Rightarrow> 'w world cres) option"

text \<open>
  The receive function gets a queue and the number of packets asked for and returns the
  packets, for which the caller's array has as many cells as it asked for; the transmit function gets packets and returns how many it took, the first ones.
  The callbacks see the packets before (transmit) or after (receive) the driver.
\<close>

record 'w rte_eth_dev =
  rx_pkt_burst :: "(addr option \<Rightarrow> uint16 \<Rightarrow> 'w world \<Rightarrow> (addr list \<times> 'w world) cres) option"
  tx_pkt_burst :: "(addr option \<Rightarrow> addr list \<Rightarrow> 'w world \<Rightarrow> (uint16 \<times> 'w world) cres) option"
  dev_data :: rte_eth_dev_data
  dev_ops :: "'w eth_dev_ops"
  post_rx_burst_cbs :: "(uint8 \<Rightarrow> uint16 \<Rightarrow> addr list \<Rightarrow> uint16 \<Rightarrow> 'w world \<Rightarrow> (addr list \<times> 'w world) cres) list list"
  pre_tx_burst_cbs :: "(uint8 \<Rightarrow> uint16 \<Rightarrow> addr list \<Rightarrow> 'w world \<Rightarrow> (addr list \<times> 'w world) cres) list list"
  dev_state :: rte_eth_dev_state

record 'w eth =
  devices :: "'w rte_eth_dev list"
  wld :: "'w world"

text \<open>
  What the layer gets from outside: whether \<open>rte_zmalloc\<close> and \<open>rte_realloc\<close> grant a number of
  bytes, and the contents of an uninitialised \<open>rte_eth_dev_info\<close> on the stack.
\<close>

record eth_env =
  grants :: "nat \<Rightarrow> bool"
  stack_info :: rte_eth_dev_info

definition dev_at :: "'w eth \<Rightarrow> uint8 \<Rightarrow> 'w rte_eth_dev cres" where
  "dev_at e p = (if unat p < length (devices e) then Inr (devices e ! unat p) else Inl Out_of_bounds)"

definition dev_set :: "uint8 \<Rightarrow> rte_eth_dev_data \<Rightarrow> 'w world \<Rightarrow> 'w eth \<Rightarrow> 'w eth" where
  "dev_set p d w e = e\<lparr>devices := (devices e)[unat p := (devices e ! unat p)\<lparr>dev_data := d\<rparr>], wld := w\<rparr>"

text \<open>Runs an operation on the data of a device.\<close>

definition with_dev ::
  "uint8 \<Rightarrow> ('w eth_dev_ops \<Rightarrow> rte_eth_dev_data \<Rightarrow> 'w world \<Rightarrow> ('a \<times> rte_eth_dev_data \<times> 'w world) cres) \<Rightarrow> 'w eth \<Rightarrow> ('a \<times> 'w eth) cres" where
  "with_dev p f e =
     cbind (dev_at e p) (\<lambda>dev.
     cbind (f (dev_ops dev) (dev_data dev) (wld e)) (\<lambda>(r, d, w). Inr (r, dev_set p d w e)))"

definition rte_eth_dev_is_valid_port :: "'w eth \<Rightarrow> uint8 \<Rightarrow> bool cres" where
  "rte_eth_dev_is_valid_port e p =
     (if RTE_MAX_ETHPORTS \<le> unat p then Inr False
      else cbind (dev_at e p) (\<lambda>dev.
           Inr (dev_state dev = RTE_ETH_DEV_ATTACHED \<or> dev_state dev = RTE_ETH_DEV_DEFERRED)))"

text \<open>The checks of the port at the start of an operation.\<close>

definition RTE_ETH_VALID_PORTID_OR_ERR_RET :: "uint8 \<Rightarrow> 'a \<Rightarrow> 'w eth \<Rightarrow> ('w eth \<Rightarrow> ('a \<times> 'w eth) cres) \<Rightarrow> ('a \<times> 'w eth) cres" where
  "RTE_ETH_VALID_PORTID_OR_ERR_RET p retval e f =
     cbind (rte_eth_dev_is_valid_port e p) (\<lambda>valid. if valid then f e else Inr (retval, e))"

definition RTE_ETH_VALID_PORTID_OR_RET :: "uint8 \<Rightarrow> 'w eth \<Rightarrow> ('w eth \<Rightarrow> 'w eth cres) \<Rightarrow> 'w eth cres" where
  "RTE_ETH_VALID_PORTID_OR_RET p e f =
     cbind (rte_eth_dev_is_valid_port e p) (\<lambda>valid. if valid then f e else Inr e)"

text \<open>\<open>rte_eth_find_next\<close>, with the rest of the table.\<close>

fun find_next :: "nat \<Rightarrow> 'w rte_eth_dev list \<Rightarrow> nat" where
  "find_next p [] = RTE_MAX_ETHPORTS"
| "find_next p (dev # devs) =
     (if RTE_MAX_ETHPORTS \<le> p then RTE_MAX_ETHPORTS
      else if dev_state dev \<noteq> RTE_ETH_DEV_ATTACHED then find_next (Suc p) devs else p)"

definition rte_eth_find_next :: "nat \<Rightarrow> 'w eth \<Rightarrow> nat" where
  "rte_eth_find_next p e = find_next p (drop p (devices e))"

lemma find_next_ge: "p \<le> RTE_MAX_ETHPORTS \<Longrightarrow> p \<le> find_next p devs \<and> find_next p devs \<le> RTE_MAX_ETHPORTS"
  by (induction p devs rule: find_next.induct) (auto simp: not_le dest: Suc_leD)

function count_from :: "nat \<Rightarrow> 'w eth \<Rightarrow> nat" where
  "count_from p e = (if p < RTE_MAX_ETHPORTS then Suc (count_from (rte_eth_find_next (p + 1) e) e) else 0)"
  by pat_completeness auto
termination
proof (relation "measure (\<lambda>(p, _). RTE_MAX_ETHPORTS - p)")
  fix p :: nat and e :: "'w eth"
  assume p: "p < RTE_MAX_ETHPORTS"
  then have "p + 1 \<le> rte_eth_find_next (p + 1) e"
    using find_next_ge [of "p + 1" "drop (p + 1) (devices e)"] by (simp add: rte_eth_find_next_def)
  then show "((rte_eth_find_next (p + 1) e, e), p, e) \<in> measure (\<lambda>(p, _). RTE_MAX_ETHPORTS - p)"
    using p by simp
qed simp

declare count_from.simps [simp del]

definition rte_eth_dev_count :: "'w eth \<Rightarrow> uint8" where
  "rte_eth_dev_count e = of_nat (count_from (rte_eth_find_next 0 e) e)"

section \<open>Configuring a device\<close>

text \<open>
  \<open>rte_eth_dev_rx_queue_config\<close> and \<open>rte_eth_dev_tx_queue_config\<close> share their code up to the names
  of the fields: \<open>qs\<close> is the array of queues and \<open>old\<close> its recorded length.
\<close>

definition queue_at :: "addr option list \<Rightarrow> nat \<Rightarrow> addr option cres" where
  "queue_at qs i = (if i < length qs then Inr (qs ! i) else Inl Out_of_bounds)"

definition queue_config ::
  "eth_env \<Rightarrow> (addr option \<Rightarrow> 'w world \<Rightarrow> 'w world cres) option \<Rightarrow> uint16 \<Rightarrow> addr option list option \<Rightarrow> uint16 \<Rightarrow> 'w world \<Rightarrow>
   (int \<times> addr option list option \<times> uint16 \<times> 'w world) cres" where
  "queue_config env release nb_queues qs old w =
     (case qs of
        None \<Rightarrow>
          if nb_queues = 0 then Inr (0, None, 0, w)
          else if grants env (8 * unat nb_queues) then Inr (0, Some (replicate (unat nb_queues) None), nb_queues, w)
          else Inr (- ENOMEM, None, 0, w)
      | Some cells \<Rightarrow>
          (case release of
             None \<Rightarrow> Inr (- ENOTSUP, qs, old, w)
           | Some rel \<Rightarrow>
               cbind (c_for (unat nb_queues) (unat old) (\<lambda>i w. cbind (queue_at cells i) (\<lambda>q. rel q w)) w) (\<lambda>w.
               if nb_queues = 0 then Inr (0, None, 0, w)
               else if grants env (8 * unat nb_queues)
               then Inr (0, Some (take (unat nb_queues) cells @ replicate (unat nb_queues - unat old) None), nb_queues, w)
               else Inr (- ENOMEM, qs, old, w))))"

definition rte_eth_dev_rx_queue_config :: "eth_env \<Rightarrow> 'w eth_dev_ops \<Rightarrow> uint16 \<Rightarrow> 'w drv_op" where
  "rte_eth_dev_rx_queue_config env ops nb_queues d w =
     cbind (queue_config env (op_rx_queue_release ops) nb_queues (rx_queues d) (nb_rx_queues d) w) (\<lambda>(r, qs, n, w).
     Inr (r, d\<lparr>rx_queues := qs, nb_rx_queues := n\<rparr>, w))"

definition rte_eth_dev_tx_queue_config :: "eth_env \<Rightarrow> 'w eth_dev_ops \<Rightarrow> uint16 \<Rightarrow> 'w drv_op" where
  "rte_eth_dev_tx_queue_config env ops nb_queues d w =
     cbind (queue_config env (op_tx_queue_release ops) nb_queues (tx_queues d) (nb_tx_queues d) w) (\<lambda>(r, qs, n, w).
     Inr (r, d\<lparr>tx_queues := qs, nb_tx_queues := n\<rparr>, w))"

text \<open>The checks of \<open>rte_eth_dev_configure\<close> against what the device supports.\<close>

definition conf_unsupported :: "rte_eth_dev_info \<Rightarrow> rte_eth_dev_data \<Rightarrow> uint16 \<Rightarrow> uint16 \<Rightarrow> rte_eth_conf \<Rightarrow> bool" where
  "conf_unsupported info d nb_rx_q nb_tx_q conf \<longleftrightarrow>
     nb_rx_q = 0 \<and> nb_tx_q = 0 \<or> max_rx_queues info < nb_rx_q \<or> max_tx_queues info < nb_tx_q
     \<or> intr_lsc conf \<and> dev_flags d AND RTE_ETH_DEV_INTR_LSC = 0
     \<or> intr_rmv conf \<and> dev_flags d AND RTE_ETH_DEV_INTR_RMV = 0
     \<or> jumbo_frame conf \<and> (max_rx_pktlen info < max_rx_pkt_len conf \<or> unat (max_rx_pkt_len conf) < ETHER_MIN_LEN)"

definition default_pkt_len :: "rte_eth_conf \<Rightarrow> rte_eth_conf" where
  "default_pkt_len conf =
     (if \<not> jumbo_frame conf \<and> (unat (max_rx_pkt_len conf) < ETHER_MIN_LEN \<or> ETHER_MAX_LEN < unat (max_rx_pkt_len conf))
      then conf\<lparr>max_rx_pkt_len := of_nat ETHER_MAX_LEN\<rparr> else conf)"

definition dev_configure_on :: "eth_env \<Rightarrow> uint16 \<Rightarrow> uint16 \<Rightarrow> rte_eth_conf \<Rightarrow> 'w eth_dev_ops \<Rightarrow> 'w drv_op" where
  "dev_configure_on env nb_rx_q nb_tx_q conf ops d w =
     (if RTE_MAX_QUEUES_PER_PORT < unat nb_rx_q \<or> RTE_MAX_QUEUES_PER_PORT < unat nb_tx_q then Inr (- EINVAL, d, w)
      else case (op_dev_infos_get ops, op_dev_configure ops) of
        (Some infos, Some configure) \<Rightarrow>
          if dev_started d then Inr (- EBUSY, d, w)
          else let d = d\<lparr>dev_conf := conf\<rparr>
               in cbind (infos d w (stack_info env)) (\<lambda>info.
                  if conf_unsupported info d nb_rx_q nb_tx_q conf then Inr (- EINVAL, d, w)
                  else cbind (rte_eth_dev_rx_queue_config env ops nb_rx_q (d\<lparr>dev_conf := default_pkt_len conf\<rparr>) w) (\<lambda>(diag, d, w).
                       if diag \<noteq> 0 then Inr (diag, d, w)
                       else cbind (rte_eth_dev_tx_queue_config env ops nb_tx_q d w) (\<lambda>(diag, d, w).
                            if diag \<noteq> 0
                            then cbind (rte_eth_dev_rx_queue_config env ops 0 d w) (\<lambda>(_, d, w). Inr (diag, d, w))
                            else cbind (configure d w) (\<lambda>(diag, d, w).
                                 if diag \<noteq> 0
                                 then cbind (rte_eth_dev_rx_queue_config env ops 0 d w) (\<lambda>(_, d, w).
                                      cbind (rte_eth_dev_tx_queue_config env ops 0 d w) (\<lambda>(_, d, w). Inr (diag, d, w)))
                                 else Inr (0, d, w)))))
      | _ \<Rightarrow> Inr (- ENOTSUP, d, w))"

definition rte_eth_dev_configure :: "eth_env \<Rightarrow> uint8 \<Rightarrow> uint16 \<Rightarrow> uint16 \<Rightarrow> rte_eth_conf \<Rightarrow> 'w eth \<Rightarrow> (int \<times> 'w eth) cres" where
  "rte_eth_dev_configure env port_id nb_rx_q nb_tx_q conf e =
     RTE_ETH_VALID_PORTID_OR_ERR_RET port_id (- EINVAL) e (with_dev port_id (dev_configure_on env nb_rx_q nb_tx_q conf))"

definition zero_conf :: rte_eth_conf where
  "zero_conf = \<lparr>max_rx_pkt_len = 0, jumbo_frame = False, hw_strip_crc = False, intr_lsc = False, intr_rmv = False\<rparr>"

definition rte_eth_dev_reset :: "eth_env \<Rightarrow> 'w eth_dev_ops \<Rightarrow> 'w drv_void" where
  "rte_eth_dev_reset env ops d w =
     (if dev_started d then Inr (d, w)
      else cbind (rte_eth_dev_rx_queue_config env ops 0 d w) (\<lambda>(_, d, w).
           cbind (rte_eth_dev_tx_queue_config env ops 0 d w) (\<lambda>(_, d, w).
           Inr (d\<lparr>dev_conf := zero_conf\<rparr>, w))))"

definition zero_dev_info :: rte_eth_dev_info where
  "zero_dev_info =
     (let t = \<lparr>pthresh = 0, hthresh = 0, wthresh = 0\<rparr>; lim = \<lparr>nb_max = 0xffff, nb_min = 0, nb_align = 1\<rparr>
      in \<lparr>min_rx_bufsize = 0, max_rx_pktlen = 0, max_rx_queues = 0, max_tx_queues = 0, max_mac_addrs = 0,
          default_rxconf = \<lparr>rx_thresh = t, rx_free_thresh = 0, rx_drop_en = 0, rx_deferred_start = 0\<rparr>,
          default_txconf = \<lparr>tx_thresh = t, tx_rs_thresh = 0, tx_free_thresh = 0, txq_flags = 0, tx_deferred_start = 0\<rparr>,
          rx_desc_lim = lim, tx_desc_lim = lim, info_nb_rx_queues = 0, info_nb_tx_queues = 0\<rparr>)"

text \<open>\<open>rte_eth_dev_info_get\<close> on a valid port.\<close>

definition dev_info_of :: "'w eth_dev_ops \<Rightarrow> rte_eth_dev_data \<Rightarrow> 'w world \<Rightarrow> rte_eth_dev_info cres" where
  "dev_info_of ops d w =
     (case op_dev_infos_get ops of
        None \<Rightarrow> Inr zero_dev_info
      | Some infos \<Rightarrow>
          cbind (infos d w zero_dev_info) (\<lambda>info.
          Inr (info\<lparr>info_nb_rx_queues := nb_rx_queues d, info_nb_tx_queues := nb_tx_queues d\<rparr>)))"

definition rte_eth_dev_info_get :: "uint8 \<Rightarrow> rte_eth_dev_info \<Rightarrow> 'w eth \<Rightarrow> rte_eth_dev_info cres" where
  "rte_eth_dev_info_get port_id dev_info e =
     cbind (rte_eth_dev_is_valid_port e port_id) (\<lambda>valid.
     if \<not> valid then Inr dev_info
     else cbind (dev_at e port_id) (\<lambda>dev. dev_info_of (dev_ops dev) (dev_data dev) (wld e)))"

section \<open>Queues\<close>

definition desc_invalid :: "uint16 \<Rightarrow> rte_eth_desc_lim \<Rightarrow> bool cres" where
  "desc_invalid nb_desc lim =
     (if nb_max lim < nb_desc \<or> nb_desc < nb_min lim then Inr True
      else if nb_align lim = 0 then Inl Div_by_zero
      else Inr (nb_desc mod nb_align lim \<noteq> 0))"

text \<open>Releasing the queue that an earlier setup left in a cell of the array.\<close>

definition drop_queue ::
  "(addr option \<Rightarrow> 'w world \<Rightarrow> 'w world cres) option \<Rightarrow> addr option list option \<Rightarrow> nat \<Rightarrow> 'w world \<Rightarrow>
   (addr option list option \<times> 'w world) option cres" where
  "drop_queue release qs i w =
     (case qs of
        None \<Rightarrow> Inl Null_deref
      | Some cells \<Rightarrow>
          cbind (queue_at cells i) (\<lambda>q.
          case q of
            None \<Rightarrow> Inr (Some (qs, w))
          | Some a \<Rightarrow>
              (case release of
                 None \<Rightarrow> Inr None
               | Some rel \<Rightarrow> cbind (rel (Some a) w) (\<lambda>w. Inr (Some (Some (cells[i := None]), w))))))"

definition rx_queue_setup_on :: "uint16 \<Rightarrow> uint16 \<Rightarrow> rte_eth_rxconf option \<Rightarrow> addr \<Rightarrow> 'w eth_dev_ops \<Rightarrow> 'w drv_op" where
  "rx_queue_setup_on rx_queue_id nb_rx_desc rx_conf mp ops d w =
     (if nb_rx_queues d \<le> rx_queue_id then Inr (- EINVAL, d, w)
      else if dev_started d then Inr (- EBUSY, d, w)
      else case (op_dev_infos_get ops, op_rx_queue_setup ops) of
        (Some _, Some setup) \<Rightarrow>
          cbind (dev_info_of ops d w) (\<lambda>dev_info.
          cbind (pool_at (snd w) mp) (\<lambda>pp.
             if private_data_size (pool_mp pp) < SIZEOF_POOL_PRIVATE then Inr (- ENOSPC, d, w)
             else let mbp_buf_size = (ucast (rte_pktmbuf_data_room_size pp) :: uint32)
                  in if mbp_buf_size - ucast RTE_PKTMBUF_HEADROOM < min_rx_bufsize dev_info then Inr (- EINVAL, d, w)
                     else cbind (desc_invalid nb_rx_desc (rx_desc_lim dev_info)) (\<lambda>bad.
                          if bad then Inr (- EINVAL, d, w)
                          else cbind (drop_queue (op_rx_queue_release ops) (rx_queues d) (unat rx_queue_id) w) (\<lambda>dropped.
                          case dropped of
                            None \<Rightarrow> Inr (- ENOTSUP, d, w)
                          | Some (qs, w) \<Rightarrow>
                              cbind (setup rx_queue_id nb_rx_desc (case rx_conf of None \<Rightarrow> default_rxconf dev_info | Some c \<Rightarrow> c) mp
                                       (d\<lparr>rx_queues := qs\<rparr>) w) (\<lambda>(ret, d, w).
                              if ret = 0 \<and> (min_rx_buf_size d = 0 \<or> mbp_buf_size < min_rx_buf_size d)
                              then Inr (ret, d\<lparr>min_rx_buf_size := mbp_buf_size\<rparr>, w) else Inr (ret, d, w))))))
      | _ \<Rightarrow> Inr (- ENOTSUP, d, w))"

definition rte_eth_rx_queue_setup ::
  "uint8 \<Rightarrow> uint16 \<Rightarrow> uint16 \<Rightarrow> rte_eth_rxconf option \<Rightarrow> addr \<Rightarrow> 'w eth \<Rightarrow> (int \<times> 'w eth) cres" where
  "rte_eth_rx_queue_setup port_id rx_queue_id nb_rx_desc rx_conf mp e =
     RTE_ETH_VALID_PORTID_OR_ERR_RET port_id (- EINVAL) e (with_dev port_id (rx_queue_setup_on rx_queue_id nb_rx_desc rx_conf mp))"

definition tx_queue_setup_on :: "uint16 \<Rightarrow> uint16 \<Rightarrow> rte_eth_txconf option \<Rightarrow> 'w eth_dev_ops \<Rightarrow> 'w drv_op" where
  "tx_queue_setup_on tx_queue_id nb_tx_desc tx_conf ops d w =
     (if nb_tx_queues d \<le> tx_queue_id then Inr (- EINVAL, d, w)
      else if dev_started d then Inr (- EBUSY, d, w)
      else case (op_dev_infos_get ops, op_tx_queue_setup ops) of
        (Some _, Some setup) \<Rightarrow>
          cbind (dev_info_of ops d w) (\<lambda>dev_info.
             cbind (desc_invalid nb_tx_desc (tx_desc_lim dev_info)) (\<lambda>bad.
             if bad then Inr (- EINVAL, d, w)
             else cbind (drop_queue (op_tx_queue_release ops) (tx_queues d) (unat tx_queue_id) w) (\<lambda>dropped.
                  case dropped of
                    None \<Rightarrow> Inr (- ENOTSUP, d, w)
                  | Some (qs, w) \<Rightarrow>
                      setup tx_queue_id nb_tx_desc (case tx_conf of None \<Rightarrow> default_txconf dev_info | Some c \<Rightarrow> c)
                        (d\<lparr>tx_queues := qs\<rparr>) w)))
      | _ \<Rightarrow> Inr (- ENOTSUP, d, w))"

definition rte_eth_tx_queue_setup ::
  "uint8 \<Rightarrow> uint16 \<Rightarrow> uint16 \<Rightarrow> rte_eth_txconf option \<Rightarrow> 'w eth \<Rightarrow> (int \<times> 'w eth) cres" where
  "rte_eth_tx_queue_setup port_id tx_queue_id nb_tx_desc tx_conf e =
     RTE_ETH_VALID_PORTID_OR_ERR_RET port_id (- EINVAL) e (with_dev port_id (tx_queue_setup_on tx_queue_id nb_tx_desc tx_conf))"

text \<open>Starting and stopping one queue: \<open>stopped\<close> tells in which state there is something to do.\<close>

definition queue_switch :: "(uint16 \<Rightarrow> 'w drv_op) option \<Rightarrow> bool list \<Rightarrow> uint16 \<Rightarrow> bool \<Rightarrow> uint16 \<Rightarrow> 'w drv_op" where
  "queue_switch switch started nb_queues stopped queue_id d w =
     (if nb_queues \<le> queue_id then Inr (- EINVAL, d, w)
      else case switch of
        None \<Rightarrow> Inr (- ENOTSUP, d, w)
      | Some f \<Rightarrow>
          if length started \<le> unat queue_id then Inl Out_of_bounds
          else if started ! unat queue_id = stopped then Inr (0, d, w)
          else f queue_id d w)"

definition rte_eth_dev_rx_queue_start :: "uint8 \<Rightarrow> uint16 \<Rightarrow> 'w eth \<Rightarrow> (int \<times> 'w eth) cres" where
  "rte_eth_dev_rx_queue_start port_id rx_queue_id e =
     RTE_ETH_VALID_PORTID_OR_ERR_RET port_id (- EINVAL) e (with_dev port_id (\<lambda>ops d w.
       queue_switch (op_rx_queue_start ops) (rx_queue_started d) (nb_rx_queues d) True rx_queue_id d w))"

definition rte_eth_dev_rx_queue_stop :: "uint8 \<Rightarrow> uint16 \<Rightarrow> 'w eth \<Rightarrow> (int \<times> 'w eth) cres" where
  "rte_eth_dev_rx_queue_stop port_id rx_queue_id e =
     RTE_ETH_VALID_PORTID_OR_ERR_RET port_id (- EINVAL) e (with_dev port_id (\<lambda>ops d w.
       queue_switch (op_rx_queue_stop ops) (rx_queue_started d) (nb_rx_queues d) False rx_queue_id d w))"

definition rte_eth_dev_tx_queue_start :: "uint8 \<Rightarrow> uint16 \<Rightarrow> 'w eth \<Rightarrow> (int \<times> 'w eth) cres" where
  "rte_eth_dev_tx_queue_start port_id tx_queue_id e =
     RTE_ETH_VALID_PORTID_OR_ERR_RET port_id (- EINVAL) e (with_dev port_id (\<lambda>ops d w.
       queue_switch (op_tx_queue_start ops) (tx_queue_started d) (nb_tx_queues d) True tx_queue_id d w))"

definition rte_eth_dev_tx_queue_stop :: "uint8 \<Rightarrow> uint16 \<Rightarrow> 'w eth \<Rightarrow> (int \<times> 'w eth) cres" where
  "rte_eth_dev_tx_queue_stop port_id tx_queue_id e =
     RTE_ETH_VALID_PORTID_OR_ERR_RET port_id (- EINVAL) e (with_dev port_id (\<lambda>ops d w.
       queue_switch (op_tx_queue_stop ops) (tx_queue_started d) (nb_tx_queues d) False tx_queue_id d w))"

section \<open>Starting and stopping a device\<close>

text \<open>The modes on a valid port.\<close>

definition promiscuous_enable_on :: "'w eth_dev_ops \<Rightarrow> 'w drv_void" where
  "promiscuous_enable_on ops d w =
     (case op_promiscuous_enable ops of
        None \<Rightarrow> Inr (d, w) | Some f \<Rightarrow> cbind (f d w) (\<lambda>(d, w). Inr (d\<lparr>promiscuous := True\<rparr>, w)))"

definition promiscuous_disable_on :: "'w eth_dev_ops \<Rightarrow> 'w drv_void" where
  "promiscuous_disable_on ops d w =
     (case op_promiscuous_disable ops of None \<Rightarrow> Inr (d, w) | Some f \<Rightarrow> f (d\<lparr>promiscuous := False\<rparr>) w)"

definition allmulticast_enable_on :: "'w eth_dev_ops \<Rightarrow> 'w drv_void" where
  "allmulticast_enable_on ops d w =
     (case op_allmulticast_enable ops of
        None \<Rightarrow> Inr (d, w) | Some f \<Rightarrow> cbind (f d w) (\<lambda>(d, w). Inr (d\<lparr>all_multicast := True\<rparr>, w)))"

definition allmulticast_disable_on :: "'w eth_dev_ops \<Rightarrow> 'w drv_void" where
  "allmulticast_disable_on ops d w =
     (case op_allmulticast_disable ops of None \<Rightarrow> Inr (d, w) | Some f \<Rightarrow> f (d\<lparr>all_multicast := False\<rparr>) w)"

text \<open>A void operation on a port.\<close>

definition void_on :: "uint8 \<Rightarrow> ('w eth_dev_ops \<Rightarrow> 'w drv_void) \<Rightarrow> 'w eth \<Rightarrow> 'w eth cres" where
  "void_on port_id f e =
     RTE_ETH_VALID_PORTID_OR_RET port_id e (\<lambda>e.
       cbind (with_dev port_id (\<lambda>ops d w. cbind (f ops d w) (\<lambda>(d, w). Inr ((), d, w))) e) (\<lambda>(_, e). Inr e))"

definition rte_eth_promiscuous_enable :: "uint8 \<Rightarrow> 'w eth \<Rightarrow> 'w eth cres" where
  "rte_eth_promiscuous_enable port_id = void_on port_id promiscuous_enable_on"

definition rte_eth_promiscuous_disable :: "uint8 \<Rightarrow> 'w eth \<Rightarrow> 'w eth cres" where
  "rte_eth_promiscuous_disable port_id = void_on port_id promiscuous_disable_on"

definition rte_eth_allmulticast_enable :: "uint8 \<Rightarrow> 'w eth \<Rightarrow> 'w eth cres" where
  "rte_eth_allmulticast_enable port_id = void_on port_id allmulticast_enable_on"

definition rte_eth_allmulticast_disable :: "uint8 \<Rightarrow> 'w eth \<Rightarrow> 'w eth cres" where
  "rte_eth_allmulticast_disable port_id = void_on port_id allmulticast_disable_on"

text \<open>The loop over the pools of a MAC address, and the one over the addresses, whose counter has 16 bits.\<close>

function pool_loop :: "(uint32 \<Rightarrow> 'w drv_op) \<Rightarrow> uint64 \<Rightarrow> uint32 \<Rightarrow> 'w drv_void" where
  "pool_loop add pool_mask pool d w =
     cbind (if pool_mask AND 1 \<noteq> 0 then cbind (add pool d w) (\<lambda>(_, d, w). Inr (d, w)) else Inr (d, w)) (\<lambda>(d, w).
     if drop_bit 1 pool_mask = 0 then Inr (d, w) else pool_loop add (drop_bit 1 pool_mask) (pool + 1) d w)"
  by pat_completeness auto
termination
proof (relation "measure (\<lambda>(_, m, _). unat m)")
  fix m :: uint64
  assume "drop_bit 1 m \<noteq> 0"
  then have "unat (drop_bit 1 m) \<noteq> 0" by (simp add: unat_eq_0)
  moreover have "unat (drop_bit 1 m) = unat m div 2" by (simp add: drop_bit_eq_div unat_div)
  ultimately have "unat (drop_bit 1 m) < unat m" by simp
  then show "((add :: uint32 \<Rightarrow> 'w drv_op, drop_bit 1 m, pool + 1 :: uint32, d :: rte_eth_dev_data, w :: 'w world), add', m, pool' :: uint32, d' :: rte_eth_dev_data, w' :: 'w world)
    \<in> measure (\<lambda>(_, m, _). unat m)" for add add' pool d w pool' d' w'
    by simp
qed simp

declare pool_loop.simps [simp del]

definition mac_restore :: "'w eth_dev_ops \<Rightarrow> nat \<Rightarrow> 'w drv_void" where
  "mac_restore ops n d w =
     (case mac_addrs d of
        [] \<Rightarrow> Inl Out_of_bounds
      | addr # _ \<Rightarrow>
          cbind (case op_mac_addr_set ops of
                   Some f \<Rightarrow> f addr d w
                 | None \<Rightarrow> (case op_mac_addr_add ops of
                              None \<Rightarrow> Inr (d, w)
                            | Some add \<Rightarrow> cbind (add addr 0 0 d w) (\<lambda>(_, d, w). Inr (d, w)))) (\<lambda>(d, w).
          case op_mac_addr_add ops of
            None \<Rightarrow> Inr (d, w)
          | Some add \<Rightarrow>
              cbind (c_for 1 (min n (2 ^ 16)) (\<lambda>i (d, w).
                if length (mac_addrs d) \<le> i then Inl Out_of_bounds
                else if is_zero_ether_addr (mac_addrs d ! i) then Inr (d, w)
                else if length (mac_pool_sel d) \<le> i then Inl Out_of_bounds
                else pool_loop (add (mac_addrs d ! i) (of_nat i)) (mac_pool_sel d ! i) 0 d w) (d, w)) (\<lambda>dw.
              if 2 ^ 16 \<le> n then Inl No_return else Inr dw)))"

definition rte_eth_dev_config_restore :: "'w eth_dev_ops \<Rightarrow> 'w drv_void" where
  "rte_eth_dev_config_restore ops d w =
     cbind (dev_info_of ops d w) (\<lambda>dev_info.
     cbind (mac_restore ops (unat (max_mac_addrs dev_info)) d w) (\<lambda>(d, w).
     cbind (if promiscuous d then promiscuous_enable_on ops d w else promiscuous_disable_on ops d w) (\<lambda>(d, w).
     if all_multicast d then allmulticast_enable_on ops d w else allmulticast_disable_on ops d w)))"

definition dev_start_on :: "'w eth_dev_ops \<Rightarrow> 'w drv_op" where
  "dev_start_on ops d w =
     (case op_dev_start ops of
        None \<Rightarrow> Inr (- ENOTSUP, d, w)
      | Some start \<Rightarrow>
          if dev_started d then Inr (0, d, w)
          else cbind (start d w) (\<lambda>(diag, d, w).
               if diag \<noteq> 0 then Inr (diag, d, w)
               else cbind (rte_eth_dev_config_restore ops (d\<lparr>dev_started := True\<rparr>) w) (\<lambda>(d, w).
                    if intr_lsc (dev_conf d) then Inr (0, d, w)
                    else case op_link_update ops of
                      None \<Rightarrow> Inr (- ENOTSUP, d, w)
                    | Some update \<Rightarrow> cbind (update d w) (\<lambda>(_, d, w). Inr (0, d, w)))))"

definition rte_eth_dev_start :: "uint8 \<Rightarrow> 'w eth \<Rightarrow> (int \<times> 'w eth) cres" where
  "rte_eth_dev_start port_id e = RTE_ETH_VALID_PORTID_OR_ERR_RET port_id (- EINVAL) e (with_dev port_id dev_start_on)"

definition rte_eth_dev_stop :: "uint8 \<Rightarrow> 'w eth \<Rightarrow> 'w eth cres" where
  "rte_eth_dev_stop port_id =
     void_on port_id (\<lambda>ops d w.
       case op_dev_stop ops of
         None \<Rightarrow> Inr (d, w)
       | Some stop \<Rightarrow> if dev_started d then stop (d\<lparr>dev_started := False\<rparr>) w else Inr (d, w))"

definition rte_eth_dev_set_link_up :: "uint8 \<Rightarrow> 'w eth \<Rightarrow> (int \<times> 'w eth) cres" where
  "rte_eth_dev_set_link_up port_id e =
     RTE_ETH_VALID_PORTID_OR_ERR_RET port_id (- EINVAL) e (with_dev port_id (\<lambda>ops d w.
       case op_dev_set_link_up ops of None \<Rightarrow> Inr (- ENOTSUP, d, w) | Some f \<Rightarrow> f d w))"

definition rte_eth_dev_set_link_down :: "uint8 \<Rightarrow> 'w eth \<Rightarrow> (int \<times> 'w eth) cres" where
  "rte_eth_dev_set_link_down port_id e =
     RTE_ETH_VALID_PORTID_OR_ERR_RET port_id (- EINVAL) e (with_dev port_id (\<lambda>ops d w.
       case op_dev_set_link_down ops of None \<Rightarrow> Inr (- ENOTSUP, d, w) | Some f \<Rightarrow> f d w))"

definition rte_eth_dev_close :: "uint8 \<Rightarrow> 'w eth \<Rightarrow> 'w eth cres" where
  "rte_eth_dev_close port_id =
     void_on port_id (\<lambda>ops d w.
       case op_dev_close ops of
         None \<Rightarrow> Inr (d, w)
       | Some close \<Rightarrow>
           cbind (close (d\<lparr>dev_started := False\<rparr>) w) (\<lambda>(d, w).
           Inr (d\<lparr>nb_rx_queues := 0, rx_queues := None, nb_tx_queues := 0, tx_queues := None\<rparr>, w)))"

text \<open>On a port that does not exist the address of the caller stays as it is.\<close>

definition rte_eth_macaddr_get :: "uint8 \<Rightarrow> ether_addr \<Rightarrow> 'w eth \<Rightarrow> ether_addr cres" where
  "rte_eth_macaddr_get port_id mac_addr e =
     cbind (rte_eth_dev_is_valid_port e port_id) (\<lambda>valid.
     if \<not> valid then Inr mac_addr
     else cbind (dev_at e port_id) (\<lambda>dev.
          case mac_addrs (dev_data dev) of [] \<Rightarrow> Inl Out_of_bounds | a # _ \<Rightarrow> Inr (ether_addr_copy a mac_addr)))"

section \<open>Receiving and transmitting\<close>

definition queue_ptr :: "addr option list option \<Rightarrow> nat \<Rightarrow> addr option cres" where
  "queue_ptr qs i = (case qs of None \<Rightarrow> Inl Null_deref | Some cells \<Rightarrow> queue_at cells i)"

definition cbs_at :: "'c list list \<Rightarrow> nat \<Rightarrow> 'c list cres" where
  "cbs_at cbs i = (if i < length cbs then Inr (cbs ! i) else Inl Out_of_bounds)"

fun run_cbs :: "('a list \<Rightarrow> 'w \<Rightarrow> ('a list \<times> 'w) cres) list \<Rightarrow> 'a list \<Rightarrow> 'w \<Rightarrow> ('a list \<times> 'w) cres" where
  "run_cbs [] pkts w = Inr (pkts, w)"
| "run_cbs (cb # cbs) pkts w = cbind (cb pkts w) (\<lambda>(pkts, w). run_cbs cbs pkts w)"

definition rte_eth_rx_burst :: "uint8 \<Rightarrow> uint16 \<Rightarrow> uint16 \<Rightarrow> 'w eth \<Rightarrow> (addr list \<times> 'w eth) cres" where
  "rte_eth_rx_burst port_id queue_id nb_pkts e =
     cbind (dev_at e port_id) (\<lambda>dev.
     cbind (queue_ptr (rx_queues (dev_data dev)) (unat queue_id)) (\<lambda>q.
     case rx_pkt_burst dev of
       None \<Rightarrow> Inl Null_deref
     | Some rx \<Rightarrow>
         cbind (rx q nb_pkts (wld e)) (\<lambda>(pkts, w).
         if unat nb_pkts < length pkts then Inl Out_of_bounds
         else cbind (cbs_at (post_rx_burst_cbs dev) (unat queue_id)) (\<lambda>cbs.
         cbind (run_cbs (map (\<lambda>cb pkts w. cb port_id queue_id pkts nb_pkts w) cbs) pkts w) (\<lambda>(pkts, w).
         Inr (pkts, e\<lparr>wld := w\<rparr>))))))"

definition rte_eth_tx_burst :: "uint8 \<Rightarrow> uint16 \<Rightarrow> addr list \<Rightarrow> 'w eth \<Rightarrow> (uint16 \<times> 'w eth) cres" where
  "rte_eth_tx_burst port_id queue_id tx_pkts e =
     cbind (dev_at e port_id) (\<lambda>dev.
     cbind (cbs_at (pre_tx_burst_cbs dev) (unat queue_id)) (\<lambda>cbs.
     cbind (run_cbs (map (\<lambda>cb pkts w. cb port_id queue_id pkts w) cbs) tx_pkts (wld e)) (\<lambda>(pkts, w).
     cbind (queue_ptr (tx_queues (dev_data dev)) (unat queue_id)) (\<lambda>q.
     case tx_pkt_burst dev of
       None \<Rightarrow> Inl Null_deref
     | Some tx \<Rightarrow> cbind (tx q pkts w) (\<lambda>(n, w). Inr (n, e\<lparr>wld := w\<rparr>))))))"

end
