(* ===== verification/DpdkInit.thy ===== *)
theory DpdkInit
  imports Ethdev CString
begin

text \<open>
  Setting up the devices for the router: \<^verbatim>\<open>dpdk_init.c\<close> and \<^verbatim>\<open>dpdk_init.h\<close>. The environment gives
  the EAL services that creating a pool needs, the place of the pool with a given number, and a bound
  for the search of an object size. \<open>exit\<close> is the error \<open>Exit_failure\<close>. The socket of the
  calling lcore is not modelled, and \<open>rte_eal_init\<close> is not part of the model.
\<close>

record init_env =
  env_eal :: eal_env
  env_eth :: eth_env
  env_fuel :: nat
  pool_place :: "int \<Rightarrow> addr"

record 'w sys =
  sys_eth :: "'w eth"
  pool_id :: int

definition RX_DESCS :: uint32 where [c_defs]: "RX_DESCS = 256"
definition TX_DESCS :: uint32 where [c_defs]: "TX_DESCS = 256"
definition MEMPOOL_CACHE_SIZE :: uint32 where [c_defs]: "MEMPOOL_CACHE_SIZE = 256"
definition MEMPOOL_SIZE :: uint32 where [c_defs]: "MEMPOOL_SIZE = 2047"
definition MBUF_SIZE :: uint32 where [c_defs]: "MBUF_SIZE = 1600"

definition check_dpdk_error :: "uint32 \<Rightarrow> unit cres" where
  "check_dpdk_error rc = (if rc \<noteq> 0 then Inl Exit_failure else Inr ())"

text \<open>The store of the world after an operation on it.\<close>

definition set_store :: "mbuf_mem \<Rightarrow> 'w eth \<Rightarrow> 'w eth" where
  "set_store h e = e\<lparr>wld := (fst (wld e), h)\<rparr>"

definition create_mempool :: "init_env \<Rightarrow> 'w sys \<Rightarrow> (addr \<times> 'w sys) cres" where
  "create_mempool env s =
     (let k = pool_id s; s = s\<lparr>pool_id := k + 1\<rparr>;
          pool_name = ''pool'' @ fmt_u (nat k); p = pool_place env k
      in cbind (rte_pktmbuf_pool_create (env_fuel env) (env_eal env) p pool_name MEMPOOL_SIZE MEMPOOL_CACHE_SIZE 0
                 (ucast (MBUF_SIZE + ucast RTE_PKTMBUF_HEADROOM)) (snd (wld (sys_eth s)))) (\<lambda>res.
         case res of
           None \<Rightarrow> Inl No_return
         | Some (created, h) \<Rightarrow>
             if created then Inr (p, s\<lparr>sys_eth := set_store h (sys_eth s)\<rparr>) else Inl Exit_failure))"

definition port_conf :: rte_eth_conf where
  "port_conf = \<lparr>max_rx_pkt_len = 0, jumbo_frame = False, hw_strip_crc = True, intr_lsc = False, intr_rmv = False\<rparr>"

text \<open>A call of the device layer whose result is checked.\<close>

definition checked :: "('w eth \<Rightarrow> (int \<times> 'w eth) cres) \<Rightarrow> 'w sys \<Rightarrow> 'w sys cres" where
  "checked f s =
     cbind (f (sys_eth s)) (\<lambda>(rc, e).
     cbind (check_dpdk_error (of_int rc)) (\<lambda>_. Inr (s\<lparr>sys_eth := e\<rparr>)))"

definition setup_queue :: "init_env \<Rightarrow> uint8 \<Rightarrow> rte_eth_dev_info \<Rightarrow> nat \<Rightarrow> 'w sys \<Rightarrow> 'w sys cres" where
  "setup_queue env port dev_info queue s =
     cbind (checked (rte_eth_tx_queue_setup port (of_nat queue) (ucast TX_DESCS) (Some (default_txconf dev_info))) s) (\<lambda>s.
     cbind (create_mempool env s) (\<lambda>(pool, s).
     checked (rte_eth_rx_queue_setup port (of_nat queue) (ucast RX_DESCS) (Some (default_rxconf dev_info)) pool) s))"

definition configure_device :: "init_env \<Rightarrow> uint8 \<Rightarrow> uint16 \<Rightarrow> 'w sys \<Rightarrow> 'w sys cres" where
  "configure_device env port num_queues s =
     cbind (checked (rte_eth_dev_configure (env_eth env) port num_queues num_queues port_conf) s) (\<lambda>s.
     cbind (rte_eth_dev_info_get port (stack_info (env_eth env)) (sys_eth s)) (\<lambda>dev_info.
     cbind (c_for 0 (unat num_queues) (setup_queue env port dev_info) s) (\<lambda>s.
     checked (rte_eth_dev_start port) s)))"

text \<open>
  The loop of \<open>recv_from_device\<close>: \<open>i\<close> is the queue, \<open>bufs\<close> are the packets received so far, whose
  number the variable \<open>rx\<close> of 16 bits counts; the array has fewer than \<open>2 ^ 16\<close> cells.
\<close>

function recv_loop :: "uint8 \<Rightarrow> nat \<Rightarrow> nat \<Rightarrow> uint32 \<Rightarrow> addr list \<Rightarrow> 'w eth \<Rightarrow> (addr list \<times> 'w eth) cres" where
  "recv_loop port i n num_bufs bufs e =
     (if i < n \<and> ucast (of_nat (length bufs) :: uint16) < num_bufs then
        cbind (rte_eth_rx_burst port (of_nat i) (ucast (num_bufs - of_nat (length bufs))) e) (\<lambda>(pkts, e).
        recv_loop port (Suc i) n num_bufs (bufs @ pkts) e)
      else Inr (bufs, e))"
  by pat_completeness auto
termination
  by (relation "measure (\<lambda>(_, i, n, _). n - i)") auto

declare recv_loop.simps [simp del]

definition recv_from_device :: "uint8 \<Rightarrow> uint16 \<Rightarrow> uint32 \<Rightarrow> 'w eth \<Rightarrow> (addr list \<times> 'w eth) cres" where
  "recv_from_device port num_rx_queues num_bufs e = recv_loop port 0 (unat num_rx_queues) num_bufs [] e"

end
