(* ===== verification/Router.thy ===== *)
theory Router
  imports DpdkInit RoutingTable PointerList
begin

text \<open>
  The packet processing of \<^verbatim>\<open>router.c\<close>: checking a frame, forwarding IPv4 packets, answering ARP requests,
  and the loop of a worker thread. Headers are read from and written to the data of the packet
  buffer. The handlers work on the devices and the world behind them; what they only read, the
  routing table and the interfaces of the router, is their context, with the lcore they run on
  and the fuel for freeing the segments of a packet.
\<close>

section \<open>Constants and structures\<close>

definition MAX_BURST_SIZE :: uint32 where [c_defs]: "MAX_BURST_SIZE = 32"
definition MAX_TRANSMIT_TRIAL :: nat where [c_defs]: "MAX_TRANSMIT_TRIAL = 10"
definition IPV4_HDR_VER_MASK :: uint8 where [c_defs]: "IPV4_HDR_VER_MASK = 0xf0"
definition IPV4_HDR_VER_BIT_OFFSET :: nat where [c_defs]: "IPV4_HDR_VER_BIT_OFFSET = 4"
definition SIZEOF_ETHER_HDR :: nat where [c_defs]: "SIZEOF_ETHER_HDR = 14"

record interface_config =
  int_id :: uint8
  if_addr :: uint32
  if_mac :: ether_addr

record thread_config =
  thr_int_confs :: "interface_config pointer_list"
  worker_count :: uint16
  q_id :: uint16

record router_ctx =
  ctx_rt :: rt_state
  int_confs :: "interface_config pointer_list"
  ctx_lcore :: nat
  ctx_fuel :: nat

section \<open>Access to packet buffers\<close>

abbreviation store :: "'w eth \<Rightarrow> mbuf_mem" where
  "store e \<equiv> snd (wld e)"

definition buf_read :: "addr \<Rightarrow> nat \<Rightarrow> nat \<Rightarrow> 'w eth \<Rightarrow> uint8 list cres" where
  "buf_read m off n e = cbind (mbuf_at (store e) m) (\<lambda>b. data_read (store e) b off n)"

definition buf_write :: "addr \<Rightarrow> nat \<Rightarrow> uint8 list \<Rightarrow> 'w eth \<Rightarrow> 'w eth cres" where
  "buf_write m off bs e =
     cbind (mbuf_at (store e) m) (\<lambda>b. cbind (data_write b off bs (store e)) (\<lambda>h. Inr (set_store h e)))"

definition buf_free :: "router_ctx \<Rightarrow> addr \<Rightarrow> 'w eth \<Rightarrow> 'w eth cres" where
  "buf_free c m e =
     cbind (rte_pktmbuf_free (ctx_fuel c) (ctx_lcore c) (Some m) (store e)) (\<lambda>h. Inr (set_store h e))"

text \<open>The loop that sends a packet, and what follows it; whether a trial was successful.\<close>

fun transmit :: "nat \<Rightarrow> uint8 \<Rightarrow> uint16 \<Rightarrow> addr \<Rightarrow> 'w eth \<Rightarrow> (bool \<times> 'w eth) cres" where
  "transmit 0 port q m e = Inr (False, e)"
| "transmit (Suc n) port q m e =
     cbind (rte_eth_tx_burst port q [m] e) (\<lambda>(k, e). if k \<noteq> 0 then Inr (True, e) else transmit n port q m e)"

definition send_or_free :: "router_ctx \<Rightarrow> uint8 \<Rightarrow> uint16 \<Rightarrow> addr \<Rightarrow> 'w eth \<Rightarrow> 'w eth cres" where
  "send_or_free c port q m e =
     cbind (transmit MAX_TRANSMIT_TRIAL port q m e) (\<lambda>(sent, e). if sent then Inr e else buf_free c m e)"

section \<open>IPv4\<close>

text \<open>The header with its checksum field cleared is left in the packet whatever the answer.\<close>

definition is_ipv4_hdr_valid :: "ipv4_hdr \<Rightarrow> uint32 \<Rightarrow> (bool \<times> ipv4_hdr) cres" where
  "is_ipv4_hdr_valid hdr payload_size =
     (let checksum = hdr_checksum hdr; hdr = hdr\<lparr>hdr_checksum := 0\<rparr>
      in cbind (rte_ipv4_cksum hdr) (\<lambda>calc_chksm.
         if calc_chksm \<noteq> checksum then Inr (False, hdr)
         else let version = drop_bit IPV4_HDR_VER_BIT_OFFSET (version_ihl hdr AND IPV4_HDR_VER_MASK);
                  ihl = version_ihl hdr AND IPV4_HDR_IHL_MASK;
                  tot_len = rte_be_to_cpu_16 (total_length hdr)
              in if version \<noteq> 4 then Inr (False, hdr)
                 else if ihl < 5 then Inr (False, hdr)
                 else if unat tot_len < IPV4_IHL_MULTIPLIER * unat ihl then Inr (False, hdr)
                 else if payload_size < ucast tot_len then Inr (False, hdr)
                 else if time_to_live hdr = 0 then Inr (False, hdr)
                 else Inr (True, hdr)))"

definition thread_send_ipv4_packet ::
  "router_ctx \<Rightarrow> thread_config \<Rightarrow> interface_config \<Rightarrow> addr \<Rightarrow> nat option \<Rightarrow> 'w eth \<Rightarrow> 'w eth cres" where
  "thread_send_ipv4_packet c thr_conf int_conf buf nh_ptr e =
     (case nh_ptr of
        None \<Rightarrow> buf_free c buf e
      | Some p \<Rightarrow>
          cbind (buf_read buf SIZEOF_ETHER_HDR SIZEOF_IPV4_HDR e) (\<lambda>bs.
          let hdr = ipv4_of_bytes bs; hdr = hdr\<lparr>time_to_live := time_to_live hdr - 1\<rparr>
          in cbind (buf_write buf SIZEOF_ETHER_HDR (ipv4_bytes hdr) e) (\<lambda>e.
             if time_to_live hdr = 0 then buf_free c buf e
             else let hdr = hdr\<lparr>hdr_checksum := 0\<rparr>
                  in cbind (rte_ipv4_cksum hdr) (\<lambda>cksum.
                     cbind (buf_write buf SIZEOF_ETHER_HDR (ipv4_bytes (hdr\<lparr>hdr_checksum := cksum\<rparr>)) e) (\<lambda>e.
                     cbind (buf_read buf 0 SIZEOF_ETHER_HDR e) (\<lambda>bs.
                     let eth = ether_of_bytes bs
                     in cbind (deref_next_hop (ctx_rt c) p) (\<lambda>nh.
                        cbind (rte_eth_macaddr_get (dst_port nh) (s_addr eth) e) (\<lambda>src.
                        let eth = eth\<lparr>s_addr := src, d_addr := ether_addr_copy (dst_mac nh) (d_addr eth)\<rparr>
                        in cbind (buf_write buf 0 (ether_bytes eth) e) (\<lambda>e.
                           send_or_free c (dst_port nh) (q_id thr_conf) buf e))))))))) "

definition thread_handle_ether_ipv4 ::
  "router_ctx \<Rightarrow> thread_config \<Rightarrow> interface_config \<Rightarrow> addr \<Rightarrow> 'w eth \<Rightarrow> 'w eth cres" where
  "thread_handle_ether_ipv4 c thr_conf int_conf buf e =
     cbind (buf_read buf SIZEOF_ETHER_HDR SIZEOF_IPV4_HDR e) (\<lambda>bs.
     cbind (mbuf_at (store e) buf) (\<lambda>b.
     cbind (is_ipv4_hdr_valid (ipv4_of_bytes bs) (pkt_len b - of_nat SIZEOF_ETHER_HDR)) (\<lambda>(valid, hdr).
     cbind (buf_write buf SIZEOF_ETHER_HDR (ipv4_bytes hdr) e) (\<lambda>e.
     if \<not> valid then buf_free c buf e
     else cbind (get_next_hop (rte_be_to_cpu_32 (dst_addr hdr)) (ctx_rt c)) (\<lambda>nh_ptr.
          thread_send_ipv4_packet c thr_conf int_conf buf nh_ptr e)))))"

section \<open>ARP\<close>

text \<open>The interface at a position of a list of interfaces; following a \<open>NULL\<close> pointer stops the model.\<close>

definition int_conf_at :: "interface_config pointer_list \<Rightarrow> nat \<Rightarrow> interface_config cres" where
  "int_conf_at l i =
     cbind (pointer_list_get l (of_nat i)) (\<lambda>p. case p of None \<Rightarrow> Inl Null_deref | Some int_conf \<Rightarrow> Inr int_conf)"

definition is_arp_msg_valid :: "router_ctx \<Rightarrow> arp_hdr \<Rightarrow> bool cres" where
  "is_arp_msg_valid c hdr =
     (if rte_be_to_cpu_16 (arp_hrd hdr) \<noteq> ARP_HRD_ETHER \<or> arp_hln hdr \<noteq> 6 then Inr False
      else if rte_be_to_cpu_16 (arp_pro hdr) \<noteq> ETHER_TYPE_IPv4 \<or> arp_pln hdr \<noteq> 4 then Inr False
      else let sz = unat (pointer_list_len (int_confs c))
           in cbind (c_search 0 sz (\<lambda>i. cbind (int_conf_at (int_confs c) i) (\<lambda>int_conf.
                     Inr (if_addr int_conf = rte_be_to_cpu_32 (arp_tip (arp_data hdr)))))) (\<lambda>i. Inr (i < sz)))"

definition thread_handle_ether_arp_request ::
  "router_ctx \<Rightarrow> thread_config \<Rightarrow> interface_config \<Rightarrow> addr \<Rightarrow> 'w eth \<Rightarrow> 'w eth cres" where
  "thread_handle_ether_arp_request c thr_conf int_conf buf e =
     cbind (buf_read buf 0 SIZEOF_ETHER_HDR e) (\<lambda>bs.
     let eth = ether_of_bytes bs;
         eth = eth\<lparr>d_addr := ether_addr_copy (s_addr eth) (d_addr eth)\<rparr>;
         eth = eth\<lparr>s_addr := ether_addr_copy (if_mac int_conf) (s_addr eth)\<rparr>
     in cbind (buf_write buf 0 (ether_bytes eth) e) (\<lambda>e.
        cbind (buf_read buf SIZEOF_ETHER_HDR SIZEOF_ARP_HDR e) (\<lambda>bs.
        let hdr = (arp_of_bytes bs)\<lparr>arp_op := rte_cpu_to_be_16 ARP_OP_REPLY\<rparr>;
            d = arp_data hdr;
            sender_mac = arp_sha d;
            sender_ip = arp_sip d;
            d = d\<lparr>arp_sha := ether_addr_copy (if_mac int_conf) (arp_sha d)\<rparr>;
            d = d\<lparr>arp_sip := arp_tip d\<rparr>;
            d = d\<lparr>arp_tha := ether_addr_copy sender_mac (arp_tha d)\<rparr>;
            d = d\<lparr>arp_tip := sender_ip\<rparr>
        in cbind (buf_write buf SIZEOF_ETHER_HDR (arp_bytes (hdr\<lparr>arp_data := d\<rparr>)) e) (\<lambda>e.
           send_or_free c (int_id int_conf) (q_id thr_conf) buf e))))"

definition thread_handle_ether_arp ::
  "router_ctx \<Rightarrow> thread_config \<Rightarrow> interface_config \<Rightarrow> addr \<Rightarrow> 'w eth \<Rightarrow> 'w eth cres" where
  "thread_handle_ether_arp c thr_conf int_conf buf e =
     cbind (buf_read buf SIZEOF_ETHER_HDR SIZEOF_ARP_HDR e) (\<lambda>bs.
     let hdr = arp_of_bytes bs
     in cbind (is_arp_msg_valid c hdr) (\<lambda>valid.
        if \<not> valid then buf_free c buf e
        else if rte_be_to_cpu_16 (arp_op hdr) = ARP_OP_REQUEST
        then thread_handle_ether_arp_request c thr_conf int_conf buf e
        else buf_free c buf e))"

section \<open>Frames\<close>

text \<open>The least payload of the frame types that are recognised.\<close>

definition min_payload :: "uint16 \<Rightarrow> nat option" where
  "min_payload ty =
     (if ty = ETHER_TYPE_IPv4 then Some SIZEOF_IPV4_HDR
      else if ty = ETHER_TYPE_IPv6 then Some SIZEOF_IPV6_HDR
      else if ty = ETHER_TYPE_ARP then Some SIZEOF_ARP_HDR
      else None)"

definition is_frame_valid :: "addr \<Rightarrow> interface_config \<Rightarrow> 'w eth \<Rightarrow> bool cres" where
  "is_frame_valid buf int_conf e =
     cbind (mbuf_at (store e) buf) (\<lambda>b.
     if unat (pkt_len b) < ETHER_HDR_LEN then Inr False
     else cbind (buf_read buf 0 SIZEOF_ETHER_HDR e) (\<lambda>bs.
          let eth = ether_of_bytes bs
          in if \<not> is_broadcast_ether_addr (d_addr eth) \<and> \<not> is_same_ether_addr (d_addr eth) (if_mac int_conf)
             then Inr False
             else case min_payload (rte_be_to_cpu_16 (ether_type eth)) of
               None \<Rightarrow> Inr False
             | Some min_payload_len \<Rightarrow>
                 if unat (pkt_len b) < ETHER_HDR_LEN + min_payload_len then Inr False
                 else if ETHER_MAX_LEN - ETHER_CRC_LEN < unat (pkt_len b) then Inr False
                 else Inr True))"

definition thread_handle_frame ::
  "router_ctx \<Rightarrow> thread_config \<Rightarrow> interface_config \<Rightarrow> addr \<Rightarrow> 'w eth \<Rightarrow> 'w eth cres" where
  "thread_handle_frame c thr_conf int_conf buf e =
     cbind (is_frame_valid buf int_conf e) (\<lambda>valid.
     if \<not> valid then buf_free c buf e
     else cbind (buf_read buf 0 SIZEOF_ETHER_HDR e) (\<lambda>bs.
          let ty = rte_be_to_cpu_16 (ether_type (ether_of_bytes bs))
          in if ty = ETHER_TYPE_IPv4 then thread_handle_ether_ipv4 c thr_conf int_conf buf e
             else if ty = ETHER_TYPE_ARP then thread_handle_ether_arp c thr_conf int_conf buf e
             else buf_free c buf e))"

fun thread_handle_frames ::
  "router_ctx \<Rightarrow> thread_config \<Rightarrow> interface_config \<Rightarrow> addr list \<Rightarrow> 'w eth \<Rightarrow> 'w eth cres" where
  "thread_handle_frames c thr_conf int_conf [] e = Inr e"
| "thread_handle_frames c thr_conf int_conf (buf # bufs) e =
     cbind (thread_handle_frame c thr_conf int_conf buf e) (thread_handle_frames c thr_conf int_conf bufs)"

section \<open>Worker threads\<close>

text \<open>One round of the loop of \<open>router_thread\<close> over its ports; whether frames were received.\<close>

definition poll_port :: "router_ctx \<Rightarrow> thread_config \<Rightarrow> nat \<Rightarrow> bool \<times> 'w eth \<Rightarrow> (bool \<times> 'w eth) cres" where
  "poll_port c thr_conf i = (\<lambda>(received_frames, e).
     cbind (int_conf_at (thr_int_confs thr_conf) i) (\<lambda>int_conf.
     cbind (recv_from_device (int_id int_conf) (worker_count thr_conf) MAX_BURST_SIZE e) (\<lambda>(bufs, e).
     if bufs = [] then Inr (received_frames, e)
     else cbind (thread_handle_frames c thr_conf int_conf bufs e) (\<lambda>e. Inr (True, e)))))"

definition router_round :: "router_ctx \<Rightarrow> thread_config \<Rightarrow> 'w eth \<Rightarrow> (bool \<times> 'w eth) cres" where
  "router_round c thr_conf e =
     c_for 0 (unat (pointer_list_len (thr_int_confs thr_conf))) (poll_port c thr_conf) (False, e)"

text \<open>
  The thread and its surroundings: a signal may arrive at any time, the hardware may change the
  world between the rounds, and the thread reads \<open>force_quit\<close> before each round. \<open>usleep\<close> between
  rounds without frames takes time only.
\<close>

datatype 'w thread_state = Running "'w eth" | Returned int "'w eth" | Crashed c_error

definition SIGINT :: int where [c_defs]: "SIGINT = 2"
definition SIGTERM :: int where [c_defs]: "SIGTERM = 15"

definition signal_handler :: "int \<Rightarrow> bool \<Rightarrow> bool" where
  "signal_handler signum force_quit = (if signum = SIGINT \<or> signum = SIGTERM then True else force_quit)"

inductive router_thread ::
  "('w eth \<Rightarrow> 'w eth \<Rightarrow> bool) \<Rightarrow> router_ctx \<Rightarrow> thread_config \<Rightarrow> bool \<times> 'w thread_state \<Rightarrow> bool \<times> 'w thread_state \<Rightarrow> bool"
  for hardware c thr_conf where
  signal: "router_thread hardware c thr_conf (force_quit, t) (signal_handler signum force_quit, t)"
| arrival: "hardware e e' \<Longrightarrow> router_thread hardware c thr_conf (force_quit, Running e) (force_quit, Running e')"
| round: "router_round c thr_conf e = Inr (received_frames, e') \<Longrightarrow>
    router_thread hardware c thr_conf (False, Running e) (False, Running e')"
| crash: "router_round c thr_conf e = Inl err \<Longrightarrow>
    router_thread hardware c thr_conf (False, Running e) (False, Crashed err)"
| quit: "router_thread hardware c thr_conf (True, Running e) (True, Returned 1 e)"

inductive_cases router_thread_cases: "router_thread hardware c thr_conf (force_quit, t) (force_quit', t')"

end
