(* ===== verification/Mempool_Correct.thy ===== *)
theory Mempool_Correct
  imports Mempool
begin

text \<open>
  Correctness of the pools: the ring driver, the cache of an lcore in front of it, and the pool
  as a whole, which never loses or duplicates an object.
\<close>

section \<open>The ring driver\<close>

lemma ring_moved_fixed: "ring_moved RTE_RING_QUEUE_FIXED k n = (if n \<le> k then n else 0)"
  by (simp add: ring_moved_def)

lemma enqueue_all:
  assumes rep: "ring_rep r q" and n: "unat n \<le> length objs" "length q + unat n \<le> unat (ring_capacity r)"
  shows "\<exists>free r'. do_enqueue r objs n RTE_RING_QUEUE_FIXED s = Inr (n, free, r')
    \<and> ring_rep r' (q @ take (unat n) objs) \<and> ring_capacity r' = ring_capacity r"
proof -
  have m: "ring_moved RTE_RING_QUEUE_FIXED (unat (ring_capacity r) - length q) (unat n) = unat n"
    using n(2) by (simp add: ring_moved_fixed)
  have "of_nat (unat n) = n" by (metis of_nat_unat ucast_id)
  then show ?thesis
    using do_enqueue_rep [OF rep n(1), where b = RTE_RING_QUEUE_FIXED and is_sp = s] unfolding m by fastforce
qed

lemma dequeue_all:
  fixes n :: uint32
  assumes rep: "ring_rep r q"
  defines "m \<equiv> if unat n \<le> length q then unat n else 0"
  shows "\<exists>avail r'. do_dequeue r n RTE_RING_QUEUE_FIXED s = Inr (take m q, avail, r')
    \<and> ring_rep r' (drop m q) \<and> ring_capacity r' = ring_capacity r"
  using do_dequeue_rep [OF rep, where b = RTE_RING_QUEUE_FIXED and is_sc = s and n = n]
  unfolding m_def ring_moved_fixed by blast

lemma ops_enqueue_bulk:
  assumes "ops_index mp < 4" and p: "pool_data mp = Some r" and "ring_rep r q"
    and "unat n \<le> length objs" and "length q + unat n \<le> unat (ring_capacity r)"
  shows "\<exists>ret r'. rte_mempool_ops_enqueue_bulk mp objs n = Inr (ret, mp\<lparr>pool_data := Some r'\<rparr>)
    \<and> ring_rep r' (q @ take (unat n) objs) \<and> ring_capacity r' = ring_capacity r"
proof -
  obtain ops where ops: "rte_mempool_get_ops (ops_index mp) = Inr ops"
    "enqueue_fn ops = common_ring_mp_enqueue \<or> enqueue_fn ops = common_ring_sp_enqueue"
    using assms(1) by (rule get_ops_cases)
  then obtain s where s: "enqueue_fn ops mp objs n = ring_put_ret mp (do_enqueue r objs n RTE_RING_QUEUE_FIXED s)"
    using p by (fastforce simp: common_ring_mp_enqueue_def common_ring_sp_enqueue_def pool_ring_def
        rte_ring_mp_enqueue_bulk_def rte_ring_sp_enqueue_bulk_def)
  obtain free r' where r': "do_enqueue r objs n RTE_RING_QUEUE_FIXED s = Inr (n, free, r')"
    "ring_rep r' (q @ take (unat n) objs)" "ring_capacity r' = ring_capacity r"
    using enqueue_all [OF assms(3-5)] by blast
  have "rte_mempool_ops_enqueue_bulk mp objs n = Inr (if n = 0 then - ENOBUFS else 0, mp\<lparr>pool_data := Some r'\<rparr>)"
    unfolding rte_mempool_ops_enqueue_bulk_def ops(1) cbind_Inr s r'(1) ring_put_ret_def by simp
  then show ?thesis using r' by blast
qed

lemma ops_dequeue_bulk:
  fixes n :: uint32
  assumes "ops_index mp < 4" and p: "pool_data mp = Some r" and rep: "ring_rep r q"
  defines "m \<equiv> if unat n \<le> length q then unat n else 0"
  shows "\<exists>r'. rte_mempool_ops_dequeue_bulk mp n =
      Inr (if m = 0 then - ENOBUFS else 0, take m q, mp\<lparr>pool_data := Some r'\<rparr>)
    \<and> ring_rep r' (drop m q) \<and> ring_capacity r' = ring_capacity r"
proof -
  obtain ops where ops: "rte_mempool_get_ops (ops_index mp) = Inr ops"
    "dequeue_fn ops = common_ring_mc_dequeue \<or> dequeue_fn ops = common_ring_sc_dequeue"
    using assms(1) by (rule get_ops_cases)
  then obtain s where s: "dequeue_fn ops mp n = ring_get_ret mp (do_dequeue r n RTE_RING_QUEUE_FIXED s)"
    using p by (fastforce simp: common_ring_mc_dequeue_def common_ring_sc_dequeue_def pool_ring_def
        rte_ring_mc_dequeue_bulk_def rte_ring_sc_dequeue_bulk_def)
  obtain avail r' where r': "do_dequeue r n RTE_RING_QUEUE_FIXED s = Inr (take m q, avail, r')"
    "ring_rep r' (drop m q)" "ring_capacity r' = ring_capacity r"
    unfolding m_def using dequeue_all [OF rep] by blast
  have "take m q = [] \<longleftrightarrow> m = 0" by (auto simp: m_def)
  then have "rte_mempool_ops_dequeue_bulk mp n =
      Inr (if m = 0 then - ENOBUFS else 0, take m q, mp\<lparr>pool_data := Some r'\<rparr>)"
    unfolding rte_mempool_ops_dequeue_bulk_def ops(1) cbind_Inr s r'(1) ring_get_ret_def by simp
  then show ?thesis using r' by blast
qed

section \<open>A cache and the ring behind it\<close>

definition cache_holds :: "rte_mempool_cache \<Rightarrow> addr list \<Rightarrow> bool" where
  "cache_holds c xs \<longleftrightarrow>
     0 < unat (cache_sz c) \<and> unat (cache_sz c) \<le> 512
     \<and> unat (flushthresh c) = 3 * unat (cache_sz c) div 2
     \<and> length (cache_objs c) = 1536
     \<and> unat (cache_len c) = length xs \<and> length xs \<le> 1536
     \<and> take (length xs) (cache_objs c) = map Some xs"

definition cache_rep :: "rte_mempool_cache \<Rightarrow> addr list \<Rightarrow> bool" where
  "cache_rep c xs \<longleftrightarrow> cache_holds c xs \<and> length xs \<le> 3 * unat (cache_sz c) div 2"

lemmas cache_defs = cache_rep_def cache_holds_def

lemma objs_read_prefix:
  assumes "take (length ys) cells = map Some ys" and "length ys \<le> length cells" and "off + n \<le> length ys"
  shows "objs_read cells off n = Inr (take n (drop off ys))"
proof -
  have "take n (drop off cells) = take n (drop off (take (length ys) cells))"
    using assms(3) by (simp add: drop_take min_absorb1)
  also have "\<dots> = map Some (take n (drop off ys))"
    unfolding assms(1) by (simp add: take_map drop_map)
  finally show ?thesis
    using assms(2,3) by (auto simp: objs_read_def comp_def)
qed

lemma objs_write_prefix:
  assumes "take (length xs) cells = map Some xs" and "length xs + length objs \<le> length cells"
  shows "\<exists>cells'. objs_write cells (length xs) objs = Inr cells'
    \<and> take (length xs + length objs) cells' = map Some (xs @ objs) \<and> length cells' = length cells"
  using assms by (auto simp: objs_write_def min_absorb2)

lemma generic_put_cached:
  assumes mp: "ops_index mp < 4" "pool_data mp = Some r" "ring_rep r q" and c: "cache_rep c xs"
    and n: "unat n \<le> length objs" "length q + length xs + unat n \<le> unat (ring_capacity r)"
  shows "\<exists>r' q' c' xs'. mempool_generic_put mp objs n (Some c) = Inr (mp\<lparr>pool_data := Some r'\<rparr>, Some c')
    \<and> ring_rep r' q' \<and> cache_rep c' xs' \<and> ring_capacity r' = ring_capacity r
    \<and> mset q' + mset xs' = mset q + mset xs + mset (take (unat n) objs)"
proof (cases "unat n \<le> 512")
  case False
  obtain ret r' where r': "rte_mempool_ops_enqueue_bulk mp objs n = Inr (ret, mp\<lparr>pool_data := Some r'\<rparr>)"
    "ring_rep r' (q @ take (unat n) objs)" "ring_capacity r' = ring_capacity r"
    using ops_enqueue_bulk [OF mp n(1)] n(2) by auto
  have "mempool_generic_put mp objs n (Some c) = Inr (mp\<lparr>pool_data := Some r'\<rparr>, Some c)"
    using False r'(1) by (simp add: mempool_generic_put_def RTE_MEMPOOL_CACHE_MAX_SIZE_def)
  moreover have "mset (q @ take (unat n) objs) + mset xs = mset q + mset xs + mset (take (unat n) objs)" by simp
  ultimately show ?thesis using r' c by blast
next
  case True
  let ?objs = "take (unat n) objs"
  define ys where "ys = xs @ ?objs"
  have sz: "0 < unat (cache_sz c)" "unat (cache_sz c) \<le> 512" "unat (flushthresh c) = 3 * unat (cache_sz c) div 2"
    and cl: "length (cache_objs c) = 1536" "unat (cache_len c) = length xs"
      "length xs \<le> 3 * unat (cache_sz c) div 2" "take (length xs) (cache_objs c) = map Some xs"
    using c by (simp_all add: cache_defs)
  have ly: "length ys = length xs + unat n" "length ?objs = unat n" using n(1) by (simp_all add: ys_def)
  have "length xs + length ?objs \<le> length (cache_objs c)"
    using cl sz True ly(2) by linarith
  then obtain cells where cells: "objs_write (cache_objs c) (length xs) ?objs = Inr cells"
    "take (length ys) cells = map Some ys" "length cells = 1536"
    using objs_write_prefix [OF cl(4)] cl(1) ly by (metis length_append ys_def)
  define len where "len = cache_len c + n"
  have len: "unat len = length ys"
    using cl(2,3) sz(2) True ly(1) by (simp add: len_def unat_word_ariths)
  show ?thesis
  proof (cases "flushthresh c \<le> len")
    case False
    let ?c = "c\<lparr>cache_objs := cells, cache_len := len\<rparr>"
    have "mempool_generic_put mp objs n (Some c) = Inr (mp\<lparr>pool_data := Some r\<rparr>, Some ?c)"
      using mp(2) True False cells(1) n(1) cl(2) unfolding mempool_generic_put_def len_def
      by (simp add: RTE_MEMPOOL_CACHE_MAX_SIZE_def)
    moreover have "cache_rep ?c ys"
      using sz cells(2,3) len False by (simp add: cache_defs word_le_nat_alt)
    moreover have "mset q + mset ys = mset q + mset xs + mset ?objs" by (simp add: ys_def)
    ultimately show ?thesis using mp(3) by blast
  next
    case flush: True
    let ?s = "unat (cache_sz c)"
    have le: "?s \<le> length ys" using flush len sz(3) by (simp add: word_le_nat_alt)
    have k: "unat (len - cache_sz c) = length ys - ?s"
      using le len by (simp add: unat_sub word_le_nat_alt)
    have rd: "objs_read cells ?s (length ys - ?s) = Inr (drop ?s ys)"
      using objs_read_prefix [OF cells(2), of ?s "length ys - ?s"] le ly cells(3) cl(3) sz True by simp
    have room: "length q + (length xs + unat n - ?s) \<le> unat (ring_capacity r)" using n(2) by linarith
    obtain ret r' where r': "rte_mempool_ops_enqueue_bulk mp (drop ?s ys) (len - cache_sz c)
        = Inr (ret, mp\<lparr>pool_data := Some r'\<rparr>)"
      "ring_rep r' (q @ drop ?s ys)" "ring_capacity r' = ring_capacity r"
      using ops_enqueue_bulk [OF mp, of "len - cache_sz c" "drop ?s ys"] room k ly by auto
    let ?c = "c\<lparr>cache_objs := cells, cache_len := cache_sz c\<rparr>"
    have "mempool_generic_put mp objs n (Some c) = Inr (mp\<lparr>pool_data := Some r'\<rparr>, Some ?c)"
      using True flush cells(1) n(1) cl(2) rd k r'(1) unfolding mempool_generic_put_def len_def
      by (simp add: RTE_MEMPOOL_CACHE_MAX_SIZE_def)
    moreover have "cache_rep ?c (take ?s ys)"
      using sz cells(3) le arg_cong [OF cells(2), of "take ?s"]
      by (simp add: cache_defs min_absorb1 take_map)
    moreover have "mset (q @ drop ?s ys) + mset (take ?s ys) = mset q + mset xs + mset ?objs"
    proof -
      have "mset (drop ?s ys) + mset (take ?s ys) = mset ys"
        by (metis append_take_drop_id mset_append add.commute)
      then show ?thesis by (simp add: ys_def ac_simps)
    qed
    ultimately show ?thesis using r' by blast
  qed
qed


lemma cache_fill_eq:
  assumes c: "cache_holds c xs" and n: "unat n \<le> length xs"
  shows "cache_fill c n = Inr (rev (drop (length xs - unat n) xs))"
proof -
  let ?l = "length xs"
  have cl: "length (cache_objs c) = 1536" "unat (cache_len c) = ?l" "take ?l (cache_objs c) = map Some xs"
    "?l \<le> 1536"
    using c by (auto simp: cache_holds_def)
  have step: "objs_read (cache_objs c) (unat (cache_len c - 1 - of_nat i)) 1 = Inr [xs ! (?l - 1 - i)]"
    if i: "i < unat n" for i
  proof -
    have b: "i < ?l" "?l < 2 ^ 32" using i n cl(4) by auto
    have u: "unat (of_nat i :: uint32) = i" using b by (intro unat_of_nat_eq) simp
    have "1 \<le> cache_len c" using b cl(2) by (simp add: word_le_nat_alt)
    then have 1: "unat (cache_len c - 1) = ?l - 1" using cl(2) by (simp only: unat_sub unat_1)
    have "of_nat i \<le> cache_len c - 1" using b 1 u by (simp add: word_le_nat_alt)
    then have "unat (cache_len c - 1 - of_nat i) = ?l - 1 - i" by (simp only: unat_sub 1 u)
    then show ?thesis
      using objs_read_prefix [OF cl(3), of "?l - 1 - i" 1] cl(1,4) b
      by (simp add: take_Suc_conv_app_nth Suc_diff_Suc)
  qed
  have "\<exists>ys. cache_fill c n = Inr ys \<and> ys = rev (drop (?l - unat n) xs)"
    unfolding cache_fill_def
  proof (rule c_for_rule [where I = "\<lambda>i ys. ys = rev (drop (?l - i) xs)"])
    fix i ys assume i: "i < unat n" and ys: "ys = rev (drop (?l - i) xs)"
    have "drop (?l - Suc i) xs = xs ! (?l - 1 - i) # drop (?l - i) xs"
      using i n Cons_nth_drop_Suc [of "?l - Suc i" xs] by (simp add: Suc_diff_Suc)
    then show "\<exists>s'. cbind (objs_read (cache_objs c) (unat (cache_len c - 1 - word_of_nat i)) 1)
        (\<lambda>objs. Inr (ys @ objs)) = Inr s' \<and> s' = rev (drop (?l - Suc i) xs)"
      unfolding step [OF i] ys by simp
  qed auto
  then show ?thesis by simp
qed

lemma cache_rep_take:
  assumes c: "cache_holds c xs" and "unat n \<le> length xs" and "length xs - unat n \<le> 3 * unat (cache_sz c) div 2"
  shows "cache_rep (c\<lparr>cache_len := cache_len c - n\<rparr>) (take (length xs - unat n) xs)"
proof -
  have "unat (cache_len c - n) = length xs - unat n"
    using assms by (simp add: cache_defs unat_sub word_le_nat_alt)
  moreover have "take (length xs - unat n) (cache_objs c) = map Some (take (length xs - unat n) xs)"
  proof -
    have t: "take (length xs) (cache_objs c) = map Some xs" using c by (simp add: cache_holds_def)
    have "take (length xs - unat n) (cache_objs c) = take (length xs - unat n) (take (length xs) (cache_objs c))"
      by (simp add: min_absorb1)
    then show ?thesis unfolding t by (simp add: take_map)
  qed
  ultimately show ?thesis using c assms(2,3) by (auto simp: cache_defs min_absorb1)
qed

lemma mset_take_drop: "mset (take k xs) + mset (drop k xs) = mset xs"
  by (metis append_take_drop_id mset_append)

text \<open>What a get returns: \<open>n\<close> objects, or an error and nothing.\<close>

definition get_outcome :: "uint32 \<Rightarrow> int \<Rightarrow> addr list \<Rightarrow> bool" where
  "get_outcome n ret objs \<longleftrightarrow> ret = 0 \<and> length objs = unat n \<or> ret = - ENOBUFS \<and> objs = []"

lemma ring_get:
  assumes mp: "ops_index mp < 4" "pool_data mp = Some r" "ring_rep r q"
  shows "\<exists>ret objs r' q'. rte_mempool_ops_dequeue_bulk mp n = Inr (ret, objs, mp\<lparr>pool_data := Some r'\<rparr>)
    \<and> ring_rep r' q' \<and> ring_capacity r' = ring_capacity r \<and> q = objs @ q'
    \<and> get_outcome n ret objs \<and> (ret = 0 \<longleftrightarrow> 0 < unat n \<and> unat n \<le> length q)"
proof -
  define m where "m = (if unat n \<le> length q then unat n else 0)"
  define ret where "ret = (if m = 0 then - ENOBUFS else 0)"
  define objs where "objs = take m q"
  define q' where "q' = drop m q"
  obtain r' where r': "rte_mempool_ops_dequeue_bulk mp n = Inr (ret, objs, mp\<lparr>pool_data := Some r'\<rparr>)"
    "ring_rep r' q'" "ring_capacity r' = ring_capacity r"
    using ops_dequeue_bulk [OF mp, of n] unfolding m_def [symmetric] ret_def objs_def q'_def by blast
  moreover have "get_outcome n ret objs" "ret = 0 \<longleftrightarrow> 0 < unat n \<and> unat n \<le> length q"
    by (auto simp: get_outcome_def ENOBUFS_def m_def ret_def objs_def)
  moreover have "q = objs @ q'" by (simp add: objs_def q'_def)
  ultimately show ?thesis by blast
qed

lemma generic_get_cached:
  assumes mp: "ops_index mp < 4" "pool_data mp = Some r" "ring_rep r q" and c: "cache_rep c xs"
  shows "\<exists>ret objs r' q' c' xs'.
    mempool_generic_get mp n (Some c) = Inr (ret, objs, mp\<lparr>pool_data := Some r'\<rparr>, Some c')
    \<and> ring_rep r' q' \<and> cache_rep c' xs' \<and> ring_capacity r' = ring_capacity r
    \<and> mset q + mset xs = mset objs + (mset q' + mset xs')
    \<and> get_outcome n ret objs
    \<and> (0 < unat n \<and> unat n \<le> length q \<or> unat n < unat (cache_sz c) \<and> unat n \<le> length xs \<longrightarrow> ret = 0)"
proof -
  have same: "mp\<lparr>pool_data := Some r\<rparr> = mp" using mp(2) by simp
  have direct: ?thesis
    if "mempool_generic_get mp n (Some c) =
      cbind (rte_mempool_ops_dequeue_bulk mp1 n) (\<lambda>(ret, objs, mp). Inr (ret, objs, mp, Some c))"
      and mp1: "mp1 = mp\<lparr>pool_data := Some r1\<rparr>" "ring_rep r1 q" "ring_capacity r1 = ring_capacity r"
      and nc: "\<not> (unat n < unat (cache_sz c) \<and> unat n \<le> length xs)" for mp1 r1
  proof -
    have "ops_index mp1 < 4" "pool_data mp1 = Some r1" using mp mp1 by simp_all
    from ring_get [OF this mp1(2), of n] obtain ret objs r' q' where
      *: "rte_mempool_ops_dequeue_bulk mp1 n = Inr (ret, objs, mp1\<lparr>pool_data := Some r'\<rparr>)"
      "ring_rep r' q'" "ring_capacity r' = ring_capacity r1" "q = objs @ q'" "get_outcome n ret objs"
      "ret = 0 \<longleftrightarrow> 0 < unat n \<and> unat n \<le> length q" by blast
    have "mempool_generic_get mp n (Some c) = Inr (ret, objs, mp\<lparr>pool_data := Some r'\<rparr>, Some c)"
      using that(1) * mp1 by simp
    moreover have "mset q + mset xs = mset objs + (mset q' + mset xs)" using *(4) by simp
    moreover have "ring_capacity r' = ring_capacity r" using *(3) mp1(3) by simp
    moreover have "0 < unat n \<and> unat n \<le> length q \<or> unat n < unat (cache_sz c) \<and> unat n \<le> length xs \<longrightarrow> ret = 0"
      using *(6) nc by blast
    ultimately show ?thesis using *(2,5) c by blast
  qed
  have respond: ?thesis
    if g: "mempool_generic_get mp n (Some c) =
      cbind (cache_fill c1 n) (\<lambda>objs. Inr (0, objs, mp\<lparr>pool_data := Some r1\<rparr>, Some (c1\<lparr>cache_len := cache_len c1 - n\<rparr>)))"
      and r1: "ring_rep r1 q1" "ring_capacity r1 = ring_capacity r"
      and c1: "cache_holds c1 xs1" "unat n \<le> length xs1" "length xs1 - unat n \<le> 3 * unat (cache_sz c1) div 2"
      and m1: "mset q + mset xs = mset q1 + mset xs1" for c1 r1 q1 xs1
  proof -
    let ?k = "length xs1 - unat n"
    have "mempool_generic_get mp n (Some c) =
        Inr (0, rev (drop ?k xs1), mp\<lparr>pool_data := Some r1\<rparr>, Some (c1\<lparr>cache_len := cache_len c1 - n\<rparr>))"
      unfolding g cache_fill_eq [OF c1(1,2)] by simp
    moreover have "get_outcome n 0 (rev (drop ?k xs1))" using c1(2) by (simp add: get_outcome_def)
    moreover have "mset q + mset xs = mset (rev (drop ?k xs1)) + (mset q1 + mset (take ?k xs1))"
      unfolding m1 using mset_take_drop [of ?k xs1] by (simp add: ac_simps)
    ultimately show ?thesis using r1 cache_rep_take [OF c1] by blast
  qed
  show ?thesis
  proof (cases "cache_sz c \<le> n")
    case True
    show ?thesis
      by (rule direct [of mp r]) (use True mp in \<open>auto simp: mempool_generic_get_def word_le_nat_alt Let_def\<close>)
  next
    case sz: False
    show ?thesis
    proof (cases "cache_len c < n")
      case False
      have "unat n \<le> length xs" using False c by (simp add: cache_defs word_less_nat_alt)
      then show ?thesis
        by (intro respond [of c r q xs]) (use False sz mp c in \<open>auto simp: mempool_generic_get_def Let_def cache_rep_def same\<close>)
    next
      case len: True
      define req where "req = n + (cache_sz c - cache_len c)"
      have b: "length xs < unat n" "unat n < unat (cache_sz c)" "unat (cache_sz c) \<le> 512"
          "unat (cache_len c) = length xs" "length (cache_objs c) = 1536"
          "take (length xs) (cache_objs c) = map Some xs"
        using len sz c by (auto simp: cache_defs word_less_nat_alt word_le_nat_alt)
      have d: "unat (cache_sz c - cache_len c) = unat (cache_sz c) - length xs"
        using b by (simp add: unat_sub word_le_nat_alt)
      then have req: "unat req = unat n + (unat (cache_sz c) - length xs)"
        using b(2,3) by (simp add: req_def unat_word_ariths)
      obtain ret objs r1 q1 where
        *: "rte_mempool_ops_dequeue_bulk mp req = Inr (ret, objs, mp\<lparr>pool_data := Some r1\<rparr>)"
        "ring_rep r1 q1" "ring_capacity r1 = ring_capacity r" "q = objs @ q1" "get_outcome req ret objs"
        "ret = 0 \<longleftrightarrow> 0 < unat req \<and> unat req \<le> length q"
        using ring_get [OF mp, of req] by blast
      have unf: "mempool_generic_get mp n (Some c) =
        (if ret < 0 then cbind (rte_mempool_ops_dequeue_bulk (mp\<lparr>pool_data := Some r1\<rparr>) n)
              (\<lambda>(ret, objs, mp). Inr (ret, objs, mp, Some c))
         else cbind (objs_write (cache_objs c) (unat (cache_len c)) objs) (\<lambda>cells.
              let c = c\<lparr>cache_objs := cells, cache_len := cache_len c + req\<rparr> in
              cbind (cache_fill c n) (\<lambda>objs.
              Inr (0, objs, mp\<lparr>pool_data := Some r1\<rparr>, Some (c\<lparr>cache_len := cache_len c - n\<rparr>)))))"
        using sz len *(1) unfolding mempool_generic_get_def Let_def req_def by simp
      show ?thesis
      proof (cases "ret = 0")
        case False
        then have "ret < 0" "objs = []" using *(5) by (auto simp: get_outcome_def ENOBUFS_def)
        then show ?thesis
          by (intro direct [of _ r1]) (use unf * b(1) in auto)
      next
        case True
        then have lo: "length objs = unat req" using *(5) by (auto simp: get_outcome_def ENOBUFS_def)
        then obtain cells where cells: "objs_write (cache_objs c) (length xs) objs = Inr cells"
          "take (length xs + length objs) cells = map Some (xs @ objs)" "length cells = 1536"
          using objs_write_prefix [OF b(6), of objs] b req by auto
        let ?c = "c\<lparr>cache_objs := cells, cache_len := cache_len c + req\<rparr>"
        have "unat (cache_len c + req) = length xs + unat req"
          using b req by (simp add: unat_word_ariths)
        then have "cache_holds ?c (xs @ objs)"
          using c cells(2,3) lo b req unfolding cache_defs by auto
        then show ?thesis
          by (intro respond [of ?c r1 q1 "xs @ objs"]) (use unf True cells(1) b lo req * in auto)
      qed
    qed
  qed
qed

section \<open>Creation of the ring\<close>

lemma rte_ring_create_rep:
  fixes r :: "'a rte_ring"
  assumes c: "rte_ring_create env name cnt flags = Inr r"
    and f: "flags AND RING_F_EXACT_SZ = 0" and c0: "cnt \<noteq> 0"
  shows "ring_rep r [] \<and> ring_capacity r = cnt - 1"
proof -
  have n: "length name < RTE_MEMZONE_NAMESIZE" and sz: "0 \<le> rte_ring_get_memsize cnt"
    and r: "rte_ring_init (unat cnt) name cnt flags = (0, Some r)"
    using c f
    by (auto simp: rte_ring_create_def Let_def rte_ring_init_def not_le not_less c_defs
        split: if_splits sum.splits prod.splits option.splits)
  have "POWEROF2 cnt \<and> cnt \<le> RTE_RING_SZ_MASK"
    using sz by (auto simp: rte_ring_get_memsize_def EINVAL_def not_less split: if_splits)
  then have ok: "init_ok name cnt flags" using n f c0 by (simp add: init_ok_def)
  have "init_size cnt flags = cnt" "init_capacity cnt flags = cnt - 1"
    using f by (simp_all add: init_size_def init_capacity_def)
  then obtain r' :: "'a rte_ring" where "rte_ring_init (unat cnt) name cnt flags = (0, Some r')"
    "ring_rep r' []" "ring_capacity r' = cnt - 1"
    using rte_ring_init_rep [OF ok, where 'a = 'a] by auto
  then show ?thesis using r by simp
qed

lemma common_ring_alloc_rep:
  assumes a: "common_ring_alloc env mp = (0, mp')" and n: "unat (mp_size mp) < 2 ^ 31"
    and env: "\<And>nm sz al e. memzone_reserve env nm sz al = Inl e \<Longrightarrow> 0 < e"
  shows "\<exists>r. mp' = mp\<lparr>pool_data := Some r\<rparr> \<and> ring_rep r [] \<and> unat (mp_size mp) \<le> unat (ring_capacity r)"
proof -
  define cnt where "cnt = rte_align32pow2 (mp_size mp + 1)"
  define fl where "fl = (if mp_flags mp AND MEMPOOL_F_SP_PUT \<noteq> 0 then RING_F_SP_ENQ else 0)
                     OR (if mp_flags mp AND MEMPOOL_F_SC_GET \<noteq> 0 then RING_F_SC_DEQ else 0)"
  define nm where "nm = RTE_MEMPOOL_MZ_PREFIX @ mp_name mp"
  have f: "fl AND RING_F_EXACT_SZ = 0" by (simp add: fl_def c_defs)
  have "rte_ring_create env nm cnt fl \<noteq> (Inl 0 :: int + addr rte_ring)"
  proof
    assume "rte_ring_create env nm cnt fl = (Inl 0 :: int + addr rte_ring)"
    then show False
      using f env by (auto simp: rte_ring_create_def Let_def rte_ring_init_def rte_ring_get_memsize_def not_le not_less c_defs
        split: if_splits sum.splits prod.splits option.splits dest!: env)
  qed
  then obtain r where r: "rte_ring_create env nm cnt fl = Inr r" "mp' = mp\<lparr>pool_data := Some r\<rparr>"
    using a unfolding common_ring_alloc_def Let_def cnt_def [symmetric] fl_def [symmetric] nm_def [symmetric]
    by (auto simp: ENAMETOOLONG_def split: if_splits sum.splits)
  have u: "unat (mp_size mp + 1) = unat (mp_size mp) + 1" using n by (simp add: unat_word_ariths)
  have "0 < mp_size mp + 1" "mp_size mp + 1 \<le> 2 ^ 31" using n u by (simp_all add: word_less_nat_alt word_le_nat_alt)
  then obtain k where k: "unat cnt = 2 ^ k" "unat (mp_size mp + 1) \<le> 2 ^ k"
    using rte_align32pow2_pow2 unfolding cnt_def by blast
  have "1 \<le> cnt" using k(1) by (simp add: word_le_nat_alt)
  then have cap: "unat (cnt - 1) = unat cnt - 1" "cnt \<noteq> 0" using k(1) by (auto simp: unat_sub)
  have "ring_rep r [] \<and> ring_capacity r = cnt - 1" using rte_ring_create_rep [OF r(1) f cap(2)] .
  then show ?thesis using r(2) cap(1) k u by auto
qed

section \<open>Filling a pool\<close>

definition same_config :: "rte_mempool \<Rightarrow> rte_mempool \<Rightarrow> bool" where
  "same_config mp mp' \<longleftrightarrow> mp_name mp' = mp_name mp \<and> mp_size mp' = mp_size mp
     \<and> mp_cache_size mp' = mp_cache_size mp \<and> mp_elt_size mp' = mp_elt_size mp
     \<and> mp_header_size mp' = mp_header_size mp \<and> mp_trailer_size mp' = mp_trailer_size mp
     \<and> private_data_size mp' = private_data_size mp \<and> ops_index mp' = ops_index mp
     \<and> local_cache mp' = local_cache mp"

lemma same_config_refl [simp]: "same_config mp mp"
  by (simp add: same_config_def)

lemma same_config_trans: "same_config a b \<Longrightarrow> same_config b c \<Longrightarrow> same_config a c"
  by (simp add: same_config_def)

abbreviation pool_objs :: "rte_mempool \<Rightarrow> addr list" where
  "pool_objs mp \<equiv> map hdr_obj (elt_list mp)"

definition ring_holds :: "rte_mempool \<Rightarrow> addr list \<Rightarrow> bool" where
  "ring_holds mp q \<longleftrightarrow> (\<exists>r. pool_data mp = Some r \<and> ring_rep r q \<and> unat (mp_size mp) \<le> unat (ring_capacity r))"

definition fill_inv :: "rte_mempool \<Rightarrow> bool" where
  "fill_inv mp \<longleftrightarrow> ops_index mp < 4 \<and> unat (populated_size mp) = length (elt_list mp)
     \<and> length (elt_list mp) \<le> unat (mp_size mp) \<and> unat (mp_size mp) < 2 ^ 27
     \<and> (if mp_flags mp AND MEMPOOL_F_POOL_CREATED = 0 then elt_list mp = [] else ring_holds mp (pool_objs mp))"

lemma fill_inv_chunks [simp]:
  "fill_inv (mp\<lparr>mem_list := a, nb_mem_chunks := b\<rparr>) = fill_inv mp"
  "same_config mp0 (mp\<lparr>mem_list := a, nb_mem_chunks := b\<rparr>) = same_config mp0 mp"
  by (simp_all add: fill_inv_def ring_holds_def same_config_def)

lemma add_elem_holds:
  assumes "ops_index mp < 4" and "ring_holds mp q" and "length q < unat (mp_size mp)"
  shows "\<exists>mp'. mempool_add_elem mp obj p = Inr mp' \<and> ring_holds mp' (q @ [obj]) \<and> same_config mp mp'
    \<and> elt_list mp' = elt_list mp @ [\<lparr>hdr_obj = obj, hdr_physaddr = p\<rparr>]
    \<and> populated_size mp' = populated_size mp + 1 \<and> mp_flags mp' = mp_flags mp
    \<and> mem_list mp' = mem_list mp \<and> nb_mem_chunks mp' = nb_mem_chunks mp"
proof -
  obtain r where r: "pool_data mp = Some r" "ring_rep r q" "unat (mp_size mp) \<le> unat (ring_capacity r)"
    using assms(2) by (auto simp: ring_holds_def)
  let ?mp = "mp\<lparr>elt_list := elt_list mp @ [\<lparr>hdr_obj = obj, hdr_physaddr = p\<rparr>], populated_size := populated_size mp + 1\<rparr>"
  obtain ret r' where r': "rte_mempool_ops_enqueue_bulk ?mp [obj] 1 = Inr (ret, ?mp\<lparr>pool_data := Some r'\<rparr>)"
    "ring_rep r' (q @ [obj])" "ring_capacity r' = ring_capacity r"
    using ops_enqueue_bulk [of ?mp r q 1 "[obj]"] assms(1,3) r by auto
  then show ?thesis using r(3) by (simp add: mempool_add_elem_def ring_holds_def same_config_def)
qed

text \<open>The addresses of the objects that a chunk is cut into.\<close>

definition chunk_objs :: "rte_mempool \<Rightarrow> addr \<Rightarrow> nat \<Rightarrow> nat \<Rightarrow> addr list" where
  "chunk_objs mp vaddr off n =
     map (\<lambda>k. vaddr + off + k * pool_total_elt_sz mp + unat (mp_header_size mp)) [0..<n]"

lemma chunk_objs_Suc:
  "chunk_objs mp vaddr off (Suc n) =
     (vaddr + off + unat (mp_header_size mp)) # chunk_objs mp vaddr (off + pool_total_elt_sz mp) n"
  by (simp add: chunk_objs_def map_upt_Suc algebra_simps del: upt_Suc)

lemma chunk_objs_cong: "same_config mp mp' \<Longrightarrow> chunk_objs mp' = chunk_objs mp"
  by (simp add: chunk_objs_def same_config_def pool_total_elt_sz_def fun_eq_iff)

lemma pool_total_cong: "same_config mp mp' \<Longrightarrow> pool_total_elt_sz mp' = pool_total_elt_sz mp"
  by (simp add: same_config_def pool_total_elt_sz_def)

definition sizes_ok :: "rte_mempool \<Rightarrow> bool" where
  "sizes_ok mp \<longleftrightarrow> unat (mp_header_size mp) + unat (mp_elt_size mp) + unat (mp_trailer_size mp) < 2 ^ 32"

lemma sizes_ok_cong: "same_config mp mp' \<Longrightarrow> sizes_ok mp' = sizes_ok mp"
  by (simp add: same_config_def sizes_ok_def)

lemma sizes_total:
  assumes "sizes_ok mp"
  shows "unat (mp_header_size mp) + unat (mp_elt_size mp + mp_trailer_size mp) = pool_total_elt_sz mp"
  using assms by (simp add: sizes_ok_def pool_total_elt_sz_def unat_word_ariths)

lemma populate_loop_fills:
  assumes "fill_inv mp" and "mp_flags mp AND MEMPOOL_F_POOL_CREATED \<noteq> 0" and "sizes_ok mp"
  shows "\<exists>n mp'. populate_loop vaddr paddr len mp off i = Inr (i + n, mp') \<and> fill_inv mp' \<and> same_config mp mp'
    \<and> pool_objs mp' = pool_objs mp @ chunk_objs mp vaddr off n \<and> mp_flags mp' = mp_flags mp
    \<and> mem_list mp' = mem_list mp \<and> nb_mem_chunks mp' = nb_mem_chunks mp
    \<and> (n = 0 \<or> off + n * pool_total_elt_sz mp \<le> len)"
  using assms
proof (induction vaddr paddr len mp off i rule: populate_loop.induct)
  case (1 vaddr paddr len mp off i)
  have fi: "ops_index mp < 4" "unat (populated_size mp) = length (elt_list mp)" "ring_holds mp (pool_objs mp)"
    "unat (mp_size mp) < 2 ^ 27" "length (elt_list mp) \<le> unat (mp_size mp)"
    using 1(2,3) by (auto simp: fill_inv_def)
  show ?case
  proof (cases "off + pool_total_elt_sz mp \<le> len \<and> populated_size mp < mp_size mp")
    case False
    then have "populate_loop vaddr paddr len mp off i = Inr (i + 0, mp)"
      by (subst populate_loop.simps) auto
    then show ?thesis using 1(2,3) by (intro exI [of _ 0] exI [of _ mp]) (simp add: chunk_objs_def)
  next
    case True
    let ?off = "off + unat (mp_header_size mp)"
    have lt: "length (pool_objs mp) < unat (mp_size mp)" using True fi(2) by (simp add: word_less_nat_alt)
    obtain mp1 where mp1: "mempool_add_elem mp (vaddr + ?off) (map_option (\<lambda>p. p + ?off) paddr) = Inr mp1"
      "ring_holds mp1 (pool_objs mp @ [vaddr + ?off])" "same_config mp mp1"
      "elt_list mp1 = elt_list mp @ [\<lparr>hdr_obj = vaddr + ?off, hdr_physaddr = map_option (\<lambda>p. p + ?off) paddr\<rparr>]"
      "populated_size mp1 = populated_size mp + 1" "mp_flags mp1 = mp_flags mp"
      "mem_list mp1 = mem_list mp" "nb_mem_chunks mp1 = nb_mem_chunks mp"
      using add_elem_holds [OF fi(1,3) lt] by blast
    have "unat (populated_size mp1) = unat (populated_size mp) + 1"
      unfolding mp1(5) using True unat_plus1 by blast
    then have inv1: "fill_inv mp1"
      using mp1 fi lt 1(3) by (simp add: fill_inv_def same_config_def)
    have next_off: "?off + unat (mp_elt_size mp1 + mp_trailer_size mp1) = off + pool_total_elt_sz mp"
      using sizes_total [OF 1(4)] mp1(3) by (simp add: same_config_def)
    from 1(1) [OF True refl mp1(1) inv1] 1(3,4) mp1(3,6)
    obtain n mp' where *: "populate_loop vaddr paddr len mp1 (off + pool_total_elt_sz mp) (i + 1) = Inr (i + 1 + n, mp')"
      "fill_inv mp'" "same_config mp1 mp'"
      "pool_objs mp' = pool_objs mp1 @ chunk_objs mp1 vaddr (off + pool_total_elt_sz mp) n" "mp_flags mp' = mp_flags mp1"
      "mem_list mp' = mem_list mp1" "nb_mem_chunks mp' = nb_mem_chunks mp1"
      "n = 0 \<or> off + pool_total_elt_sz mp + n * pool_total_elt_sz mp1 \<le> len"
      unfolding next_off by (auto simp: sizes_ok_cong)
    have "populate_loop vaddr paddr len mp off i = Inr (i + Suc n, mp')"
      using True mp1(1) *(1) next_off by (subst populate_loop.simps) (simp add: Let_def add.assoc)
    moreover have "pool_objs mp' = pool_objs mp @ chunk_objs mp vaddr off (Suc n)"
      using *(4) mp1(4) chunk_objs_cong [OF mp1(3)] by (simp add: chunk_objs_Suc add.assoc)
    moreover have "off + Suc n * pool_total_elt_sz mp \<le> len"
      using *(8) True pool_total_cong [OF mp1(3)] by auto
    moreover have "same_config mp mp'" by (rule same_config_trans [OF mp1(3) *(3)])
    moreover have "mp_flags mp' = mp_flags mp \<and> mem_list mp' = mem_list mp \<and> nb_mem_chunks mp' = nb_mem_chunks mp"
      by (simp add: *(5-7) mp1(6-8))
    ultimately show ?thesis using *(2) by blast
  qed
qed


text \<open>Memory zones set \<open>rte_errno\<close> to a positive value when they fail.\<close>

definition env_ok :: "eal_env \<Rightarrow> bool" where
  "env_ok env \<longleftrightarrow> (\<forall>nm sz al e. memzone_reserve env nm sz al = Inl e \<longrightarrow> 0 < e)"

lemma ring_memsize_ok:
  assumes "unat n < 2 ^ 27"
  shows "0 \<le> rte_ring_get_memsize (rte_align32pow2 (n + 1))"
proof -
  have u: "unat (n + 1) = unat n + 1" using assms by (simp add: unat_word_ariths)
  have "0 < n + 1" "n + 1 \<le> 2 ^ 31" using assms u by (simp_all add: word_less_nat_alt word_le_nat_alt)
  then obtain k where k: "k \<le> 31" "rte_align32pow2 (n + 1) = 2 ^ k" "\<And>j. unat (n + 1) \<le> 2 ^ j \<Longrightarrow> k \<le> j"
    using rte_align32pow2_pow2 by blast
  have "k \<le> 27" using k(3) [of 27] u assms by simp
  then have "unat (2 ^ k :: uint32) \<le> 2 ^ 27"
    using power_increasing [of k 27 "2 :: nat"] by (simp add: unat_2p)
  then have "2 ^ k \<le> (RTE_RING_SZ_MASK :: uint32)" by (simp add: word_le_nat_alt RTE_RING_SZ_MASK_def)
  moreover have "POWEROF2 (2 ^ k)" using k(1) unfolding POWEROF2_iff by (intro disjI2 exI [of _ k]) simp
  ultimately show ?thesis unfolding k(2) rte_ring_get_memsize_def using leD by fastforce
qed

lemma ops_alloc:
  assumes env: "env_ok env" and "ops_index mp < 4" and n: "unat (mp_size mp) < 2 ^ 27"
  shows "\<exists>ret mp1. rte_mempool_ops_alloc env mp = Inr (ret, mp1) \<and>
    (ret = 0 \<and> (\<exists>r. mp1 = mp\<lparr>pool_data := Some r\<rparr> \<and> ring_rep r [] \<and> unat (mp_size mp) \<le> unat (ring_capacity r))
     \<or> ret < 0 \<and> mp1 = mp)"
proof -
  obtain ops where ops: "rte_mempool_get_ops (ops_index mp) = Inr ops" "alloc_fn ops = common_ring_alloc"
    using assms(2) by (rule get_ops_cases)
  obtain ret mp1 where a: "common_ring_alloc env mp = (ret, mp1)" by fastforce
  have f: "(fl :: uint32) AND RING_F_EXACT_SZ = 0"
    if "fl = (if b then RING_F_SP_ENQ else 0) OR (if c then RING_F_SC_DEQ else 0)" for fl b c
    using that by (simp add: c_defs)
  have "ret < 0 \<and> mp1 = mp" if nz: "ret \<noteq> 0"
  proof (cases "length (RTE_MEMPOOL_MZ_PREFIX @ mp_name mp) < RTE_RING_NAMESIZE")
    case False
    then show ?thesis using a by (auto simp: common_ring_alloc_def Let_def ENAMETOOLONG_def)
  next
    case True
    define fl where "fl = (if mp_flags mp AND MEMPOOL_F_SP_PUT \<noteq> 0 then RING_F_SP_ENQ else 0)
                     OR (if mp_flags mp AND MEMPOOL_F_SC_GET \<noteq> 0 then RING_F_SC_DEQ else 0)"
    obtain e where e: "rte_ring_create env (RTE_MEMPOOL_MZ_PREFIX @ mp_name mp) (rte_align32pow2 (mp_size mp + 1)) fl
        = (Inl e :: int + addr rte_ring)" "ret = - e" "mp1 = mp"
      using a True nz by (auto simp: common_ring_alloc_def Let_def fl_def split: sum.splits)
    have "0 < e"
    proof -
      have "fl AND RING_F_EXACT_SZ = 0" using f [OF fl_def] .
      then show ?thesis
        using e(1) env ring_memsize_ok [OF n] True
        by (auto simp: rte_ring_create_def Let_def env_ok_def rte_ring_init_def rte_ring_get_memsize_def c_defs
            split: if_splits sum.splits prod.splits option.splits)
    qed
    then show ?thesis using e by simp
  qed
  moreover have "\<exists>r. mp1 = mp\<lparr>pool_data := Some r\<rparr> \<and> ring_rep r [] \<and> unat (mp_size mp) \<le> unat (ring_capacity r)"
    if "ret = 0"
    using common_ring_alloc_rep [of env mp mp1] a that n env by (auto simp: env_ok_def)
  ultimately show ?thesis
    using a ops by (cases "ret = 0") (auto simp: rte_mempool_ops_alloc_def)
qed

text \<open>
  Adding a chunk: the objects are appended to those of the pool, and the number returned, when
  it is not an error, is how many there are more.
\<close>

lemma populate_phys_places:
  assumes env: "env_ok env" and inv: "fill_inv mp" and sz: "sizes_ok mp"
  shows "\<exists>ret mp' objs. rte_mempool_populate_phys env mp vaddr paddr len free_cb = Inr (ret, mp')
    \<and> fill_inv mp' \<and> same_config mp mp' \<and> pool_objs mp' = pool_objs mp @ objs
    \<and> (0 \<le> ret \<longrightarrow> ret = int (length objs) \<and> objs \<noteq> [] \<and> mp_flags mp' AND MEMPOOL_F_POOL_CREATED \<noteq> 0
        \<and> (\<exists>off. objs = chunk_objs mp vaddr off (length objs) \<and> off + length objs * pool_total_elt_sz mp \<le> len))"
proof -
  have fi: "ops_index mp < 4" "unat (mp_size mp) < 2 ^ 27" using inv by (auto simp: fill_inv_def)
  define first where "first = (if mp_flags mp AND MEMPOOL_F_POOL_CREATED = 0
            then cbind (rte_mempool_ops_alloc env mp) (\<lambda>(ret, mp).
                 Inr (if ret \<noteq> 0 then (ret, mp)
                      else (0, mp\<lparr>mp_flags := mp_flags mp OR MEMPOOL_F_POOL_CREATED\<rparr>)))
            else Inr (0, mp))"
  have "\<exists>ret mp1. first = Inr (ret, mp1) \<and> ret \<le> 0 \<and> fill_inv mp1 \<and> same_config mp mp1 \<and> elt_list mp1 = elt_list mp
      \<and> (ret = 0 \<longrightarrow> mp_flags mp1 AND MEMPOOL_F_POOL_CREATED \<noteq> 0)"
  proof (cases "mp_flags mp AND MEMPOOL_F_POOL_CREATED = 0")
    case False
    then show ?thesis using inv by (simp add: first_def)
  next
    case True
    have fl: "(x OR MEMPOOL_F_POOL_CREATED) AND MEMPOOL_F_POOL_CREATED \<noteq> 0" for x
      by (simp add: bit.conj_disj_distrib2 MEMPOOL_F_POOL_CREATED_def word_bw_lcs) 
    obtain ret mp1 where a: "rte_mempool_ops_alloc env mp = Inr (ret, mp1)"
      "ret = 0 \<and> (\<exists>r. mp1 = mp\<lparr>pool_data := Some r\<rparr> \<and> ring_rep r [] \<and> unat (mp_size mp) \<le> unat (ring_capacity r))
       \<or> ret < 0 \<and> mp1 = mp"
      using ops_alloc [OF env fi] by blast
    show ?thesis
    proof (cases "ret = 0")
      case False
      then have "first = Inr (ret, mp)" using a True by (auto simp: first_def)
      then show ?thesis using False a(2) inv by auto
    next
      case ret: True
      then obtain r where r: "mp1 = mp\<lparr>pool_data := Some r\<rparr>" "ring_rep r []" "unat (mp_size mp) \<le> unat (ring_capacity r)"
        using a(2) by auto
      let ?mp = "mp1\<lparr>mp_flags := mp_flags mp1 OR MEMPOOL_F_POOL_CREATED\<rparr>"
      have "first = Inr (0, ?mp)" using a(1) ret True by (simp add: first_def)
      moreover have "fill_inv ?mp" "same_config mp ?mp" "elt_list ?mp = elt_list mp"
        using inv True r fl by (auto simp: fill_inv_def same_config_def ring_holds_def)
      ultimately show ?thesis using fl by auto
    qed
  qed
  then obtain ret mp1 where 1: "first = Inr (ret, mp1)" "ret \<le> 0" "fill_inv mp1" "same_config mp mp1"
    "elt_list mp1 = elt_list mp" "ret = 0 \<Longrightarrow> mp_flags mp1 AND MEMPOOL_F_POOL_CREATED \<noteq> 0" by blast
  show ?thesis
  proof (cases "ret = 0 \<and> populated_size mp1 < mp_size mp1 \<and> zmalloc_ok env ''MEMPOOL_MEMHDR''")
    case False
    then have "\<exists>e<0. rte_mempool_populate_phys env mp vaddr paddr len free_cb = Inr (e, mp1)"
      using 1(1,2) unfolding rte_mempool_populate_phys_def first_def [symmetric]
      by (auto simp: ENOSPC_def ENOMEM_def not_less not_le)
    then show ?thesis using 1 by fastforce
  next
    case True
    define off where "off = align_ptr vaddr (if mp_flags mp1 AND MEMPOOL_F_NO_CACHE_ALIGN \<noteq> 0 then 8 else 64) - vaddr"
    obtain n mp2 where 2: "populate_loop vaddr paddr len mp1 off 0 = Inr (n, mp2)" "fill_inv mp2" "same_config mp1 mp2"
      "pool_objs mp2 = pool_objs mp1 @ chunk_objs mp vaddr off n" "mp_flags mp2 = mp_flags mp1"
      "n = 0 \<or> off + n * pool_total_elt_sz mp \<le> len"
      using chunk_objs_cong [OF 1(4)] pool_total_cong [OF 1(4)] populate_loop_fills [OF 1(3) 1(6), of vaddr paddr len off 0] True sz sizes_ok_cong [OF 1(4)] by auto
    have nle: "\<not> mp_size mp1 \<le> populated_size mp1" using True by (simp add: not_le)
    have p: "rte_mempool_populate_phys env mp vaddr paddr len free_cb =
       (if n = 0 then Inr (- EINVAL, mp2)
        else Inr (int n, mp2\<lparr>mem_list := mem_list mp2 @
                        [\<lparr>mem_addr = vaddr, mem_phys = paddr, mem_len = len, mem_free_cb = free_cb\<rparr>],
                      nb_mem_chunks := nb_mem_chunks mp2 + 1\<rparr>))"
      using True nle 1(1) 2(1) unfolding rte_mempool_populate_phys_def first_def [symmetric] off_def
      by (simp add: Let_def)
    have "same_config mp mp2" by (rule same_config_trans [OF 1(4) 2(3)])
    moreover have "length (chunk_objs mp vaddr off n) = n" by (simp add: chunk_objs_def)
    ultimately show ?thesis
      using p 2 1 True by (cases "n = 0") (auto simp: EINVAL_def)
  qed
qed

lemma populate_phys_fills:
  assumes "env_ok env" "fill_inv mp" "sizes_ok mp"
  shows "\<exists>ret mp' objs. rte_mempool_populate_phys env mp vaddr paddr len free_cb = Inr (ret, mp')
    \<and> fill_inv mp' \<and> same_config mp mp' \<and> pool_objs mp' = pool_objs mp @ objs
    \<and> (0 \<le> ret \<longrightarrow> ret = int (length objs) \<and> objs \<noteq> [] \<and> mp_flags mp' AND MEMPOOL_F_POOL_CREATED \<noteq> 0)"
  using populate_phys_places [OF assms, of vaddr paddr len free_cb] by blast

lemma free_memchunks_empties:
  assumes inv: "fill_inv mp"
  shows "\<exists>mp'. rte_mempool_free_memchunks mp = Inr mp' \<and> fill_inv mp' \<and> same_config mp mp' \<and> elt_list mp' = []
    \<and> mp_flags mp' = mp_flags mp \<and> mem_list mp' = []"
proof -
  let ?I = "\<lambda>i mp'. fill_inv mp' \<and> same_config mp mp' \<and> elt_list mp' = drop i (elt_list mp) \<and> mp_flags mp' = mp_flags mp"
  have "\<exists>mp'. c_for 0 (length (elt_list mp)) free_elt mp = Inr mp' \<and> ?I (length (elt_list mp)) mp'"
  proof (rule c_for_rule [where I = ?I])
    fix i m assume i: "i < length (elt_list mp)" and I: "?I i m"
    then have ne: "elt_list m \<noteq> []" by simp
    then obtain e es where es: "elt_list m = e # es" by (cases "elt_list m") auto
    have fi: "ops_index m < 4" "unat (populated_size m) = length (elt_list m)" "length (elt_list m) \<le> unat (mp_size m)"
      "unat (mp_size m) < 2 ^ 27" "mp_flags m AND MEMPOOL_F_POOL_CREATED \<noteq> 0" "ring_holds m (pool_objs m)"
      using I ne by (auto simp: fill_inv_def split: if_splits)
    obtain r where r: "pool_data m = Some r" "ring_rep r (pool_objs m)" "unat (mp_size m) \<le> unat (ring_capacity r)"
      using fi(6) by (auto simp: ring_holds_def)
    obtain r' where r': "rte_mempool_ops_dequeue_bulk m 1 = Inr (0, [hdr_obj e], m\<lparr>pool_data := Some r'\<rparr>)"
      "ring_rep r' (map hdr_obj es)" "ring_capacity r' = ring_capacity r"
      using ops_dequeue_bulk [OF fi(1) r(1,2), of 1] es by auto
    let ?m = "m\<lparr>pool_data := Some r', elt_list := es, populated_size := populated_size m - 1\<rparr>"
    have "free_elt i m = Inr ?m" using r'(1) es by (simp add: free_elt_def)
    moreover have "unat (populated_size m - 1) = length es"
    proof -
      have "1 \<le> populated_size m" using fi(2) es by (simp add: word_le_nat_alt)
      then show ?thesis using fi(2) es by (simp add: unat_sub)
    qed
    moreover have "es = drop (Suc i) (elt_list mp)" using I es by (metis drop_Suc list.sel(3) tl_drop)
    ultimately show "\<exists>m'. free_elt i m = Inr m' \<and> ?I (Suc i) m'"
      using fi r r' I es by (auto simp: fill_inv_def same_config_def ring_holds_def)
  qed (use inv in auto)
  then show ?thesis by (auto simp: rte_mempool_free_memchunks_def)
qed

lemma virt_loop_fills:
  assumes "env_ok env" "fill_inv mp" "sizes_ok mp"
  shows "\<exists>ret mp'. virt_loop env a len pg_sz mp free_cb cnt off = Inr (ret, mp') \<and> fill_inv mp' \<and> same_config mp mp'
    \<and> (0 \<le> cnt \<and> 0 \<le> ret \<longrightarrow> cnt \<le> ret \<and> int (length (elt_list mp')) = int (length (elt_list mp)) + (ret - cnt)
        \<and> (cnt < ret \<or> mp_flags mp AND MEMPOOL_F_POOL_CREATED \<noteq> 0 \<longrightarrow> mp_flags mp' AND MEMPOOL_F_POOL_CREATED \<noteq> 0))"
  using assms
proof (induction env a len pg_sz mp free_cb cnt off rule: virt_loop.induct)
  case (1 env a len pg_sz mp free_cb cnt off)
  have fail: ?case if v: "virt_loop env a len pg_sz mp free_cb cnt off = cbind (rte_mempool_free_memchunks m) (\<lambda>mp. Inr (ret, mp))"
      and neg: "ret < 0" and fm: "fill_inv m" and sm: "same_config mp m" for ret m
  proof -
    obtain m' where m': "rte_mempool_free_memchunks m = Inr m'" "fill_inv m'" "same_config m m'"
      using free_memchunks_empties [OF fm] by blast
    then have "virt_loop env a len pg_sz mp free_cb cnt off = Inr (ret, m')" using v by simp
    moreover have "same_config mp m'" by (rule same_config_trans [OF sm m'(3)])
    ultimately show ?thesis using m'(2) neg by auto
  qed
  show ?case
  proof (cases "0 < pg_sz \<and> off + pg_sz \<le> len \<and> populated_size mp < mp_size mp")
    case False
    then have "virt_loop env a len pg_sz mp free_cb cnt off = Inr (cnt, mp)" by (subst virt_loop.simps) auto
    then show ?thesis using 1(3) by auto
  next
    case go: True
    define paddr where "paddr = virt2phy env (a + off)"
    show ?thesis
    proof (cases "paddr = None \<and> has_hugepages env")
      case True
      show ?thesis
        by (rule fail [of mp "- EINVAL"]) (use go True 1(3) in \<open>auto simp: virt_loop.simps [of env a] paddr_def EINVAL_def Let_def\<close>)
    next
      case pa: False
      define phys_len where "phys_len = contig_virt env a len pg_sz off paddr pg_sz"
      obtain ret mp1 objs where p: "rte_mempool_populate_phys env mp (a + off) paddr phys_len free_cb = Inr (ret, mp1)"
        "fill_inv mp1" "same_config mp mp1" "pool_objs mp1 = pool_objs mp @ objs"
        "0 \<le> ret \<Longrightarrow> ret = int (length objs) \<and> objs \<noteq> [] \<and> mp_flags mp1 AND MEMPOOL_F_POOL_CREATED \<noteq> 0"
        using populate_phys_fills [OF 1(2-4), of "a + off" paddr phys_len free_cb] by blast
      show ?thesis
      proof (cases "ret < 0")
        case True
        show ?thesis
          by (rule fail [of mp1 ret])
             (use go pa True p in \<open>auto simp: virt_loop.simps [of env a] paddr_def phys_len_def Let_def\<close>)
      next
        case False
        have v: "virt_loop env a len pg_sz mp free_cb cnt off = virt_loop env a len pg_sz mp1 False (cnt + ret) (off + phys_len)"
          using go pa False p(1) by (subst virt_loop.simps) (auto simp: paddr_def phys_len_def Let_def)
        have sz1: "sizes_ok mp1" using 1(4) sizes_ok_cong [OF p(3)] by simp
        obtain ret' mp' where *: "virt_loop env a len pg_sz mp1 False (cnt + ret) (off + phys_len) = Inr (ret', mp')"
          "fill_inv mp'" "same_config mp1 mp'"
          "0 \<le> cnt + ret \<and> 0 \<le> ret' \<longrightarrow> cnt + ret \<le> ret' \<and> int (length (elt_list mp')) = int (length (elt_list mp1)) + (ret' - (cnt + ret))
            \<and> (cnt + ret < ret' \<or> mp_flags mp1 AND MEMPOOL_F_POOL_CREATED \<noteq> 0 \<longrightarrow> mp_flags mp' AND MEMPOOL_F_POOL_CREATED \<noteq> 0)"
          using 1(1) [OF go paddr_def refl pa phys_len_def p(1) refl False 1(2) p(2) sz1] by blast
        have l1: "length (elt_list mp1) = length (elt_list mp) + length objs"
          using arg_cong [OF p(4), of length] by simp
        have "same_config mp mp'" by (rule same_config_trans [OF p(3) *(3)])
        then show ?thesis using v * p(5) False l1 by auto
      qed
    qed
  qed
qed


lemma populate_virt_fills:
  assumes "env_ok env" "fill_inv mp" "sizes_ok mp"
    and c: "elt_list mp \<noteq> [] \<longrightarrow> mp_flags mp AND MEMPOOL_F_POOL_CREATED \<noteq> 0"
  shows "\<exists>ret mp'. rte_mempool_populate_virt env mp a len pg_sz free_cb = Inr (ret, mp') \<and> fill_inv mp' \<and> same_config mp mp' \<and>
     (0 \<le> ret \<longrightarrow> int (length (elt_list mp')) = int (length (elt_list mp)) + ret
        \<and> (elt_list mp' \<noteq> [] \<longrightarrow> mp_flags mp' AND MEMPOOL_F_POOL_CREATED \<noteq> 0))"
proof -
  have neg: "- EEXIST < 0" "- EINVAL < 0" by (simp_all add: EEXIST_def EINVAL_def)
  have "(\<exists>e<0. rte_mempool_populate_virt env mp a len pg_sz free_cb = Inr (e, mp))
    \<or> rte_mempool_populate_virt env mp a len pg_sz free_cb = rte_mempool_populate_phys env mp a None len free_cb
    \<or> rte_mempool_populate_virt env mp a len pg_sz free_cb = virt_loop env a len pg_sz mp free_cb 0 0"
    unfolding rte_mempool_populate_virt_def using neg by simp
  then consider (e) e where "rte_mempool_populate_virt env mp a len pg_sz free_cb = Inr (e, mp)" "e < 0"
    | (p) "rte_mempool_populate_virt env mp a len pg_sz free_cb = rte_mempool_populate_phys env mp a None len free_cb"
    | (v) "rte_mempool_populate_virt env mp a len pg_sz free_cb = virt_loop env a len pg_sz mp free_cb 0 0"
    by blast
  then show ?thesis
  proof cases
    case e
    then show ?thesis using assms(2) by auto
  next
    case p
    obtain ret mp' objs where "rte_mempool_populate_phys env mp a None len free_cb = Inr (ret, mp')"
      "fill_inv mp'" "same_config mp mp'" "pool_objs mp' = pool_objs mp @ objs"
      "0 \<le> ret \<longrightarrow> ret = int (length objs) \<and> objs \<noteq> [] \<and> mp_flags mp' AND MEMPOOL_F_POOL_CREATED \<noteq> 0"
      using populate_phys_fills [OF assms(1-3), of a None len free_cb] by blast
    moreover from this(4) have "length (elt_list mp') = length (elt_list mp) + length objs"
      by (metis length_append length_map)
    ultimately show ?thesis using p by auto
  next
    case v
    obtain ret mp' where l: "virt_loop env a len pg_sz mp free_cb 0 0 = Inr (ret, mp')" "fill_inv mp'" "same_config mp mp'"
      "0 \<le> ret \<longrightarrow> int (length (elt_list mp')) = int (length (elt_list mp)) + ret
        \<and> (0 < ret \<or> mp_flags mp AND MEMPOOL_F_POOL_CREATED \<noteq> 0 \<longrightarrow> mp_flags mp' AND MEMPOOL_F_POOL_CREATED \<noteq> 0)"
      using virt_loop_fills [OF assms(1-3), of a len pg_sz free_cb 0 0] by auto
    have "mp_flags mp' AND MEMPOOL_F_POOL_CREATED \<noteq> 0" if "0 \<le> ret" "elt_list mp' \<noteq> []"
    proof (cases "0 < ret")
      case True
      then show ?thesis using l(4) that by simp
    next
      case False
      then have "length (elt_list mp') = length (elt_list mp)" using l(4) that by simp
      then have "elt_list mp \<noteq> []" using that(2) by auto
      then show ?thesis using c l(4) that by simp
    qed
    then show ?thesis using v l by auto
  qed
qed

lemma populate_chunk_fills:
  assumes "env_ok env" "fill_inv mp" "sizes_ok mp"
    and "elt_list mp \<noteq> [] \<longrightarrow> mp_flags mp AND MEMPOOL_F_POOL_CREATED \<noteq> 0"
  shows "\<exists>ret mp1. (if huge \<and> \<not> xen then rte_mempool_populate_phys env mp a paddr len True
       else rte_mempool_populate_virt env mp a len pg_sz True) = Inr (ret, mp1) \<and> fill_inv mp1 \<and> same_config mp mp1 \<and>
           (0 \<le> ret \<longrightarrow> int (length (elt_list mp1)) = int (length (elt_list mp)) + ret
              \<and> (elt_list mp1 \<noteq> [] \<longrightarrow> mp_flags mp1 AND MEMPOOL_F_POOL_CREATED \<noteq> 0)
              \<and> (huge \<and> \<not> xen \<longrightarrow> 0 < ret))"
proof (cases "huge \<and> \<not> xen")
  case True
  obtain ret mp' objs where "rte_mempool_populate_phys env mp a paddr len True = Inr (ret, mp')"
    "fill_inv mp'" "same_config mp mp'" "pool_objs mp' = pool_objs mp @ objs"
    "0 \<le> ret \<longrightarrow> ret = int (length objs) \<and> objs \<noteq> [] \<and> mp_flags mp' AND MEMPOOL_F_POOL_CREATED \<noteq> 0"
    using populate_phys_fills [OF assms(1-3), of a paddr len True] by blast
  moreover from this(4) have "length (elt_list mp') = length (elt_list mp) + length objs"
    by (metis length_append length_map)
  ultimately show ?thesis using True by auto
next
  case False
  then show ?thesis using populate_virt_fills [OF assms, of a len pg_sz True] by auto
qed

text \<open>
  Filling the pool by the default method: when it reports success the pool has exactly
  \<open>mp_size\<close> objects, all of them in the ring. With huge pages every zone takes at least one
  object, so that as many rounds as there are objects are enough.
\<close>

definition filled :: "rte_mempool \<Rightarrow> rte_mempool \<Rightarrow> bool" where
  "filled mp mp' \<longleftrightarrow> fill_inv mp' \<and> same_config mp mp'
     \<and> length (elt_list mp') = unat (mp_size mp)
     \<and> (mp_size mp \<noteq> 0 \<longrightarrow> mp_flags mp' AND MEMPOOL_F_POOL_CREATED \<noteq> 0)"

lemma populate_default_loop_fills:
  assumes "env_ok env" "fill_inv mp" "sizes_ok mp"
    and "unat n + length (elt_list mp) = unat (mp_size mp)"
    and "elt_list mp \<noteq> [] \<longrightarrow> mp_flags mp AND MEMPOOL_F_POOL_CREATED \<noteq> 0"
  shows "\<exists>res. populate_default_loop fuel env pg_sz pg_shift align mz_id n mp = Inr res
    \<and> (case res of Some (ret, mp') \<Rightarrow> fill_inv mp' \<and> same_config mp mp' \<and> (0 \<le> ret \<longrightarrow> filled mp mp')
       | None \<Rightarrow> \<not> (has_hugepages env \<and> \<not> xen_dom0_supported env \<and> unat n \<le> fuel))"
  using assms
proof (induction fuel arbitrary: mp n mz_id)
  case 0
  show ?case
  proof (cases "n = 0")
    case True
    then have "populate_default_loop 0 env pg_sz pg_shift align mz_id n mp = Inr (Some (int (unat (mp_size mp)), mp))"
      by (subst populate_default_loop.simps) simp
    moreover have "filled mp mp" using 0 True by (auto simp: filled_def unat_eq_0)
    ultimately show ?thesis using 0 by auto
  next
    case False
    then have "populate_default_loop 0 env pg_sz pg_shift align mz_id n mp = Inr None"
      by (subst populate_default_loop.simps) simp
    then show ?thesis using False by (auto simp: unat_eq_0)
  qed
next
  case (Suc fuel)
  let ?run = "populate_default_loop (Suc fuel) env pg_sz pg_shift align mz_id n mp"
  have fail: ?case if v: "?run = cbind (rte_mempool_free_memchunks m) (\<lambda>mp. Inr (Some (ret, mp)))"
      and neg: "ret < 0" and fm: "fill_inv m" and sm: "same_config mp m" for ret m
  proof -
    obtain m' where m': "rte_mempool_free_memchunks m = Inr m'" "fill_inv m'" "same_config m m'"
      using free_memchunks_empties [OF fm] by blast
    then have "?run = Inr (Some (ret, m'))" using v by simp
    moreover have "same_config mp m'" by (rule same_config_trans [OF sm m'(3)])
    ultimately show ?thesis using m'(2) neg by auto
  qed
  show ?case
  proof (cases "n = 0")
    case True
    then have "?run = Inr (Some (int (unat (mp_size mp)), mp))"
      by (subst populate_default_loop.simps) simp
    moreover have "filled mp mp" using Suc.prems True by (auto simp: filled_def unat_eq_0)
    ultimately show ?thesis using Suc.prems by auto
  next
    case n0: False
    define nm where "nm = RTE_MEMPOOL_MZ_PREFIX @ mp_name mp @ ''_'' @ fmt_u mz_id"
    define sz where "sz = rte_mempool_xmem_size (unat n) (pool_total_elt_sz mp) pg_shift"
    define mz where "mz = (case memzone_reserve env nm sz align of
                          Inr mz \<Rightarrow> Inr mz | Inl _ \<Rightarrow> memzone_reserve env nm 0 align)"
    define pop where "pop z = (if has_hugepages env \<and> \<not> xen_dom0_supported env
                        then rte_mempool_populate_phys env mp (mz_addr z)
                               (if mp_flags mp AND MEMPOOL_F_NO_PHYS_CONTIG \<noteq> 0 then None else Some (mz_phys_addr z))
                               (mz_len z) True
                        else rte_mempool_populate_virt env mp (mz_addr z) (mz_len z) pg_sz True)" for z :: rte_memzone
    have run: "?run =
      (if RTE_MEMZONE_NAMESIZE \<le> length nm then cbind (rte_mempool_free_memchunks mp) (\<lambda>mp. Inr (Some (- ENAMETOOLONG, mp)))
       else case mz of Inl e \<Rightarrow> cbind (rte_mempool_free_memchunks mp) (\<lambda>mp. Inr (Some (- e, mp)))
         | Inr z \<Rightarrow> cbind (pop z) (\<lambda>(ret, mp).
                 if ret < 0 then cbind (rte_mempool_free_memchunks mp) (\<lambda>mp. Inr (Some (ret, mp)))
                 else populate_default_loop fuel env pg_sz pg_shift align (mz_id + 1) (n - of_int ret) mp))"
      unfolding populate_default_loop.simps [of "Suc fuel"] nm_def sz_def mz_def pop_def Let_def using n0 by simp
    show ?thesis
    proof (cases "RTE_MEMZONE_NAMESIZE \<le> length nm")
      case True
      show ?thesis
        by (rule fail [of mp "- ENAMETOOLONG"]) (use run True Suc.prems in \<open>simp_all add: ENAMETOOLONG_def\<close>)
    next
      case nm: False
      show ?thesis
      proof (cases mz)
        case (Inl e)
        then have "0 < e" using Suc.prems(1) by (auto simp: mz_def env_ok_def split: sum.splits)
        then show ?thesis
          by (intro fail [of mp "- e"]) (use run nm Inl Suc.prems in simp_all)
      next
        case (Inr z)
        have "\<exists>ret mp1. pop z = Inr (ret, mp1) \<and> fill_inv mp1 \<and> same_config mp mp1 \<and>
           (0 \<le> ret \<longrightarrow> int (length (elt_list mp1)) = int (length (elt_list mp)) + ret
              \<and> (elt_list mp1 \<noteq> [] \<longrightarrow> mp_flags mp1 AND MEMPOOL_F_POOL_CREATED \<noteq> 0)
              \<and> (has_hugepages env \<and> \<not> xen_dom0_supported env \<longrightarrow> 0 < ret))"
          unfolding pop_def by (rule populate_chunk_fills [OF Suc.prems(1-3,5)])
        then obtain ret mp1 where p: "pop z = Inr (ret, mp1)" "fill_inv mp1" "same_config mp mp1"
          "0 \<le> ret \<Longrightarrow> int (length (elt_list mp1)) = int (length (elt_list mp)) + ret"
          "0 \<le> ret \<Longrightarrow> elt_list mp1 \<noteq> [] \<longrightarrow> mp_flags mp1 AND MEMPOOL_F_POOL_CREATED \<noteq> 0"
          "0 \<le> ret \<Longrightarrow> has_hugepages env \<and> \<not> xen_dom0_supported env \<longrightarrow> 0 < ret" by blast
        show ?thesis
        proof (cases "ret < 0")
          case True
          show ?thesis by (rule fail [of mp1 ret]) (use run nm Inr p True in auto)
        next
          case False
          have sz1: "sizes_ok mp1" "mp_size mp1 = mp_size mp"
            using Suc.prems(3) sizes_ok_cong [OF p(3)] p(3) by (simp_all add: same_config_def)
          have le: "length (elt_list mp1) \<le> unat (mp_size mp)" using p(2) sz1 by (simp add: fill_inv_def)
          then have rn: "nat ret \<le> unat n" using p(4) False Suc.prems(4) by linarith
          have "of_int ret = (of_nat (nat ret) :: uint32)" using False by simp
          moreover have un: "unat (of_nat (nat ret) :: uint32) = nat ret"
            using rn unat_lt2p [of n] by (intro unat_of_nat_eq) simp
          ultimately have n1: "unat (n - of_int ret) = unat n - nat ret"
            using rn by (simp add: unat_sub word_le_nat_alt)
          have "unat (n - of_int ret) + length (elt_list mp1) = unat (mp_size mp1)"
          proof -
            have "length (elt_list mp1) = length (elt_list mp) + nat ret" using p(4) False by linarith
            then show ?thesis using n1 rn Suc.prems(4) sz1(2) by simp
          qed
          from Suc.IH [OF Suc.prems(1) p(2) sz1(1) this p(5)] False obtain res where
            res: "populate_default_loop fuel env pg_sz pg_shift align (mz_id + 1) (n - of_int ret) mp1 = Inr res"
            "case res of Some (ret, mp') \<Rightarrow> fill_inv mp' \<and> same_config mp1 mp' \<and> (0 \<le> ret \<longrightarrow> filled mp1 mp')
              | None \<Rightarrow> \<not> (has_hugepages env \<and> \<not> xen_dom0_supported env \<and> unat (n - of_int ret) \<le> fuel)" by auto
          have "?run = Inr res" using run nm Inr p(1) False res(1) by simp
          moreover have "\<not> (has_hugepages env \<and> \<not> xen_dom0_supported env \<and> unat n \<le> Suc fuel)" if "res = None"
            using that res(2) n1 p(6) False by auto
          moreover have "filled mp m" if "filled mp1 m" for m
            using that sz1(2) same_config_trans [OF p(3)] by (auto simp: filled_def)
          ultimately show ?thesis
            using res(2) same_config_trans [OF p(3)] by (auto split: option.splits)
        qed
      qed
    qed
  qed
qed

section \<open>The pool as a whole\<close>

text \<open>The multiset of the free objects: those in the ring and those in the caches.\<close>

definition pool_holds :: "rte_mempool \<Rightarrow> addr multiset \<Rightarrow> bool" where
  "pool_holds mp F \<longleftrightarrow> ops_index mp < 4 \<and> (\<exists>q. ring_holds mp q \<and>
     (if mp_cache_size mp = 0 then F = mset q
      else length (local_cache mp) = RTE_MAX_LCORE \<and>
           (\<exists>xss. list_all2 cache_rep (local_cache mp) xss \<and> F = mset q + mset (concat xss))))"

lemma mset_concat_update:
  "i < length xss \<Longrightarrow> mset (concat (xss[i := ys])) + mset (xss ! i) = mset (concat xss) + mset ys"
proof (induction xss arbitrary: i)
  case (Cons xs xss)
  then show ?case by (cases i) (auto simp: ac_simps)
qed simp

lemma length_concat_nth: "i < length xss \<Longrightarrow> length (xss ! i) \<le> length (concat xss)"
  by (induction xss arbitrary: i) (auto simp: nth_Cons less_Suc_eq_0_disj split: nat.splits intro: trans_le_add2)

text \<open>How the free objects are divided between the ring and the caches.\<close>

definition pool_parts :: "rte_mempool \<Rightarrow> addr multiset \<Rightarrow> addr list \<Rightarrow> addr list list \<Rightarrow> bool" where
  "pool_parts mp F q xss \<longleftrightarrow> ops_index mp < 4 \<and> ring_holds mp q \<and> F = mset q + mset (concat xss) \<and>
     (if mp_cache_size mp = 0 then xss = []
      else length (local_cache mp) = RTE_MAX_LCORE \<and> list_all2 cache_rep (local_cache mp) xss)"

lemma pool_holds_parts: "pool_holds mp F \<longleftrightarrow> (\<exists>q xss. pool_parts mp F q xss)"
  unfolding pool_holds_def pool_parts_def by (cases "mp_cache_size mp = 0") auto

lemma pool_parts_ring:
  assumes "pool_parts mp F q xss" and "pool_data mp = Some r"
    and "ring_rep r' q'" and "ring_capacity r' = ring_capacity r"
  shows "pool_parts (mp\<lparr>pool_data := Some r'\<rparr>) (mset q' + mset (concat xss)) q' xss"
  using assms by (auto simp: pool_parts_def ring_holds_def)

lemma pool_parts_cache:
  assumes p: "pool_parts mp F q xss" and r: "pool_data mp = Some r" and i: "mp_cache_size mp \<noteq> 0" "i < RTE_MAX_LCORE"
    and r': "ring_rep r' q'" "ring_capacity r' = ring_capacity r" and c: "cache_rep c xs"
    and m: "A + (mset q' + mset xs) = B + (mset q + mset (xss ! i))"
  shows "\<exists>F'. pool_parts (mp\<lparr>pool_data := Some r', local_cache := (local_cache mp)[i := c]\<rparr>) F' q' (xss[i := xs])
    \<and> A + F' = B + F"
proof -
  have la: "list_all2 cache_rep (local_cache mp) xss" and len: "length xss = RTE_MAX_LCORE"
    using p i(1) by (auto simp: pool_parts_def list_all2_lengthD)
  have "list_all2 cache_rep ((local_cache mp)[i := c]) (xss[i := xs])"
    using la c by (rule list_all2_update_cong)
  then have "pool_parts (mp\<lparr>pool_data := Some r', local_cache := (local_cache mp)[i := c]\<rparr>)
      (mset q' + mset (concat (xss[i := xs]))) q' (xss[i := xs])"
    using p r r' i(1) by (auto simp: pool_parts_def ring_holds_def)
  moreover have "A + (mset q' + mset (concat (xss[i := xs]))) = B + F"
  proof -
    have u: "mset (concat (xss[i := xs])) + mset (xss ! i) = mset (concat xss) + mset xs"
      using i(2) len by (intro mset_concat_update) simp
    have "A + (mset q' + mset (concat (xss[i := xs]))) + mset (xss ! i)
        = A + mset q' + (mset (concat (xss[i := xs])) + mset (xss ! i))" by (simp only: ac_simps)
    also have "\<dots> = (A + (mset q' + mset xs)) + mset (concat xss)" unfolding u by (simp only: ac_simps)
    also have "\<dots> = (B + (mset q + mset (concat xss))) + mset (xss ! i)" unfolding m by (simp only: ac_simps)
    finally show ?thesis using p by (simp add: pool_parts_def)
  qed
  ultimately show ?thesis by blast
qed

lemma pool_parts_size:
  "pool_parts mp F q xss \<Longrightarrow> size F = length q + length (concat xss)"
  by (simp add: pool_parts_def)

lemma pool_parts_nth:
  assumes "pool_parts mp F q xss" and "mp_cache_size mp \<noteq> 0" and "i < RTE_MAX_LCORE"
  shows "i < length (local_cache mp)" "cache_rep (local_cache mp ! i) (xss ! i)" "length (xss ! i) \<le> length (concat xss)"
  using assms by (auto simp: pool_parts_def list_all2_conv_all_nth intro: length_concat_nth)

lemma put_bulk_holds:
  assumes p: "pool_holds mp F" and n: "unat n \<le> length objs" "size F + unat n \<le> unat (mp_size mp)"
  shows "\<exists>mp'. rte_mempool_put_bulk lcore mp objs n = Inr mp' \<and> pool_holds mp' (F + mset (take (unat n) objs))
    \<and> mp_size mp' = mp_size mp"
proof -
  obtain q xss where pp: "pool_parts mp F q xss" using p pool_holds_parts by blast
  then obtain r where q: "ops_index mp < 4" "pool_data mp = Some r" "ring_rep r q"
    "unat (mp_size mp) \<le> unat (ring_capacity r)"
    by (auto simp: pool_parts_def ring_holds_def)
  have sz: "size F = length q + length (concat xss)" by (rule pool_parts_size [OF pp])
  show ?thesis
  proof (cases "rte_mempool_default_cache mp lcore")
    case None
    obtain ret r' where r': "rte_mempool_ops_enqueue_bulk mp objs n = Inr (ret, mp\<lparr>pool_data := Some r'\<rparr>)"
      "ring_rep r' (q @ take (unat n) objs)" "ring_capacity r' = ring_capacity r"
      using ops_enqueue_bulk [OF q(1-3) n(1)] n(2) q(4) sz by auto
    have "rte_mempool_put_bulk lcore mp objs n = Inr (mp\<lparr>pool_data := Some r'\<rparr>)"
      using None r'(1) by (simp add: rte_mempool_put_bulk_def cache_at_def cache_store_def mempool_generic_put_def)
    moreover have F': "mset (q @ take (unat n) objs) + mset (concat xss) = F + mset (take (unat n) objs)"
      using pp by (simp add: pool_parts_def ac_simps)
    have "pool_holds (mp\<lparr>pool_data := Some r'\<rparr>) (F + mset (take (unat n) objs))"
      using pool_parts_ring [OF pp q(2) r'(2,3)] pool_holds_parts unfolding F' by blast
    ultimately show ?thesis by simp
  next
    case (Some i)
    then have i: "mp_cache_size mp \<noteq> 0" "i < RTE_MAX_LCORE"
      by (auto simp: rte_mempool_default_cache_def split: if_splits)
    note nth = pool_parts_nth [OF pp i]
    obtain r' q' c' xs' where *: "mempool_generic_put mp objs n (Some (local_cache mp ! i)) = Inr (mp\<lparr>pool_data := Some r'\<rparr>, Some c')"
      "ring_rep r' q'" "cache_rep c' xs'" "ring_capacity r' = ring_capacity r"
      "mset q' + mset xs' = mset q + mset (xss ! i) + mset (take (unat n) objs)"
      using generic_put_cached [OF q(1-3) nth(2) n(1)] n(2) q(4) sz nth(3) by auto
    have m: "{#} + (mset q' + mset xs') = mset (take (unat n) objs) + (mset q + mset (xss ! i))"
      using *(5) by (simp add: ac_simps)
    obtain F' where F': "pool_parts (mp\<lparr>pool_data := Some r', local_cache := (local_cache mp)[i := c']\<rparr>) F' q' (xss[i := xs'])"
      "{#} + F' = mset (take (unat n) objs) + F"
      using pool_parts_cache [OF pp q(2) i *(2,4,3) m] by blast
    have "rte_mempool_put_bulk lcore mp objs n = Inr (mp\<lparr>pool_data := Some r', local_cache := (local_cache mp)[i := c']\<rparr>)"
      using Some *(1) nth(1) by (simp add: rte_mempool_put_bulk_def cache_at_def cache_store_def)
    moreover have "F' = F + mset (take (unat n) objs)" using F'(2) by (simp add: ac_simps)
    ultimately show ?thesis using F'(1) pool_holds_parts by auto
  qed
qed

lemma get_bulk_holds:
  assumes p: "pool_holds mp F"
  shows "\<exists>ret objs mp' F'. rte_mempool_get_bulk lcore mp n = Inr (ret, objs, mp') \<and> pool_holds mp' F'
    \<and> mset objs + F' = F \<and> get_outcome n ret objs \<and> mp_size mp' = mp_size mp"
proof -
  obtain q xss where pp: "pool_parts mp F q xss" using p pool_holds_parts by blast
  then obtain r where q: "ops_index mp < 4" "pool_data mp = Some r" "ring_rep r q"
    by (auto simp: pool_parts_def ring_holds_def)
  show ?thesis
  proof (cases "rte_mempool_default_cache mp lcore")
    case None
    obtain ret objs r' q' where r': "rte_mempool_ops_dequeue_bulk mp n = Inr (ret, objs, mp\<lparr>pool_data := Some r'\<rparr>)"
      "ring_rep r' q'" "ring_capacity r' = ring_capacity r" "q = objs @ q'" "get_outcome n ret objs"
      using ring_get [OF q, of n] by blast
    have "rte_mempool_get_bulk lcore mp n = Inr (ret, objs, mp\<lparr>pool_data := Some r'\<rparr>)"
      using None r'(1) by (simp add: rte_mempool_get_bulk_def cache_at_def cache_store_def mempool_generic_get_def Let_def)
    moreover have "mset objs + (mset q' + mset (concat xss)) = F"
      using pp r'(4) by (simp add: pool_parts_def ac_simps)
    moreover have "pool_holds (mp\<lparr>pool_data := Some r'\<rparr>) (mset q' + mset (concat xss))"
      using pool_parts_ring [OF pp q(2) r'(2,3)] pool_holds_parts by blast
    moreover have "mp_size (mp\<lparr>pool_data := Some r'\<rparr>) = mp_size mp" by simp
    ultimately show ?thesis using r'(5) by blast
  next
    case (Some i)
    then have i: "mp_cache_size mp \<noteq> 0" "i < RTE_MAX_LCORE"
      by (auto simp: rte_mempool_default_cache_def split: if_splits)
    note nth = pool_parts_nth [OF pp i]
    obtain ret objs r' q' c' xs' where
      *: "mempool_generic_get mp n (Some (local_cache mp ! i)) = Inr (ret, objs, mp\<lparr>pool_data := Some r'\<rparr>, Some c')"
      "ring_rep r' q'" "cache_rep c' xs'" "ring_capacity r' = ring_capacity r"
      "mset q + mset (xss ! i) = mset objs + (mset q' + mset xs')" "get_outcome n ret objs"
      using generic_get_cached [OF q nth(2), of n] by blast
    have m: "mset objs + (mset q' + mset xs') = {#} + (mset q + mset (xss ! i))"
      using *(5) by simp
    obtain F' where F': "pool_parts (mp\<lparr>pool_data := Some r', local_cache := (local_cache mp)[i := c']\<rparr>) F' q' (xss[i := xs'])"
      "mset objs + F' = {#} + F"
      using pool_parts_cache [OF pp q(2) i *(2,4,3) m] by blast
    have "rte_mempool_get_bulk lcore mp n =
        Inr (ret, objs, mp\<lparr>pool_data := Some r', local_cache := (local_cache mp)[i := c']\<rparr>)"
      using Some *(1) nth(1) by (simp add: rte_mempool_get_bulk_def cache_at_def cache_store_def)
    then show ?thesis using F' *(6) pool_holds_parts by fastforce
  qed
qed

section \<open>Object sizes\<close>

lemma gcd_loop_gcd: "unat (gcd_loop a b) = gcd (unat a) (unat b)"
proof (induction a b rule: gcd_loop.induct)
  case (1 a b)
  show ?case
  proof (cases "b = 0")
    case True
    then show ?thesis by (subst gcd_loop.simps) simp
  next
    case False
    then have "unat (gcd_loop a b) = gcd (unat b) (unat (a mod b))"
      using 1 by (subst gcd_loop.simps) simp
    then show ?thesis using gcd_red_nat [of "unat a" "unat b"] by (simp only: unat_mod)
  qed
qed

lemma get_gcd_gcd: "unat (get_gcd a b) = gcd (unat a) (unat b)"
  by (auto simp: get_gcd_def gcd_loop_gcd gcd.commute)

lemma get_gcd_1: "get_gcd a b = 1 \<longleftrightarrow> coprime (unat a) (unat b)"
proof -
  have "get_gcd a b = 1 \<longleftrightarrow> unat (get_gcd a b) = 1" by (metis unat_1 word_unat_eq_iff)
  then show ?thesis by (simp add: get_gcd_gcd coprime_iff_gcd_eq_1)
qed

lemma spread_loop_finds:
  assumes "coprime (unat x + d) (unat k)" and "unat x + d < 2 ^ 32" and "d \<le> fuel"
  shows "\<exists>y. spread_loop fuel k x = Some y \<and> unat x \<le> unat y \<and> unat y \<le> unat x + d \<and> coprime (unat y) (unat k)"
  using assms
proof (induction d arbitrary: x fuel)
  case 0
  then show ?case by (subst spread_loop.simps) (simp add: get_gcd_1)
next
  case (Suc d)
  show ?case
  proof (cases "coprime (unat x) (unat k)")
    case True
    then show ?thesis by (subst spread_loop.simps) (simp add: get_gcd_1)
  next
    case False
    obtain f where f: "fuel = Suc f" using Suc.prems(3) by (cases fuel) auto
    have x1: "unat (x + 1) = unat x + 1" using Suc.prems(2) by (simp add: unat_word_ariths)
    have "\<exists>y. spread_loop f k (x + 1) = Some y \<and> unat (x + 1) \<le> unat y \<and> unat y \<le> unat (x + 1) + d \<and> coprime (unat y) (unat k)"
      by (rule Suc.IH) (use Suc.prems f x1 in auto)
    then show ?thesis using False f x1 by (subst spread_loop.simps) (auto simp: get_gcd_1)
  qed
qed

lemma coprime_near:
  fixes x k :: nat
  assumes "0 < k"
  shows "\<exists>d<k. coprime (x + d) k"
proof -
  define d where "d = (1 + (k - 1) * x) mod k"
  have "(x + d) mod k = (x + (1 + (k - 1) * x)) mod k" unfolding d_def by (simp only: mod_add_right_eq)
  also have "x + (1 + (k - 1) * x) = 1 + k * x" using assms by (cases k) (simp_all add: algebra_simps)
  also have "(1 + k * x) mod k = 1 mod k" by (rule mod_mult_self2)
  finally have m: "(x + d) mod k = 1 mod k" .
  have "gcd (x + d) k = gcd k ((x + d) mod k)" by (rule gcd_red_nat)
  also have "\<dots> = gcd 1 k" unfolding m by (rule gcd_red_nat [symmetric])
  finally have "coprime (x + d) k" by (simp add: coprime_iff_gcd_eq_1)
  moreover have "d < k" using assms by (simp add: d_def)
  ultimately show ?thesis by blast
qed

lemma optimize_object_size_spec:
  fixes env :: eal_env
  defines "k \<equiv> (if memory_nrank env = 0 then 1 else memory_nrank env) * (if memory_nchannel env = 0 then 4 else memory_nchannel env)"
  assumes k: "0 < unat k" "unat k < 2 ^ 16" and fuel: "unat k \<le> fuel" and s: "unat obj_size < 2 ^ 25"
  shows "\<exists>t. optimize_object_size env fuel obj_size = Some t \<and> unat obj_size \<le> unat t \<and> unat t \<le> 2 ^ 25 + 64 + 2 ^ 22
    \<and> 64 dvd unat t \<and> coprime (unat t div 64) (unat k)"
proof -
  define x where "x = (obj_size + 63) div 64"
  have x: "unat x = (unat obj_size + 63) div 64"
    using s by (simp add: x_def unat_div unat_word_ariths)
  then have xb: "unat x \<le> 2 ^ 19 + 1" using s by simp
  obtain d where d: "d < unat k" "coprime (unat x + d) (unat k)" using coprime_near [OF k(1)] by blast
  then obtain y where y: "spread_loop fuel k x = Some y" "unat x \<le> unat y" "unat y \<le> unat x + d" "coprime (unat y) (unat k)"
    using spread_loop_finds [OF d(2), of fuel] fuel k(2) xb by auto
  have yb: "unat y \<le> 2 ^ 19 + 1 + 2 ^ 16" using y(3) xb d(1) k(2) by linarith
  then have t: "unat (y * 64) = unat y * 64" by (simp add: unat_word_ariths)
  have "optimize_object_size env fuel obj_size = Some (y * 64)"
    using y(1) by (simp add: optimize_object_size_def k_def x_def Let_def)
  moreover have "unat obj_size \<le> unat y * 64" using x y(2) by linarith
  ultimately show ?thesis using y(4) yb t by auto
qed

lemma unat_align32:
  assumes "unat v + 2 ^ k < 2 ^ 32" and "k < 32"
  shows "unat (align32 v k) = (unat v + 2 ^ k - 1) div 2 ^ k * 2 ^ k"
proof -
  have m: "unat (mask k :: uint32) = 2 ^ k - 1" 
    using assms(2) unat_mask [of k, where 'a = 32] by (simp add: mask_eq_exp_minus_1 [where 'a = nat])
  have u: "unat (v + mask k) = unat v + (2 ^ k - 1)"
    using assms m by (simp add: unat_word_ariths)
  have "unat (push_bit k (drop_bit k (v + mask k))) = unat (drop_bit k (v + mask k)) * 2 ^ k"
    by (rule unat_push_bit) (use unat_lt2p [of "v + mask k"] in \<open>auto simp: unat_drop_bit_div intro: le_less_trans [OF div_times_less_eq_dividend]\<close>)
  then show ?thesis unfolding align32_def and_not_mask unat_drop_bit_div u by simp
qed

lemma pad_to_64:
  fixes s :: uint32
  assumes "unat s < 2 ^ 31"
  shows "unat ((64 - (s AND 63)) AND 63) < 64" and "64 dvd unat s + unat ((64 - (s AND 63)) AND 63)"
proof -
  have and63: "unat (x AND 63) = unat x mod 64" for x :: uint32
  proof -
    have "(63 :: uint32) = mask 6" by (simp add: mask_eq_exp_minus_1)
    then show ?thesis using unat_mask_mod [of x 6] by simp
  qed
  define x where "x = s AND 63"
  have x: "unat x = unat s mod 64" unfolding x_def by (rule and63)
  then have "x \<le> 64" by (simp add: word_le_nat_alt less_imp_le)
  then have "unat (64 - x) = 64 - unat s mod 64" using x by (simp add: unat_sub)
  then have 3: "unat ((64 - x) AND 63) = (64 - unat s mod 64) mod 64" by (simp only: and63)
  show "unat ((64 - (s AND 63)) AND 63) < 64" unfolding x_def [symmetric] 3 by simp
  have "(unat s + (64 - unat s mod 64) mod 64) mod 64 = (unat s mod 64 + (64 - unat s mod 64)) mod 64"
    by (simp only: mod_add_left_eq mod_add_right_eq)
  also have "unat s mod 64 + (64 - unat s mod 64) = 64"
    by (rule le_add_diff_inverse) (simp add: less_imp_le)
  finally have "(unat s + (64 - unat s mod 64) mod 64) mod 64 = 0" by (simp only: mod_self)
  then show "64 dvd unat s + unat ((64 - (s AND 63)) AND 63)"
    unfolding x_def [symmetric] 3 by (rule mod_0_imp_dvd)
qed

lemma calc_obj_size_spec:
  fixes env :: eal_env
  defines "k \<equiv> (if memory_nrank env = 0 then 1 else memory_nrank env) * (if memory_nchannel env = 0 then 4 else memory_nchannel env)"
  assumes k: "0 < unat k" "unat k < 2 ^ 16" and fuel: "unat k \<le> fuel" and e: "unat elt_size < 2 ^ 24"
  shows "\<exists>sz. rte_mempool_calc_obj_size env fuel elt_size flags = Some sz
    \<and> unat elt_size \<le> unat (objsz_elt sz) \<and> 8 dvd unat (objsz_elt sz) \<and> SIZEOF_OBJHDR \<le> unat (objsz_header sz)
    \<and> unat (objsz_header sz) + unat (objsz_elt sz) + unat (objsz_trailer sz) = unat (objsz_total sz)
    \<and> unat (objsz_total sz) < 2 ^ 26
    \<and> (flags AND MEMPOOL_F_NO_CACHE_ALIGN = 0 \<longrightarrow> 64 dvd unat (objsz_header sz) \<and> 64 dvd unat (objsz_total sz))
    \<and> (flags AND MEMPOOL_F_NO_SPREAD = 0 \<longrightarrow> coprime (unat (objsz_total sz) div 64) (unat k))"
proof -
  define al where "al = (flags AND MEMPOOL_F_NO_CACHE_ALIGN = 0)"
  define header where "header = (if al then align32 (of_nat SIZEOF_OBJHDR) 6 else of_nat SIZEOF_OBJHDR)"
  define elt where "elt = align32 elt_size 3"
  define trailer where "trailer = (if al then (64 - ((header + elt) AND 63)) AND 63 else 0)"
  have h: "unat header = (if al then 64 else 24)"
    by (simp add: header_def SIZEOF_OBJHDR_def unat_align32)
  have el: "unat elt = (unat elt_size + 7) div 8 * 8" unfolding elt_def using e by (simp add: unat_align32)
  then have elb: "unat elt_size \<le> unat elt" "unat elt < 2 ^ 24 + 8" "8 dvd unat elt" using e by auto
  have he: "unat (header + elt) = unat header + unat elt" using h elb(2) by (simp add: unat_word_ariths)
  have heb: "unat header + unat elt < 2 ^ 24 + 72" using h elb(2) by (simp split: if_splits)
  have tr: "unat trailer < 64" "al \<longrightarrow> 64 dvd unat header + unat elt + unat trailer"
    using pad_to_64 [of "header + elt"] heb unfolding he trailer_def by auto
  have tot: "unat (header + elt + trailer) = unat header + unat elt + unat trailer"
    using heb tr(1) he by (simp add: unat_word_ariths)
  have calc: "rte_mempool_calc_obj_size env fuel elt_size flags =
     (if flags AND MEMPOOL_F_NO_SPREAD = 0
      then map_option (\<lambda>new_size. \<lparr>objsz_elt = elt, objsz_header = header, objsz_trailer = new_size - header - elt,
                     objsz_total = header + elt + (new_size - header - elt)\<rparr>)
                (optimize_object_size env fuel (header + elt + trailer))
      else Some \<lparr>objsz_elt = elt, objsz_header = header, objsz_trailer = trailer, objsz_total = header + elt + trailer\<rparr>)"
    unfolding rte_mempool_calc_obj_size_def al_def [symmetric] header_def [symmetric] elt_def [symmetric]
      Let_def trailer_def [symmetric] by (rule refl)
  have h24: "SIZEOF_OBJHDR \<le> unat header" "al \<longrightarrow> 64 dvd unat header" using h by (simp_all add: SIZEOF_OBJHDR_def)
  show ?thesis
  proof (cases "flags AND MEMPOOL_F_NO_SPREAD = 0")
    case False
    then show ?thesis
      unfolding calc using tot tr h24 elb heb al_def by auto
  next
    case True
    obtain t where t: "optimize_object_size env fuel (header + elt + trailer) = Some t"
      "unat header + unat elt + unat trailer \<le> unat t" "unat t \<le> 2 ^ 25 + 64 + 2 ^ 22" "64 dvd unat t"
      "coprime (unat t div 64) (unat k)"
      using optimize_object_size_spec [of env fuel "header + elt + trailer"] k fuel tot heb tr(1)
      unfolding k_def by auto
    have "unat (t - (header + elt)) = unat t - (unat header + unat elt)"
      using t(2) he by (simp add: unat_sub word_le_nat_alt)
    moreover have "t - header - elt = t - (header + elt)" by simp
    ultimately have "unat (t - header - elt) = unat t - (unat header + unat elt)" by (simp only:)
    then show ?thesis
      unfolding calc using True t h24 elb al_def by auto
  qed
qed


section \<open>Creating a pool\<close>

definition spread_factor :: "eal_env \<Rightarrow> uint32" where
  "spread_factor env = (if memory_nrank env = 0 then 1 else memory_nrank env)
     * (if memory_nchannel env = 0 then 4 else memory_nchannel env)"

lemma or_no_spread_created: "(flags OR MEMPOOL_F_NO_SPREAD) AND MEMPOOL_F_POOL_CREATED = flags AND MEMPOOL_F_POOL_CREATED"
  by (simp add: word_bw_lcs bit.conj_disj_distrib2 c_defs and.commute [of flags] bit_eq_iff bit_simps)

lemma create_empty_inv:
  assumes c: "rte_mempool_create_empty fuel env name n elt_size cache_size priv flags = Some (Inr mp)"
    and n: "unat n < 2 ^ 27" and f: "flags AND MEMPOOL_F_POOL_CREATED = 0"
    and sz: "unat elt_size < 2 ^ 24" "0 < unat (spread_factor env)" "unat (spread_factor env) < 2 ^ 16" "unat (spread_factor env) \<le> fuel"
  shows "fill_inv mp \<and> sizes_ok mp \<and> elt_list mp = [] \<and> nb_mem_chunks mp = 0 \<and> mp_size mp = n \<and> mp_cache_size mp = cache_size
    \<and> mp_flags mp AND MEMPOOL_F_POOL_CREATED = 0 \<and> ops_index mp = 0
    \<and> (cache_size \<noteq> 0 \<longrightarrow> length (local_cache mp) = RTE_MAX_LCORE \<and> list_all2 cache_rep (local_cache mp) (replicate RTE_MAX_LCORE []))"
proof -
  define fl where "fl = (if flags AND MEMPOOL_F_NO_CACHE_ALIGN \<noteq> 0 then flags OR MEMPOOL_F_NO_SPREAD else flags)"
  obtain objsz where o: "rte_mempool_calc_obj_size env fuel elt_size fl = Some objsz"
    "unat (objsz_header objsz) + unat (objsz_elt objsz) + unat (objsz_trailer objsz) = unat (objsz_total objsz)"
    "unat (objsz_total objsz) < 2 ^ 26"
    using calc_obj_size_spec [of env fuel elt_size fl] sz unfolding spread_factor_def by auto
  have fl: "fl AND MEMPOOL_F_POOL_CREATED = 0" using f by (simp add: fl_def or_no_spread_created)
  have cs: "unat cache_size \<le> 512"
    using c by (auto simp: rte_mempool_create_empty_def c_defs split: if_splits)
  have mp: "mp = \<lparr>mp_name = name, pool_data = None, mp_flags = fl, mp_size = n,
                               mp_cache_size = cache_size, mp_elt_size = objsz_elt objsz,
                               mp_header_size = objsz_header objsz, mp_trailer_size = objsz_trailer objsz,
                               private_data_size = align32 priv 6, ops_index = 0,
                               local_cache = (if cache_size = 0 then []
                                  else replicate RTE_MAX_LCORE (mempool_cache_init zeroed_cache cache_size)),
                               populated_size = 0, elt_list = [], nb_mem_chunks = 0, mem_list = []\<rparr>"
    using c unfolding rte_mempool_create_empty_def Let_def fl_def [symmetric] o(1) option.case
    by (auto split: if_splits sum.splits)
  have "cache_rep (mempool_cache_init zeroed_cache cache_size) []" if "cache_size \<noteq> 0"
    using that cs
    by (simp add: cache_rep_def cache_holds_def mempool_cache_init_def zeroed_cache_def CALC_CACHE_FLUSHTHRESH_def
        c_defs unat_of_nat_eq unat_gt_0)
  then show ?thesis
    using n fl o(2,3) by (auto simp: mp fill_inv_def sizes_ok_def list_all2_conv_all_nth)
qed

lemma set_ops_inv:
  assumes "rte_mempool_set_ops_byname mp nm = (0, mp')" and "mp_flags mp AND MEMPOOL_F_POOL_CREATED = 0"
  shows "\<exists>i<4. mp' = mp\<lparr>ops_index := i\<rparr>"
proof -
  let ?i = "length (takeWhile (\<lambda>ops. ops_name ops \<noteq> nm) rte_mempool_ops_table)"
  have "?i \<le> length rte_mempool_ops_table" by (rule length_takeWhile_le)
  moreover have "?i \<noteq> length rte_mempool_ops_table" "mp' = mp\<lparr>ops_index := ?i\<rparr>"
    using assms by (auto simp: rte_mempool_set_ops_byname_def Let_def EINVAL_def split: if_splits)
  ultimately have "?i < 4" by (simp add: ops_table)
  then show ?thesis using \<open>mp' = mp\<lparr>ops_index := ?i\<rparr>\<close> by blast
qed

lemma populated_holds:
  assumes e: "rte_mempool_create_empty fuel env name n elt_size cache_size priv flags = Some (Inr mp0)"
    and o: "rte_mempool_set_ops_byname mp0 nm = (0, mp1)"
    and p: "rte_mempool_populate_default fuel env mp1 = Inr (Some (ret, mp))" "0 \<le> ret"
    and env: "env_ok env" and n: "0 < unat n" "unat n < 2 ^ 27" and f: "flags AND MEMPOOL_F_POOL_CREATED = 0"
    and sz: "unat elt_size < 2 ^ 24" "0 < unat (spread_factor env)" "unat (spread_factor env) < 2 ^ 16" "unat (spread_factor env) \<le> fuel"
  shows "pool_holds mp (mset (pool_objs mp)) \<and> length (pool_objs mp) = unat n \<and> mp_size mp = n"
proof -
  note mp0 = create_empty_inv [OF e n(2) f sz]
  obtain i where i: "i < 4" "mp1 = mp0\<lparr>ops_index := i\<rparr>" using set_ops_inv [OF o] mp0 by blast
  have mp1: "fill_inv mp1" "sizes_ok mp1" "elt_list mp1 = []" "nb_mem_chunks mp1 = 0" "mp_size mp1 = n"
    "mp_cache_size mp1 = cache_size" "local_cache mp1 = local_cache mp0"
    using mp0 i by (auto simp: fill_inv_def sizes_ok_def)
  obtain a b d where "populate_default_loop fuel env a b d 0 n mp1 = Inr (Some (ret, mp))"
    using p(1) mp1(4,5) by (auto simp: rte_mempool_populate_default_def Let_def split: prod.splits)
  then have fl: "filled mp1 mp"
    using populate_default_loop_fills [OF env mp1(1,2), of n fuel a b d 0] mp1(3,5) p(2) by auto
  then have F: "fill_inv mp" "same_config mp1 mp" "length (elt_list mp) = unat n" "mp_flags mp AND MEMPOOL_F_POOL_CREATED \<noteq> 0"
    using mp1(5) n(1) by (auto simp: filled_def)
  have same: "mp_cache_size mp = cache_size" "local_cache mp = local_cache mp0" "mp_size mp = n"
    using F(2) mp1 by (simp_all add: same_config_def)
  have ring: "ops_index mp < 4" "ring_holds mp (pool_objs mp)" using F(1,4) by (auto simp: fill_inv_def)
  have "pool_holds mp (mset (pool_objs mp))"
  proof (cases "cache_size = 0")
    case True
    then show ?thesis using ring same unfolding pool_holds_def by auto
  next
    case False
    have "mset (concat (replicate RTE_MAX_LCORE ([] :: addr list))) = {#}" by (induction RTE_MAX_LCORE) auto
    then show ?thesis using ring same mp0 False unfolding pool_holds_def by fastforce
  qed
  then show ?thesis using F(3) same(3) by simp
qed

text \<open>A machine with four memory channels that grants every reservation.\<close>

definition demo_env :: eal_env where
  "demo_env = \<lparr>zmalloc_ok = (\<lambda>_. True), memzone_reserve = (\<lambda>nm sz al. Inr \<lparr>mz_addr = 4096, mz_phys_addr = 0, mz_len = sz\<rparr>),
     virt2phy = Some, page_size = 4096, has_hugepages = True, xen_dom0_supported = False,
     memory_nchannel = 4, memory_nrank = 1\<rparr>"

lemma demo_env_ok: "env_ok demo_env" "spread_factor demo_env = 4"
  by (simp_all add: env_ok_def spread_factor_def demo_env_def)

end
