(* ===== verification/Mbuf_Correct.thy ===== *)
theory Mbuf_Correct
  imports Mbuf Mempool_Correct
begin

text \<open>
  Ownership of packet buffers. A store is in order for a multiset of references that its clients
  hold (\<open>minv\<close>) when every reference count is the number of references held plus the number of
  indirect buffers attached, and the pools hold exactly the buffers without references. All
  operations keep this: none loses a buffer and none returns a buffer to its pool twice.
\<close>

section \<open>Pools\<close>

lemma dequeue_frame:
  assumes "rte_mempool_ops_dequeue_bulk mp n = Inr (ret, objs, mp')"
  shows "\<exists>r. mp' = mp\<lparr>pool_data := Some r\<rparr>"
proof (cases "ops_index mp < 4")
  case True
  then obtain ops where "rte_mempool_get_ops (ops_index mp) = Inr ops"
    "dequeue_fn ops = common_ring_mc_dequeue \<or> dequeue_fn ops = common_ring_sc_dequeue"
    by (rule get_ops_cases)
  then show ?thesis using assms
    by (auto simp: rte_mempool_ops_dequeue_bulk_def common_ring_mc_dequeue_def common_ring_sc_dequeue_def
        ring_get_ret_def cbind_eq_Inr_iff)
next
  case False
  then show ?thesis using assms get_ops_fails [of "ops_index mp"]
    by (auto simp: rte_mempool_ops_dequeue_bulk_def)
qed

lemma cache_store_elts [simp]: "elt_list (cache_store mp i c) = elt_list mp"
  by (simp add: cache_store_def split: option.splits)

lemma put_bulk_elts:
  "rte_mempool_put_bulk lcore mp objs n = Inr mp' \<Longrightarrow> elt_list mp' = elt_list mp"
  by (auto simp: rte_mempool_put_bulk_def Let_def cbind_eq_Inr_iff mempool_generic_put_def
      split: option.splits if_splits dest!: enqueue_frame)

lemma get_bulk_elts:
  "rte_mempool_get_bulk lcore mp n = Inr (ret, objs, mp') \<Longrightarrow> elt_list mp' = elt_list mp"
  by (auto simp: rte_mempool_get_bulk_def Let_def cbind_eq_Inr_iff mempool_generic_get_def
      split: option.splits if_splits dest!: dequeue_frame)

lemma put_one:
  assumes "pool_holds mp F" and "size F < unat (mp_size mp)"
  shows "\<exists>mp'. rte_mempool_put lcore mp obj = Inr mp' \<and> pool_holds mp' (F + {#obj#})
    \<and> mp_size mp' = mp_size mp \<and> elt_list mp' = elt_list mp"
  using put_bulk_holds [OF assms(1), of 1 "[obj]" lcore] assms(2) put_bulk_elts
  by (fastforce simp: rte_mempool_put_def)

lemma get_one:
  assumes "pool_holds mp F"
  shows "\<exists>ret objs mp' F'. rte_mempool_get lcore mp = Inr (ret, objs, mp') \<and> pool_holds mp' F'
    \<and> mp_size mp' = mp_size mp \<and> elt_list mp' = elt_list mp
    \<and> (ret < 0 \<and> F' = F \<or> ret = 0 \<and> (\<exists>m. objs = [m] \<and> F = F' + {#m#}))"
proof -
  obtain ret objs mp' F' where g: "rte_mempool_get_bulk lcore mp 1 = Inr (ret, objs, mp')" "pool_holds mp' F'"
    "mset objs + F' = F" "get_outcome 1 ret objs" "mp_size mp' = mp_size mp"
    using get_bulk_holds [OF assms, of lcore 1] by blast
  have "ret < 0 \<and> F' = F \<or> ret = 0 \<and> (\<exists>m. objs = [m] \<and> F = F' + {#m#})"
    using g(3,4) by (auto simp: get_outcome_def ENOBUFS_def length_Suc_conv)
  then show ?thesis using g get_bulk_elts [OF g(1)] by (fastforce simp: rte_mempool_get_def)
qed

section \<open>References\<close>

definition attached :: "mbuf_mem \<Rightarrow> addr \<Rightarrow> addr set" where
  "attached h m = {i. \<exists>b. mbufs h i = Some b \<and> RTE_MBUF_INDIRECT b \<and> rte_mbuf_from_indirect b = m}"

definition refs :: "mbuf_mem \<Rightarrow> addr multiset \<Rightarrow> addr \<Rightarrow> nat" where
  "refs h H m = count H m + card (attached h m)"

definition objs_of :: "mbuf_mem \<Rightarrow> addr \<Rightarrow> addr set" where
  "objs_of h p = {m. \<exists>b. mbufs h m = Some b \<and> mb_pool b = p}"

definition used :: "mbuf_mem \<Rightarrow> addr multiset \<Rightarrow> addr \<Rightarrow> addr set" where
  "used h H p = {m \<in> objs_of h p. 0 < refs h H m}"

definition mbuf_ok :: "mbuf_mem \<Rightarrow> addr multiset \<Rightarrow> addr \<Rightarrow> rte_mbuf \<Rightarrow> bool" where
  "mbuf_ok h H m b \<longleftrightarrow>
     unat (refcnt b) = max 1 (refs h H m)
     \<and> (if RTE_MBUF_INDIRECT b
        then 0 < count H m \<and> (\<exists>d. mbufs h (rte_mbuf_from_indirect b) = Some d \<and> RTE_MBUF_DIRECT d)
        else buf_addr b = m + SIZEOF_RTE_MBUF + unat (priv_size b))
     \<and> (\<exists>pp. pools h (mb_pool b) = Some pp \<and> m \<in> hdr_obj ` set (elt_list (pool_mp pp)))"

definition pool_ok :: "mbuf_mem \<Rightarrow> addr multiset \<Rightarrow> addr \<Rightarrow> pktmbuf_pool \<Rightarrow> bool" where
  "pool_ok h H p pp \<longleftrightarrow> card (objs_of h p) \<le> unat (mp_size (pool_mp pp))
     \<and> (\<exists>F. pool_holds (pool_mp pp) F \<and> F + mset_set (used h H p) = mset_set (objs_of h p))"

definition minv :: "mbuf_mem \<Rightarrow> addr multiset \<Rightarrow> bool" where
  "minv h H \<longleftrightarrow> finite (dom (mbufs h)) \<and> set_mset H \<subseteq> dom (mbufs h)
     \<and> (\<forall>m b. mbufs h m = Some b \<longrightarrow> mbuf_ok h H m b)
     \<and> (\<forall>p pp. pools h p = Some pp \<longrightarrow> pool_ok h H p pp)"

lemma minvD:
  assumes "minv h H"
  shows "finite (dom (mbufs h))" "m \<in># H \<Longrightarrow> \<exists>b. mbufs h m = Some b" "mbufs h m = Some b \<Longrightarrow> mbuf_ok h H m b"
    "pools h p = Some pp \<Longrightarrow> pool_ok h H p pp"
  using assms by (auto simp: minv_def)

lemma finite_objs_of: "minv h H \<Longrightarrow> finite (objs_of h p)"
  by (rule finite_subset [of _ "dom (mbufs h)"]) (auto simp: objs_of_def minv_def)

lemma finite_attached: "minv h H \<Longrightarrow> finite (attached h m)"
  by (rule finite_subset [of _ "dom (mbufs h)"]) (auto simp: attached_def minv_def)

text \<open>Nothing is attached to an indirect buffer.\<close>

lemma attached_indirect:
  assumes "minv h H" and "mbufs h m = Some b" and "RTE_MBUF_INDIRECT b"
  shows "attached h m = {}"
  using assms minvD(3) [OF assms(1)] by (fastforce simp: attached_def mbuf_ok_def RTE_MBUF_DIRECT_def)

lemma store_simps [simp]:
  "mbufs (mbuf_set m b h) = (mbufs h)(m := Some b)" "mem_bytes (mbuf_set m b h) = mem_bytes h" "pools (mbuf_set m b h) = pools h"
  "mbufs (pool_set p pp h) = mbufs h" "mem_bytes (pool_set p pp h) = mem_bytes h" "pools (pool_set p pp h) = (pools h)(p := Some pp)"
  by (simp_all add: mbuf_set_def pool_set_def)

lemma mbuf_at_eq [simp]: "mbufs h m = Some b \<Longrightarrow> mbuf_at h m = Inr b"
  by (simp add: mbuf_at_def)

lemma pool_at_eq [simp]: "pools h p = Some pp \<Longrightarrow> pool_at h p = Inr pp"
  by (simp add: pool_at_def)

lemma attached_pool_set [simp]: "attached (pool_set p pp h) = attached h"
  by (simp add: attached_def fun_eq_iff)

lemma refs_pool_set [simp]: "refs (pool_set p pp h) = refs h"
  by (simp add: refs_def fun_eq_iff)

lemma objs_of_pool_set [simp]: "objs_of (pool_set p pp h) = objs_of h"
  by (simp add: objs_of_def fun_eq_iff)

lemma used_pool_set [simp]: "used (pool_set p pp h) = used h"
  by (simp add: used_def fun_eq_iff)

section \<open>Taking and returning buffers\<close>

text \<open>A buffer with a single reference that is direct goes back to its pool.\<close>

lemma raw_free_inv:
  assumes inv: "minv h H" and m: "mbufs h m = Some b" and d: "RTE_MBUF_DIRECT b" and r: "refs h H m = 1" "m \<in># H"
  shows "\<exists>h'. rte_mbuf_raw_free lcore m h = Inr h' \<and> minv h' (H - {#m#}) \<and> mbufs h' = mbufs h \<and> mem_bytes h' = mem_bytes h
    \<and> (\<forall>p. map_option pool_priv (pools h' p) = map_option pool_priv (pools h p))"
proof -
  let ?p = "mb_pool b" and ?H = "H - {#m#}"
  obtain pp where pp: "pools h ?p = Some pp" "m \<in> hdr_obj ` set (elt_list (pool_mp pp))"
    using minvD(3) [OF inv m] by (auto simp: mbuf_ok_def)
  have ok: "pool_ok h H ?p pp" by (rule minvD(4) [OF inv pp(1)])
  then obtain F where F: "pool_holds (pool_mp pp) F" "F + mset_set (used h H ?p) = mset_set (objs_of h ?p)"
    "card (objs_of h ?p) \<le> unat (mp_size (pool_mp pp))" by (auto simp: pool_ok_def)
  have fin: "finite (objs_of h p)" for p by (rule finite_objs_of [OF inv])
  have fu: "finite (used h H p)" for p using fin [of p] by (simp add: used_def)
  have mu: "m \<in> used h H ?p" using m r by (auto simp: used_def objs_of_def)
  have c1: "count H m = 1" "card (attached h m) = 0"
    using r(1) count_greater_zero_iff [of H m, THEN iffD2, OF r(2)] unfolding refs_def by linarith+
  have refs': "refs h ?H x = (if x = m then 0 else refs h H x)" for x using c1 by (auto simp: refs_def)
  have used': "used h ?H p = used h H p - {m}" for p by (auto simp: used_def refs')
  have "size F + card (used h H ?p) = card (objs_of h ?p)"
    using arg_cong [OF F(2), of size] by simp
  moreover have "0 < card (used h H ?p)" using mu fu by (simp add: card_gt_0_iff) blast
  ultimately have "size F < unat (mp_size (pool_mp pp))" using F(3) by simp
  from put_one [OF F(1) this, of lcore m]
  obtain mp' where mp': "rte_mempool_put lcore (pool_mp pp) m = Inr mp'" "pool_holds mp' (F + {#m#})"
    "mp_size mp' = mp_size (pool_mp pp)" "elt_list mp' = elt_list (pool_mp pp)" by blast
  let ?h = "pool_set ?p (pp\<lparr>pool_mp := mp'\<rparr>) h"
  have run: "rte_mbuf_raw_free lcore m h = Inr ?h" using m pp mp'(1) by (simp add: rte_mbuf_raw_free_def)
  have "mset_set (used h H ?p) = mset_set (used h ?H ?p) + {#m#}"
    unfolding used' using mu fu by (simp add: mset_set.remove)
  then have F': "(F + {#m#}) + mset_set (used h ?H ?p) = mset_set (objs_of h ?p)" using F(2) by simp
  have pool: "pool_ok ?h ?H q qq" if q: "pools ?h q = Some qq" for q qq
  proof (cases "q = ?p")
    case True
    then show ?thesis using q F(3) F' mp' by (auto simp: pool_ok_def)
  next
    case False
    have "m \<notin> used h H q" using False m by (auto simp: used_def objs_of_def)
    then show ?thesis using False q minvD(4) [OF inv, of q qq] by (simp add: pool_ok_def used')
  qed
  have mb: "mbuf_ok ?h ?H x y" if "mbufs ?h x = Some y" for x y
  proof -
    have xy: "mbuf_ok h H x y" "mbufs h x = Some y" using that minvD(3) [OF inv] by auto
    have "x \<noteq> m" if "RTE_MBUF_INDIRECT y" using that xy(2) m d by (auto simp: RTE_MBUF_DIRECT_def)
    then show ?thesis using xy(1) mp'(4) pp(1) r(1) by (auto simp: mbuf_ok_def refs')
  qed
  have "minv ?h ?H"
    using inv pool mb by (auto simp: minv_def dest: in_diffD)
  moreover have "map_option pool_priv (pools ?h q) = map_option pool_priv (pools h q)" for q using pp by auto
  ultimately show ?thesis using run by auto
qed


lemma raw_alloc_inv:
  assumes inv: "minv h H" and p: "pools h p = Some pp"
  shows "\<exists>r h'. rte_mbuf_raw_alloc lcore p h = Inr (r, h') \<and> mbufs h' = mbufs h \<and> mem_bytes h' = mem_bytes h
    \<and> (\<forall>q. map_option pool_priv (pools h' q) = map_option pool_priv (pools h q))
    \<and> (case r of None \<Rightarrow> minv h' H
       | Some m \<Rightarrow> minv h' (add_mset m H) \<and> refs h H m = 0 \<and> m \<in> objs_of h p)"
proof -
  obtain F where F: "pool_holds (pool_mp pp) F" "F + mset_set (used h H p) = mset_set (objs_of h p)"
    "card (objs_of h p) \<le> unat (mp_size (pool_mp pp))" using minvD(4) [OF inv p] by (auto simp: pool_ok_def)
  obtain ret objs mp' F' where g: "rte_mempool_get lcore (pool_mp pp) = Inr (ret, objs, mp')" "pool_holds mp' F'"
    "mp_size mp' = mp_size (pool_mp pp)" "elt_list mp' = elt_list (pool_mp pp)"
    "ret < 0 \<and> F' = F \<or> ret = 0 \<and> (\<exists>m. objs = [m] \<and> F = F' + {#m#})"
    using get_one [OF F(1), of lcore] by blast
  let ?h = "pool_set p (pp\<lparr>pool_mp := mp'\<rparr>) h"
  have run: "rte_mbuf_raw_alloc lcore p h = Inr (if ret < 0 then None else Some (hd objs), ?h)"
    using p g(1) by (simp add: rte_mbuf_raw_alloc_def)
  have priv: "map_option pool_priv (pools ?h q) = map_option pool_priv (pools h q)" for q using p by auto
  have fin: "finite (objs_of h q)" for q by (rule finite_objs_of [OF inv])
  have fu: "finite (used h H q)" for q using fin [of q] by (simp add: used_def)
  have elts: "mbuf_ok ?h H x y" if "mbufs h x = Some y" for x y
    using minvD(3) [OF inv that] g(4) p by (auto simp: mbuf_ok_def)
  show ?thesis
  proof (cases "ret < 0")
    case True
    then have "F' = F" using g(5) by auto
    then have "minv ?h H"
      using inv F g elts by (auto simp: minv_def pool_ok_def)
    then show ?thesis using run True priv by auto
  next
    case False
    then obtain m where m: "objs = [m]" "F = F' + {#m#}" using g(5) by auto
    have e: "F' + (mset_set (used h H p) + {#m#}) = mset_set (objs_of h p)" using F(2) m(2) by simp
    have c: "count (mset_set (objs_of h p)) m = count F' m + count (mset_set (used h H p)) m + 1"
      unfolding e [symmetric] by simp
    have mo: "m \<in> objs_of h p" "m \<notin> used h H p"
      using c fin [of p] fu [of p] by (auto simp: count_mset_set' split: if_splits)
    then have r0: "refs h H m = 0" by (auto simp: used_def)
    obtain b where b: "mbufs h m = Some b" "mb_pool b = p" using mo(1) by (auto simp: objs_of_def)
    have refs': "refs h (add_mset m H) x = (if x = m then 1 else refs h H x)" for x using r0 by (auto simp: refs_def)
    have used': "used h (add_mset m H) q = (if q = p then insert m (used h H q) else used h H q)" for q
      using mo(1) b by (auto simp: used_def refs' objs_of_def)
    have "mset_set (used h H p) + {#m#} = mset_set (used h (add_mset m H) p)"
      unfolding used' using mo(2) fu by simp
    then have e': "F' + mset_set (used h (add_mset m H) p) = mset_set (objs_of h p)" using e by simp
    have pool: "pool_ok ?h (add_mset m H) q qq" if q: "pools ?h q = Some qq" for q qq
      using q F(3) e' g minvD(4) [OF inv, of q qq] by (cases "q = p") (auto simp: pool_ok_def used')
    have mb: "mbuf_ok ?h (add_mset m H) x y" if "mbufs ?h x = Some y" for x y
      using elts [of x y] that r0 by (auto simp: mbuf_ok_def refs' refs_def)
    have "minv ?h (add_mset m H)" using inv pool mb b(1) by (auto simp: minv_def)
    then show ?thesis using run False priv m(1) r0 mo(1) by auto
  qed
qed

text \<open>Changes of a structure that leave its references alone.\<close>

definition same_refs :: "rte_mbuf \<Rightarrow> rte_mbuf \<Rightarrow> bool" where
  "same_refs b b' \<longleftrightarrow> refcnt b' = refcnt b \<and> buf_addr b' = buf_addr b \<and> priv_size b' = priv_size b
     \<and> mb_pool b' = mb_pool b \<and> ol_flags b' AND IND_ATTACHED_MBUF = ol_flags b AND IND_ATTACHED_MBUF"

lemma same_refs_dest:
  assumes "same_refs b b'"
  shows "RTE_MBUF_INDIRECT b' = RTE_MBUF_INDIRECT b" "rte_mbuf_from_indirect b' = rte_mbuf_from_indirect b"
    "RTE_MBUF_DIRECT b' = RTE_MBUF_DIRECT b" "refcnt b' = refcnt b" "mb_pool b' = mb_pool b" "buf_addr b' = buf_addr b"
    "priv_size b' = priv_size b"
  using assms by (simp_all add: same_refs_def RTE_MBUF_INDIRECT_def RTE_MBUF_DIRECT_def rte_mbuf_from_indirect_def)

lemma refs_upd:
  assumes "mbufs h m = Some b" and "same_refs b b'"
  shows "attached (mbuf_set m b' h) = attached h" "objs_of (mbuf_set m b' h) = objs_of h" "refs (mbuf_set m b' h) = refs h"
proof -
  show a: "attached (mbuf_set m b' h) = attached h"
    using assms(1) same_refs_dest [OF assms(2)] by (auto simp: attached_def fun_eq_iff)
  show "objs_of (mbuf_set m b' h) = objs_of h"
    using assms(1) same_refs_dest [OF assms(2)] by (auto simp: objs_of_def fun_eq_iff)
  show "refs (mbuf_set m b' h) = refs h" by (simp add: refs_def a fun_eq_iff)
qed

lemma minv_upd:
  assumes inv: "minv h H" and m: "mbufs h m = Some b" and s: "same_refs b b'"
  shows "minv (mbuf_set m b' h) H"
proof -
  let ?h = "mbuf_set m b' h"
  note d = same_refs_dest [OF s]
  note o = refs_upd(2) [OF m s] and r = refs_upd(3) [OF m s]
  have u: "used ?h = used h" by (simp add: used_def o r fun_eq_iff)
  have ok: "mbuf_ok ?h H x y" if "mbuf_ok h H x y" for x y
    using that m d by (auto simp: mbuf_ok_def r split: if_splits)
  have "mbuf_ok ?h H x y" if "mbufs ?h x = Some y" for x y
  proof (cases "x = m")
    case True
    then have "mbuf_ok h H m b" "y = b'" using minvD(3) [OF inv m] that by auto
    moreover have "mbuf_ok ?h H m b' = mbuf_ok ?h H m b" unfolding mbuf_ok_def d ..
    ultimately show ?thesis using ok [of m b] True by simp
  next
    case False
    then show ?thesis using ok minvD(3) [OF inv] that by auto
  qed
  moreover have "pool_ok ?h H p pp" if "pools ?h p = Some pp" for p pp
    using that minvD(4) [OF inv, of p pp] by (simp add: pool_ok_def o u)
  moreover have "finite (dom (mbufs ?h))" "set_mset H \<subseteq> dom (mbufs ?h)" using inv by (auto simp: minv_def)
  ultimately show ?thesis by (simp add: minv_def)
qed


section \<open>Detaching\<close>

lemma detach_state:
  assumes inv: "minv h H" and m: "mbufs h m = Some b" "RTE_MBUF_INDIRECT b"
    and md: "md = rte_mbuf_from_indirect b" "mbufs h md = Some d"
    and b': "RTE_MBUF_DIRECT b'" "buf_addr b' = m + SIZEOF_RTE_MBUF + unat (priv_size b')" "mb_pool b' = mb_pool b" "refcnt b' = refcnt b"
    and d': "RTE_MBUF_DIRECT d'" "buf_addr d' = buf_addr d" "priv_size d' = priv_size d" "mb_pool d' = mb_pool d"
    and H': "\<And>x. x \<noteq> md \<Longrightarrow> count H' x = count H x"
      "unat (refcnt d') = count H' md + card (attached h md - {m})" "0 < count H' md + card (attached h md - {m})"
  shows "minv (mbuf_set md d' (mbuf_set m b' h)) H'"
proof -
  let ?h = "mbuf_set md d' (mbuf_set m b' h)"
  have dd: "RTE_MBUF_DIRECT d" using minvD(3) [OF inv m(1)] m(2) md by (simp add: mbuf_ok_def)
  have ne: "md \<noteq> m" using dd m md(2) by (auto simp: RTE_MBUF_DIRECT_def)
  have dok: "mbuf_ok h H md d" by (rule minvD(3) [OF inv md(2)])
  have a: "attached ?h x = (if x = md then attached h md - {m} else attached h x)" for x
    using m md b'(1) d'(1) dd by (auto simp: attached_def RTE_MBUF_DIRECT_def)
  have am: "attached h m = {}" by (rule attached_indirect [OF inv m])
  have refs': "refs ?h H' x = (if x = md then count H' md + card (attached h md - {m}) else refs h H x)" for x
    using H'(1) by (auto simp: refs_def a)
  have o: "objs_of ?h p = objs_of h p" for p using m md b'(3) d'(4) by (auto simp: objs_of_def)
  have "m \<in> attached h md" using m md by (auto simp: attached_def)
  then have pos: "0 < refs h H md" using finite_attached [OF inv, of md] by (auto simp: refs_def card_gt_0_iff)
  have u: "used ?h H' p = used h H p" for p
    using pos H'(3) by (auto simp: used_def o refs')
  have H'm: "count H' x = count H x" if "mbufs h x = Some y" "RTE_MBUF_INDIRECT y" for x y
    using that dd md(2) H'(1) [of x] by (cases "x = md") (auto simp: RTE_MBUF_DIRECT_def)
  have "1 \<le> refs ?h H' md" using H'(3) unfolding refs' if_P [OF refl] by linarith
  then have "max 1 (refs ?h H' md) = refs ?h H' md" by (rule max_absorb2)
  then have mx: "unat (refcnt d') = max 1 (refs ?h H' md)" using H'(2) by (simp add: refs')
  have mb: "mbuf_ok ?h H' x y" if xy: "mbufs ?h x = Some y" for x y
  proof -
    consider "x = md" "y = d'" | "x = m" "x \<noteq> md" "y = b'" | "x \<noteq> md" "x \<noteq> m" "mbufs h x = Some y"
      using xy by (auto split: if_splits)
    then show ?thesis
    proof cases
      case 1
      then show ?thesis
        using dok d' dd mx by (auto simp: mbuf_ok_def RTE_MBUF_DIRECT_def)
    next
      case 2
      then show ?thesis
        using minvD(3) [OF inv m(1)] b' by (auto simp: mbuf_ok_def refs' RTE_MBUF_DIRECT_def)
    next
      case 3
      have ok: "mbuf_ok h H x y" by (rule minvD(3) [OF inv 3(3)])
      show ?thesis
      proof (cases "RTE_MBUF_INDIRECT y")
        case True
        then obtain z where z: "mbufs h (rte_mbuf_from_indirect y) = Some z" "RTE_MBUF_DIRECT z"
          using ok by (auto simp: mbuf_ok_def)
        then have "rte_mbuf_from_indirect y \<noteq> m" using m by (auto simp: RTE_MBUF_DIRECT_def)
        then show ?thesis using ok True z 3 d'(1) H'm [OF 3(3) True] by (auto simp: mbuf_ok_def refs')
      next
        case False
        then show ?thesis using ok 3 by (auto simp: mbuf_ok_def refs')
      qed
    qed
  qed
  have "set_mset H' \<subseteq> dom (mbufs ?h)"
  proof
    fix x assume "x \<in># H'"
    then have "x = md \<or> x \<in># H" using H'(1) [of x] by (metis count_greater_zero_iff)
    then show "x \<in> dom (mbufs ?h)" using inv by (auto simp: minv_def)
  qed
  moreover have "finite (dom (mbufs ?h))" using inv by (auto simp: minv_def)
  moreover have "pool_ok ?h H' p pp" if "pools ?h p = Some pp" for p pp
    using that minvD(4) [OF inv, of p pp] by (simp add: pool_ok_def o u)
  ultimately show ?thesis using mb by (simp add: minv_def)
qed

text \<open>Buffers that others hold keep everything but their reference count.\<close>

definition kept :: "addr set \<Rightarrow> mbuf_mem \<Rightarrow> mbuf_mem \<Rightarrow> bool" where
  "kept X h h' \<longleftrightarrow> (\<forall>x\<in>X. \<forall>y. mbufs h x = Some y \<longrightarrow> (\<exists>c. mbufs h' x = Some (y\<lparr>refcnt := c\<rparr>)))
     \<and> mem_bytes h' = mem_bytes h \<and> (\<forall>p. map_option pool_priv (pools h' p) = map_option pool_priv (pools h p))
     \<and> dom (mbufs h') = dom (mbufs h)"

lemma refcnt_same: "\<exists>c. (y :: rte_mbuf) = y\<lparr>refcnt := c\<rparr>"
  by (rule exI [of _ "refcnt y"]) simp

lemma kept_refl [simp]: "kept X h h"
  by (simp add: kept_def refcnt_same)

lemma keptD: "kept X h h' \<Longrightarrow> x \<in> X \<Longrightarrow> mbufs h x = Some y \<Longrightarrow> \<exists>c. mbufs h' x = Some (y\<lparr>refcnt := c\<rparr>)"
  unfolding kept_def by blast

lemma kept_trans: "kept X h h1 \<Longrightarrow> kept Y h1 h2 \<Longrightarrow> kept (X \<inter> Y) h h2"
  unfolding kept_def by (auto; force)

lemma kept_mono: "kept X h h' \<Longrightarrow> Y \<subseteq> X \<Longrightarrow> kept Y h h'"
  unfolding kept_def by blast

lemma virt2phy_ok: "m \<in> hdr_obj ` set (elt_list mp) \<Longrightarrow> \<exists>a. rte_mempool_virt2phy mp m = Inr a"
  by (auto simp: rte_mempool_virt2phy_def find_None_iff split: option.splits)

lemma detach_inv:
  assumes inv: "minv h H" and m: "mbufs h m = Some b" "RTE_MBUF_INDIRECT b" and r: "refs h H m = 1"
  shows "\<exists>h' b'. rte_pktmbuf_detach lcore m h = Inr h' \<and> minv h' H \<and> mbufs h' m = Some b' \<and> RTE_MBUF_DIRECT b'
    \<and> next_seg b' = next_seg b \<and> refcnt b' = refcnt b \<and> kept (set_mset H - {m}) h h'"
proof -
  obtain md d where md: "md = rte_mbuf_from_indirect b" "mbufs h md = Some d" "RTE_MBUF_DIRECT d"
    using minvD(3) [OF inv m(1)] m(2) by (auto simp: mbuf_ok_def)
  have ne: "md \<noteq> m" using md m by (auto simp: RTE_MBUF_DIRECT_def)
  obtain pp where pp: "pools h (mb_pool b) = Some pp" "m \<in> hdr_obj ` set (elt_list (pool_mp pp))"
    using minvD(3) [OF inv m(1)] by (auto simp: mbuf_ok_def)
  obtain phys where phys: "rte_mempool_virt2phy (pool_mp pp) m = Inr phys" using virt2phy_ok [OF pp(2)] by blast
  define mbuf_size where "mbuf_size = SIZEOF_RTE_MBUF + unat (rte_pktmbuf_priv_size pp)"
  define b' where "b' = (rte_pktmbuf_reset_headroom (b\<lparr>priv_size := rte_pktmbuf_priv_size pp, buf_addr := m + mbuf_size,
                 buf_physaddr := phys + of_nat mbuf_size, buf_len := rte_pktmbuf_data_room_size pp\<rparr>))
                 \<lparr>data_len := 0, ol_flags := 0\<rparr>"
  have b': "RTE_MBUF_DIRECT b'" "buf_addr b' = m + SIZEOF_RTE_MBUF + unat (priv_size b')" "mb_pool b' = mb_pool b"
    "refcnt b' = refcnt b" "next_seg b' = next_seg b"
    by (simp_all add: b'_def rte_pktmbuf_reset_headroom_def mbuf_size_def RTE_MBUF_DIRECT_def RTE_MBUF_INDIRECT_def)
  have inm: "m \<in> attached h md" using m md by (auto simp: attached_def)
  have fa: "finite (attached h md)" by (rule finite_attached [OF inv])
  have cm: "card (attached h md) = Suc (card (attached h md - {m}))" by (rule card.remove [OF fa inm])
  then have rd: "unat (refcnt d) = count H md + Suc (card (attached h md - {m}))"
    using minvD(3) [OF inv md(2)] by (simp add: mbuf_ok_def refs_def)
  then have u1: "unat (refcnt d - 1) = count H md + card (attached h md - {m})"
    by (subst unat_sub) (simp_all add: word_le_nat_alt)
  define c where "c = refcnt d - 1"
  have upd: "rte_mbuf_refcnt_update md (- 1) (mbuf_set m b' h) = Inr (c, mbuf_set md (d\<lparr>refcnt := c\<rparr>) (mbuf_set m b' h))"
    using md ne by (simp add: rte_mbuf_refcnt_update_def c_def)
  have run: "rte_pktmbuf_detach lcore m h =
     (if c = 0 then cbind (mbuf_upd md (\<lambda>d. d\<lparr>next_seg := None, nb_segs := 1, refcnt := 1\<rparr>) (mbuf_set md (d\<lparr>refcnt := c\<rparr>) (mbuf_set m b' h)))
                     (rte_mbuf_raw_free lcore md)
      else Inr (mbuf_set md (d\<lparr>refcnt := c\<rparr>) (mbuf_set m b' h)))"
    unfolding rte_pktmbuf_detach_def mbuf_at_eq [OF m(1)] pool_at_eq [OF pp(1)] cbind_Inr phys Let_def
      mbuf_size_def [symmetric] b'_def [symmetric] md(1) [symmetric] upd prod.case by (rule refl)
  show ?thesis
  proof (cases "c = 0")
    case False
    then have "unat c \<noteq> 0" by (simp add: unat_eq_0)
    then have "0 < count H md + card (attached h md - {m})" using u1 by (simp add: c_def)
    then have "minv (mbuf_set md (d\<lparr>refcnt := c\<rparr>) (mbuf_set m b' h)) H"
      using detach_state [OF inv m md(1,2) b'(1-4), of "d\<lparr>refcnt := c\<rparr>" H] md(3) u1
      by (simp add: c_def RTE_MBUF_DIRECT_def RTE_MBUF_INDIRECT_def)
    moreover have "kept (set_mset H - {m}) h (mbuf_set md (d\<lparr>refcnt := c\<rparr>) (mbuf_set m b' h))"
      using md(2) m(1) by (auto simp: kept_def refcnt_same)
    ultimately show ?thesis using run False b' ne by auto
  next
    case True
    then have z: "count H md = 0" "card (attached h md - {m}) = 0" using u1 by (simp_all add: c_def)
    let ?d = "d\<lparr>next_seg := None, nb_segs := 1, refcnt := 1\<rparr>" and ?h = "mbuf_set md (d\<lparr>next_seg := None, nb_segs := 1, refcnt := 1\<rparr>) (mbuf_set m b' h)"
    have dd: "RTE_MBUF_DIRECT ?d" using md(3) by (simp add: RTE_MBUF_DIRECT_def RTE_MBUF_INDIRECT_def)
    have inv1: "minv ?h (add_mset md H)"
      using detach_state [OF inv m md(1,2) b'(1-4) dd, of "add_mset md H"] z by simp
    have "mbuf_ok ?h (add_mset md H) md ?d" using minvD(3) [OF inv1, of md] by simp
    then have "refs ?h (add_mset md H) md \<le> 1" by (simp add: mbuf_ok_def max_def split: if_splits)
    then have r1: "refs ?h (add_mset md H) md = 1" by (simp add: refs_def)
    obtain h' where h': "rte_mbuf_raw_free lcore md ?h = Inr h'" "minv h' H" "mbufs h' = mbufs ?h" "mem_bytes h' = mem_bytes ?h"
      "\<forall>p. map_option pool_priv (pools h' p) = map_option pool_priv (pools ?h p)"
      using raw_free_inv [OF inv1 _ dd r1, of lcore] by auto
    have set2: "mbuf_set md x (mbuf_set md y k) = mbuf_set md x k" for x y k by (simp add: mbuf_set_def)
    have "rte_pktmbuf_detach lcore m h = Inr h'"
      using run True h'(1) by (simp add: mbuf_upd_def set2)
    moreover have "kept (set_mset H - {m}) h h'"
      using h' z(1) [folded not_in_iff] md(2) m(1) by (auto simp: kept_def refcnt_same)
    ultimately show ?thesis using h' b' ne by auto
  qed
qed


section \<open>Freeing\<close>

lemma refs_1:
  assumes "minv h H" and "mbufs h m = Some b" and "refcnt b = 1" and "m \<in># H"
  shows "refs h H m = 1"
proof -
  have "0 < count H m" using assms(4) by simp
  then have "1 \<le> refs h H m" unfolding refs_def by linarith
  moreover have "max 1 (refs h H m) = 1" using minvD(3) [OF assms(1,2)] assms(3) by (simp add: mbuf_ok_def)
  ultimately show ?thesis by simp
qed

lemma unlink_inv:
  assumes inv: "minv h H" and m: "mbufs h m = Some b" "m \<in># H" "refcnt b = 1"
  shows "\<exists>h' b'. unlink_seg lcore m h = Inr h' \<and> minv h' H \<and> mbufs h' m = Some b' \<and> RTE_MBUF_DIRECT b'
    \<and> refcnt b' = 1 \<and> kept (set_mset H - {m}) h h'"
proof -
  have r: "refs h H m = 1" by (rule refs_1 [OF inv m(1,3,2)])
  let ?f = "\<lambda>b. if next_seg b \<noteq> None then b\<lparr>next_seg := None, nb_segs := 1\<rparr> else b"
  have "\<exists>h1 b1. (if RTE_MBUF_INDIRECT b then rte_pktmbuf_detach lcore m h else Inr h) = Inr h1 \<and> minv h1 H
      \<and> mbufs h1 m = Some b1 \<and> RTE_MBUF_DIRECT b1 \<and> refcnt b1 = 1 \<and> kept (set_mset H - {m}) h h1"
  proof (cases "RTE_MBUF_INDIRECT b")
    case True
    then show ?thesis using detach_inv [OF inv m(1) True r, of lcore] m(3) by auto
  next
    case False
    then show ?thesis using inv m by (auto simp: RTE_MBUF_DIRECT_def)
  qed
  then obtain h1 b1 where 1: "(if RTE_MBUF_INDIRECT b then rte_pktmbuf_detach lcore m h else Inr h) = Inr h1" "minv h1 H"
    "mbufs h1 m = Some b1" "RTE_MBUF_DIRECT b1" "refcnt b1 = 1" "kept (set_mset H - {m}) h h1" by blast
  have s: "same_refs b1 (?f b1)" by (simp add: same_refs_def)
  have "unlink_seg lcore m h = Inr (mbuf_set m (?f b1) h1)"
    unfolding unlink_seg_def mbuf_at_eq [OF m(1)] cbind_Inr 1(1) using 1(3) by (simp add: mbuf_upd_def)
  moreover have "minv (mbuf_set m (?f b1) h1) H" by (rule minv_upd [OF 1(2,3) s])
  moreover have "kept (set_mset H - {m}) h (mbuf_set m (?f b1) h1)"
    using 1(3,6) by (auto simp: kept_def)
  moreover have "RTE_MBUF_DIRECT (?f b1)" "refcnt (?f b1) = 1" using same_refs_dest [OF s] 1(4,5) by simp_all
  ultimately show ?thesis by auto
qed

lemma free_seg_inv:
  assumes inv: "minv h H" and m: "m \<in># H"
  shows "\<exists>h'. rte_pktmbuf_free_seg lcore m h = Inr h' \<and> minv h' (H - {#m#}) \<and> kept (set_mset (H - {#m#})) h h'"
proof -
  obtain b where b: "mbufs h m = Some b" using minvD(2) [OF inv m] by blast
  have c0: "0 < count H m" using m by simp
  show ?thesis
  proof (cases "refcnt b = 1")
    case True
    obtain h1 b1 where 1: "unlink_seg lcore m h = Inr h1" "minv h1 H" "mbufs h1 m = Some b1" "RTE_MBUF_DIRECT b1"
      "refcnt b1 = 1" "kept (set_mset H - {m}) h h1"
      using unlink_inv [OF inv b m True] by blast
    have r: "refs h1 H m = 1" by (rule refs_1 [OF 1(2,3,5) m])
    obtain h' where h': "rte_mbuf_raw_free lcore m h1 = Inr h'" "minv h' (H - {#m#})" "mbufs h' = mbufs h1"
      "mem_bytes h' = mem_bytes h1" "\<forall>p. map_option pool_priv (pools h' p) = map_option pool_priv (pools h1 p)"
      using raw_free_inv [OF 1(2-4) r m, of lcore] by blast
    have "count H m = 1" using r c0 unfolding refs_def by linarith
    then have "x \<in># H - {#m#} \<longleftrightarrow> x \<in># H \<and> x \<noteq> m" for x
      unfolding count_greater_zero_iff [symmetric] by (cases "x = m") simp_all
    then have "set_mset (H - {#m#}) = set_mset H - {m}" by blast
    then have "kept (set_mset (H - {#m#})) h h'" using 1(6) h'(3-5) by (simp add: kept_def)
    then show ?thesis
      using b True 1(1) h' by (simp add: rte_pktmbuf_free_seg_def rte_pktmbuf_prefree_seg_def)
  next
    case False
    let ?b = "b\<lparr>refcnt := refcnt b - 1\<rparr>" and ?H = "H - {#m#}"
    let ?h = "mbuf_set m ?b h"
    have ok: "mbuf_ok h H m b" by (rule minvD(3) [OF inv b])
    have "unat (refcnt b) \<noteq> 1" using False by (metis unat_1 word_unat_eq_iff)
    then have r: "unat (refcnt b) = refs h H m" "2 \<le> refs h H m" using ok by (auto simp: mbuf_ok_def max_def split: if_splits)
    have um: "unat (refcnt b - 1) = refs h H m - 1" using r by (simp add: unat_sub word_le_nat_alt)
    then have nz: "refcnt b - 1 \<noteq> 0" using r(2) by (metis diff_is_0_eq not_less_eq_eq numeral_2_eq_2 unat_0 One_nat_def)
    have ind: "RTE_MBUF_INDIRECT ?b = RTE_MBUF_INDIRECT b" "rte_mbuf_from_indirect ?b = rte_mbuf_from_indirect b"
      "RTE_MBUF_DIRECT ?b = RTE_MBUF_DIRECT b"
      by (simp_all add: RTE_MBUF_INDIRECT_def RTE_MBUF_DIRECT_def rte_mbuf_from_indirect_def)
    have a: "attached ?h = attached h" using b ind by (auto simp: attached_def fun_eq_iff)
    have refs': "refs ?h ?H x = (if x = m then refs h H m - 1 else refs h H x)" for x using c0 by (simp add: refs_def a)
    have o: "objs_of ?h = objs_of h" using b by (auto simp: objs_of_def fun_eq_iff)
    have u: "used ?h ?H p = used h H p" for p using r(2) by (auto simp: used_def o refs')
    have mb: "mbuf_ok ?h ?H x y" if xy: "mbufs ?h x = Some y" for x y
    proof (cases "x = m")
      case True
      then have y: "y = ?b" using xy by simp
      have "0 < count ?H m" if "RTE_MBUF_INDIRECT b"
        using attached_indirect [OF inv b that] r(2) by (simp add: refs_def)
      then show ?thesis using True y ok um r(2) ind b by (auto simp: mbuf_ok_def refs' max_def)
    next
      case False
      then have "mbuf_ok h H x y" using minvD(3) [OF inv, of x y] xy by simp
      then show ?thesis using False ind(3) b by (auto simp: mbuf_ok_def refs')
    qed
    have "minv ?h ?H" using inv mb by (auto simp: minv_def pool_ok_def o u dest: in_diffD)
    moreover have "rte_pktmbuf_free_seg lcore m h = Inr ?h"
      using b False nz by (simp add: rte_pktmbuf_free_seg_def rte_pktmbuf_prefree_seg_def Let_def)
    moreover have "kept (set_mset ?H) h ?h" using b by (auto simp: kept_def refcnt_same)
    ultimately show ?thesis by blast
  qed
qed

text \<open>The segments from one pointer to another.\<close>

primrec seg_path :: "mbuf_mem \<Rightarrow> addr option \<Rightarrow> addr list \<Rightarrow> addr option \<Rightarrow> bool" where
  "seg_path h p [] q \<longleftrightarrow> p = q"
| "seg_path h p (m # ms) q \<longleftrightarrow> p = Some m \<and> (\<exists>b. mbufs h m = Some b \<and> seg_path h (next_seg b) ms q)"

abbreviation seg_chain :: "mbuf_mem \<Rightarrow> addr option \<Rightarrow> addr list \<Rightarrow> bool" where
  "seg_chain h p ms \<equiv> seg_path h p ms None"

lemma seg_path_append: "seg_path h p (xs @ ys) q \<longleftrightarrow> (\<exists>r. seg_path h p xs r \<and> seg_path h r ys q)"
  by (induction xs arbitrary: p) auto

lemma seg_path_cong:
  "seg_path h p ms q \<Longrightarrow> (\<And>x. x \<in> set ms \<Longrightarrow> map_option next_seg (mbufs h' x) = map_option next_seg (mbufs h x)) \<Longrightarrow> seg_path h' p ms q"
  by (induction ms arbitrary: p) fastforce+

lemma seg_chain_kept:
  "seg_path h p ms q \<Longrightarrow> kept X h h' \<Longrightarrow> set ms \<subseteq> X \<Longrightarrow> seg_path h' p ms q"
proof (induction ms arbitrary: p)
  case (Cons m ms)
  then obtain b where b: "p = Some m" "mbufs h m = Some b" "seg_path h (next_seg b) ms q" by auto
  then obtain c where "mbufs h' m = Some (b\<lparr>refcnt := c\<rparr>)" using keptD [OF Cons.prems(2) _ b(2)] Cons.prems(3) by auto
  then show ?case using b Cons.IH [OF b(3)] Cons.prems(2,3) by simp
qed simp

text \<open>Freeing a packet gives up one reference to each of its segments.\<close>

lemma free_inv:
  assumes "minv h H" and "seg_chain h p ms" and "mset ms \<subseteq># H" and "length ms \<le> fuel"
  shows "\<exists>h'. rte_pktmbuf_free fuel lcore p h = Inr h' \<and> minv h' (H - mset ms) \<and> kept (set_mset (H - mset ms)) h h'"
  using assms
proof (induction ms arbitrary: h H p fuel)
  case (Cons m ms)
  obtain b where b: "p = Some m" "mbufs h m = Some b" "seg_chain h (next_seg b) ms" using Cons.prems(2) by auto
  have mH: "m \<in># H" using Cons.prems(3) by (auto dest: mset_subset_eqD)
  have sub: "mset ms \<subseteq># H - {#m#}" using Cons.prems(3) by (simp add: insert_subset_eq_iff)
  obtain f where f: "fuel = Suc f" "length ms \<le> f" using Cons.prems(4) by (cases fuel) auto
  obtain h1 where h1: "rte_pktmbuf_free_seg lcore m h = Inr h1" "minv h1 (H - {#m#})" "kept (set_mset (H - {#m#})) h h1"
    using free_seg_inv [OF Cons.prems(1) mH] by blast
  have "seg_chain h1 (next_seg b) ms"
    by (rule seg_chain_kept [OF b(3) h1(3)]) (use sub in \<open>auto dest: mset_subset_eqD\<close>)
  then obtain h' where h': "rte_pktmbuf_free f lcore (next_seg b) h1 = Inr h'" "minv h' (H - {#m#} - mset ms)"
    "kept (set_mset (H - {#m#} - mset ms)) h1 h'"
    using Cons.IH [OF h1(2) _ sub f(2)] by blast
  have "kept (set_mset (H - {#m#} - mset ms)) h h'"
    by (rule kept_mono [OF kept_trans [OF h1(3) h'(3)]]) (blast dest: in_diffD)
  then show ?case using b f(1) h1(1) h' by (simp add: diff_diff_add_mset)
qed simp



section \<open>Allocating and attaching\<close>

lemma free_buffer_direct:
  assumes "minv h H" and "mbufs h m = Some b" and "refs h H m = 0"
  shows "RTE_MBUF_DIRECT b"
proof (rule ccontr)
  assume "\<not> RTE_MBUF_DIRECT b"
  then have "0 < count H m" using minvD(3) [OF assms(1,2)] by (simp add: mbuf_ok_def RTE_MBUF_DIRECT_def)
  then show False using assms(3) unfolding refs_def by linarith
qed

lemma reset_fields [simp]:
  "next_seg (rte_pktmbuf_reset b) = None" "pkt_len (rte_pktmbuf_reset b) = 0" "data_len (rte_pktmbuf_reset b) = 0"
  "nb_segs (rte_pktmbuf_reset b) = 1" "refcnt (rte_pktmbuf_reset b) = refcnt b" "buf_addr (rte_pktmbuf_reset b) = buf_addr b"
  "buf_len (rte_pktmbuf_reset b) = buf_len b" "mb_pool (rte_pktmbuf_reset b) = mb_pool b" "ol_flags (rte_pktmbuf_reset b) = 0"
  "priv_size (rte_pktmbuf_reset b) = priv_size b" "data_off (rte_pktmbuf_reset b) = min RTE_PKTMBUF_HEADROOM (buf_len b)"
  by (simp_all add: rte_pktmbuf_reset_def rte_pktmbuf_reset_headroom_def)

lemma alloc_inv:
  assumes inv: "minv h H" and p: "pools h p = Some pp"
  shows "\<exists>r h'. rte_pktmbuf_alloc lcore p h = Inr (r, h') \<and> mem_bytes h' = mem_bytes h
    \<and> (\<forall>q. map_option pool_priv (pools h' q) = map_option pool_priv (pools h q))
    \<and> (case r of None \<Rightarrow> minv h' H \<and> mbufs h' = mbufs h
       | Some m \<Rightarrow> minv h' (add_mset m H) \<and> refs h H m = 0 \<and> refs h' (add_mset m H) = (refs h H)(m := 1) \<and>
           (\<exists>b. mbufs h m = Some b \<and> RTE_MBUF_DIRECT b \<and> mb_pool b = p \<and> mbufs h' = (mbufs h)(m := Some (rte_pktmbuf_reset b))))"
proof -
  obtain r h1 where 1: "rte_mbuf_raw_alloc lcore p h = Inr (r, h1)" "mbufs h1 = mbufs h" "mem_bytes h1 = mem_bytes h"
    "\<forall>q. map_option pool_priv (pools h1 q) = map_option pool_priv (pools h q)"
    "case r of None \<Rightarrow> minv h1 H | Some m \<Rightarrow> minv h1 (add_mset m H) \<and> refs h H m = 0 \<and> m \<in> objs_of h p"
    using raw_alloc_inv [OF inv p, of lcore] by blast
  show ?thesis
  proof (cases r)
    case None
    then show ?thesis using 1 by (simp add: rte_pktmbuf_alloc_def)
  next
    case (Some m)
    then have m: "minv h1 (add_mset m H)" "refs h H m = 0" "m \<in> objs_of h p" using 1(5) by auto
    then obtain b where b: "mbufs h m = Some b" "mb_pool b = p" by (auto simp: objs_of_def)
    have d: "RTE_MBUF_DIRECT b" by (rule free_buffer_direct [OF inv b(1) m(2)])
    then have s: "same_refs b (rte_pktmbuf_reset b)"
      by (simp add: same_refs_def RTE_MBUF_DIRECT_def RTE_MBUF_INDIRECT_def)
    let ?h = "mbuf_set m (rte_pktmbuf_reset b) h1"
    have inv': "minv ?h (add_mset m H)" using minv_upd [OF m(1) _ s] b(1) 1(2) by simp
    have "attached h1 = attached h" using 1(2) by (simp add: attached_def fun_eq_iff)
    then have "refs h1 (add_mset m H) = (refs h H)(m := 1)" using m(2) by (auto simp: refs_def fun_eq_iff)
    then have r1: "refs ?h (add_mset m H) = (refs h H)(m := 1)" using refs_upd(3) [OF _ s, of h1 m] b(1) 1(2) by simp
    have "rte_pktmbuf_alloc lcore p h = Inr (Some m, ?h)"
      using 1(1,2) b(1) Some by (simp add: rte_pktmbuf_alloc_def mbuf_upd_def)
    then show ?thesis using inv' 1 m(2) b d r1 by simp
  qed
qed

text \<open>What attaching copies.\<close>

definition attach_to :: "rte_mbuf \<Rightarrow> rte_mbuf \<Rightarrow> rte_mbuf" where
  "attach_to b i = i\<lparr>priv_size := priv_size b, buf_physaddr := buf_physaddr b, buf_addr := buf_addr b,
          buf_len := buf_len b, data_off := data_off b, data_len := data_len b, in_port := in_port b,
          vlan_tci := vlan_tci b, vlan_tci_outer := vlan_tci_outer b, tx_offload := tx_offload b,
          hash_info := hash_info b, next_seg := None, pkt_len := ucast (data_len b), nb_segs := 1,
          ol_flags := ol_flags b OR IND_ATTACHED_MBUF, packet_type := packet_type b,
          timestamp := timestamp b\<rparr>"

lemma indirect_flag: "IND_ATTACHED_MBUF \<noteq> 0"
  by (simp add: IND_ATTACHED_MBUF_def)

lemma attach_to_fields [simp]:
  "RTE_MBUF_INDIRECT (attach_to b i)" "rte_mbuf_from_indirect (attach_to b i) = rte_mbuf_from_indirect b"
  "refcnt (attach_to b i) = refcnt i" "mb_pool (attach_to b i) = mb_pool i" "next_seg (attach_to b i) = None"
  "buf_addr (attach_to b i) = buf_addr b" "data_off (attach_to b i) = data_off b" "data_len (attach_to b i) = data_len b"
  "buf_len (attach_to b i) = buf_len b"
  by (simp_all add: attach_to_def RTE_MBUF_INDIRECT_def rte_mbuf_from_indirect_def indirect_flag)

lemma attach_to_refcnt [simp]: "attach_to (b\<lparr>refcnt := c\<rparr>) i = attach_to b i"
  by (simp add: attach_to_def)

text \<open>The buffer that owns the data of \<open>m\<close>.\<close>

definition owner :: "mbuf_mem \<Rightarrow> addr \<Rightarrow> addr" where
  "owner h m = (case mbufs h m of None \<Rightarrow> m | Some b \<Rightarrow> if RTE_MBUF_DIRECT b then m else rte_mbuf_from_indirect b)"

lemma owner_direct:
  assumes inv: "minv h H" and m: "mbufs h m = Some b" "m \<in># H"
  shows "\<exists>d. mbufs h (owner h m) = Some d \<and> RTE_MBUF_DIRECT d \<and> rte_mbuf_from_indirect b = owner h m \<and> 0 < refs h H (owner h m)"
proof (cases "RTE_MBUF_DIRECT b")
  case True
  then have "rte_mbuf_from_indirect b = m"
    using minvD(3) [OF inv m(1)] by (simp add: mbuf_ok_def RTE_MBUF_DIRECT_def rte_mbuf_from_indirect_def)
  then show ?thesis using True m by (simp add: owner_def refs_def)
next
  case False
  then have "m \<in> attached h (rte_mbuf_from_indirect b)" using m by (auto simp: attached_def RTE_MBUF_DIRECT_def)
  then have "0 < refs h H (rte_mbuf_from_indirect b)"
    using finite_attached [OF inv, of "rte_mbuf_from_indirect b"] by (auto simp: refs_def card_gt_0_iff)
  then show ?thesis
    using False m(1) minvD(3) [OF inv m(1)] by (auto simp: owner_def mbuf_ok_def RTE_MBUF_DIRECT_def)
qed

lemma attach_inv:
  assumes inv: "minv h H" and mi: "mbufs h mi = Some i" "RTE_MBUF_DIRECT i" "refs h H mi = 1" "mi \<in># H"
    and m: "mbufs h m = Some b" "m \<in># H" "m \<noteq> mi" and lim: "refs h H (owner h m) < 65535"
  shows "\<exists>h' d. rte_pktmbuf_attach mi m h = Inr h' \<and> minv h' H \<and> mbufs h (owner h m) = Some d \<and> owner h m \<noteq> mi
    \<and> mbufs h' = (mbufs h)(owner h m := Some (d\<lparr>refcnt := refcnt d + 1\<rparr>), mi := Some (attach_to b i))
    \<and> mem_bytes h' = mem_bytes h \<and> pools h' = pools h
    \<and> refs h' H = (refs h H)(owner h m := refs h H (owner h m) + 1)"
proof -
  define md where "md = owner h m"
  obtain d where d: "mbufs h md = Some d" "RTE_MBUF_DIRECT d" "rte_mbuf_from_indirect b = md" "0 < refs h H md"
    using owner_direct [OF inv m(1,2)] unfolding md_def by blast
  have ci: "0 < count H mi" using mi(4) by simp
  then have ai: "attached h mi = {}"
    using mi(3) finite_attached [OF inv, of mi] unfolding refs_def by (subst card_0_eq [symmetric]) linarith+
  have ne: "md \<noteq> mi"
  proof (cases "RTE_MBUF_DIRECT b")
    case True
    then show ?thesis using m by (simp add: md_def owner_def)
  next
    case False
    then have "m \<in> attached h md" using m(1) d(3) by (auto simp: attached_def RTE_MBUF_DIRECT_def)
    then show ?thesis using ai by auto
  qed
  let ?d = "d\<lparr>refcnt := refcnt d + 1\<rparr>" and ?i = "attach_to b i"
  let ?h = "mbuf_set mi ?i (mbuf_set md ?d h)"
  have run: "rte_pktmbuf_attach mi m h = Inr ?h"
  proof -
    have md': "(if RTE_MBUF_DIRECT b then m else rte_mbuf_from_indirect b) = md" using m(1) by (simp add: md_def owner_def)
    have u: "rte_mbuf_refcnt_update md 1 h = Inr (refcnt d + 1, mbuf_set md ?d h)"
      using d(1) by (simp add: rte_mbuf_refcnt_update_def)
    have i1: "mbufs (mbuf_set md ?d h) mi = Some i" using mi(1) ne by simp
    obtain c where c: "mbufs (mbuf_set md ?d h) m = Some (b\<lparr>refcnt := c\<rparr>)"
      using m(1) d(1) refcnt_same [of b] by (cases "m = md") auto
    show ?thesis
      unfolding rte_pktmbuf_attach_def mbuf_at_eq [OF m(1)] cbind_Inr Let_def md' u prod.case mbuf_at_eq [OF c]
        mbuf_upd_def mbuf_at_eq [OF i1] by (simp add: attach_to_def)
  qed
  have dd: "RTE_MBUF_DIRECT ?d" using d(2) by (simp add: RTE_MBUF_DIRECT_def RTE_MBUF_INDIRECT_def)
  have a: "attached ?h x = (if x = md then insert mi (attached h md) else attached h x)" for x
    using d dd mi(1,2) ne by (auto simp: attached_def RTE_MBUF_DIRECT_def)
  have "mi \<notin> attached h md" using mi(1,2) by (auto simp: attached_def RTE_MBUF_DIRECT_def)
  then have refs': "refs ?h H x = (if x = md then refs h H md + 1 else refs h H x)" for x
    using finite_attached [OF inv, of md] by (simp add: refs_def a)
  have o: "objs_of ?h p = objs_of h p" for p using d(1) mi(1) ne by (auto simp: objs_of_def)
  have u: "used ?h H p = used h H p" for p using d(4) by (auto simp: used_def o refs')
  have rd: "unat (refcnt d) = refs h H md"
    using minvD(3) [OF inv d(1)] d(4) by (auto simp: mbuf_ok_def)
  then have rd': "unat (refcnt d + 1) = refs h H md + 1" using lim by (simp add: md_def unat_word_ariths)
  have mb: "mbuf_ok ?h H x y" if xy: "mbufs ?h x = Some y" for x y
  proof -
    consider "x = md" "y = ?d" | "x = mi" "y = ?i" "x \<noteq> md" | "x \<noteq> md" "x \<noteq> mi" "mbufs h x = Some y"
      using xy ne by (auto split: if_splits)
    then show ?thesis
    proof cases
      case 1
      then show ?thesis
        using minvD(3) [OF inv d(1)] dd d(2) rd' by (auto simp: mbuf_ok_def refs' RTE_MBUF_DIRECT_def)
    next
      case 2
      then show ?thesis
        using minvD(3) [OF inv mi(1)] ci d(3) dd ne by (auto simp: mbuf_ok_def refs')
    next
      case 3
      have "mbuf_ok h H x y" by (rule minvD(3) [OF inv 3(3)])
      moreover have "rte_mbuf_from_indirect y \<noteq> mi" if "RTE_MBUF_INDIRECT y"
        using that 3(3) ai by (auto simp: attached_def)
      ultimately show ?thesis using 3 dd by (auto simp: mbuf_ok_def refs')
    qed
  qed
  have "minv ?h H" using inv mb by (auto simp: minv_def pool_ok_def o u)
  moreover have "refs ?h H = (refs h H)(md := refs h H md + 1)" using refs' by (simp add: fun_eq_iff)
  ultimately show ?thesis using run d(1) ne unfolding md_def by auto
qed



section \<open>Packet data and clones\<close>

definition seg_data :: "mbuf_mem \<Rightarrow> addr \<Rightarrow> uint8 list" where
  "seg_data h m = (case mbufs h m of None \<Rightarrow> [] | Some b \<Rightarrow> bytes_at (mem_bytes h) (rte_pktmbuf_mtod b) (unat (data_len b)))"

definition pkt_data :: "mbuf_mem \<Rightarrow> addr list \<Rightarrow> uint8 list" where
  "pkt_data h ms = concat (map (seg_data h) ms)"

text \<open>Where the data of a segment lies.\<close>

definition view :: "mbuf_mem \<Rightarrow> addr \<Rightarrow> (addr \<times> uint16 \<times> uint16) option" where
  "view h m = map_option (\<lambda>b. (buf_addr b, data_off b, data_len b)) (mbufs h m)"

lemma seg_data_view: "view h' m' = view h m \<Longrightarrow> mem_bytes h' = mem_bytes h \<Longrightarrow> seg_data h' m' = seg_data h m"
  by (auto simp: seg_data_def view_def rte_pktmbuf_mtod_def rte_pktmbuf_mtod_offset_def split: option.splits)

lemma pkt_data_view: "map (view h') cs = map (view h) ms \<Longrightarrow> mem_bytes h' = mem_bytes h \<Longrightarrow> pkt_data h' cs = pkt_data h ms"
  unfolding pkt_data_def
  by (rule arg_cong [of _ _ concat], rule list_eq_iff_nth_eq [THEN iffD2])
     (auto simp: list_eq_iff_nth_eq [of "map _ _"] intro!: seg_data_view)

lemma kept_view: "kept X h h' \<Longrightarrow> x \<in> X \<Longrightarrow> mbufs h x \<noteq> None \<Longrightarrow> view h' x = view h x"
  unfolding kept_def view_def by fastforce

text \<open>One round of the loop attaches the new segment and links it behind the clones made so far.\<close>

lemma clone_round:
  assumes inv: "minv h H" and md: "mbufs h md = Some b" "md \<in># H" "md \<noteq> mi" "md \<notin> set cs"
    and cs: "cs \<noteq> [] \<Longrightarrow> \<exists>q. seg_path h (Some (hd cs)) cs q" "distinct (cs @ [mi])" "set cs \<subseteq> set_mset H"
    and mi: "mbufs h mi = Some i" "RTE_MBUF_DIRECT i" "refs h H mi = 1" "mi \<in># H"
    and prev: "prev = (if cs = [] then mi else last cs)" and lim: "refs h H (owner h md) < 65535"
  shows "\<exists>h1 h2 q. rte_pktmbuf_attach mi md h = Inr h1 \<and> mbuf_upd prev (\<lambda>b. b\<lparr>next_seg := Some mi\<rparr>) h1 = Inr h2
    \<and> minv h2 H \<and> seg_path h2 (Some (hd (cs @ [mi]))) (cs @ [mi]) q
    \<and> view h2 mi = view h md \<and> (\<forall>x. x \<noteq> mi \<longrightarrow> view h2 x = view h x)
    \<and> kept (UNIV - set (cs @ [mi])) h h2 \<and> pools h2 = pools h \<and> (\<forall>x. refs h2 H x \<le> refs h H x + 1)"
proof -
  obtain h1 d where 1: "rte_pktmbuf_attach mi md h = Inr h1" "minv h1 H" "mbufs h (owner h md) = Some d" "owner h md \<noteq> mi"
    "mbufs h1 = (mbufs h)(owner h md := Some (d\<lparr>refcnt := refcnt d + 1\<rparr>), mi := Some (attach_to b i))"
    "mem_bytes h1 = mem_bytes h" "pools h1 = pools h" "refs h1 H = (refs h H)(owner h md := refs h H (owner h md) + 1)"
    using attach_inv [OF inv mi md(1,2,3) lim] by blast
  have k1: "kept (UNIV - {mi}) h h1" using 1(3-7) mi(1) by (auto simp: kept_def refcnt_same)
  have pH: "prev \<in># H" using prev cs(3) mi(4) by (auto simp: subset_iff)
  then obtain pb where pb: "mbufs h1 prev = Some pb" using minvD(2) [OF 1(2)] by blast
  let ?pb = "pb\<lparr>next_seg := Some mi\<rparr>"
  let ?h = "mbuf_set prev ?pb h1"
  have s: "same_refs pb ?pb" by (simp add: same_refs_def)
  have run: "mbuf_upd prev (\<lambda>b. b\<lparr>next_seg := Some mi\<rparr>) h1 = Inr ?h" using pb by (simp add: mbuf_upd_def)
  have inv2: "minv ?h H" by (rule minv_upd [OF 1(2) pb s])
  have v1: "view h1 x = (if x = mi then view h md else view h x)" for x
    using 1(3-5) md(1) by (auto simp: view_def)
  have v2: "view ?h x = view h1 x" for x using pb by (simp add: view_def)
  have r2: "refs ?h H = refs h1 H" by (simp add: refs_upd(3) [OF pb s])
  have k2: "kept (UNIV - {prev}) h1 ?h" using pb by (auto simp: kept_def refcnt_same)
  have k: "kept (UNIV - set (cs @ [mi])) h ?h"
    by (rule kept_mono [OF kept_trans [OF k1 k2]]) (use prev in auto)
  have "\<exists>q. seg_path ?h (Some (hd (cs @ [mi]))) (cs @ [mi]) q"
  proof (cases "cs = []")
    case True
    then show ?thesis using pb prev by simp
  next
    case False
    then obtain xs l where xl: "cs = xs @ [l]" by (metis append_butlast_last_id)
    then have l: "prev = l" "l \<notin> set xs" "l \<noteq> mi" "mi \<notin> set xs" using prev cs(2) by auto
    obtain q where q: "seg_path h (Some (hd cs)) (xs @ [l]) q" using cs(1) [OF False] xl by auto
    have "seg_path h1 (Some (hd cs)) (xs @ [l]) q"
      by (rule seg_chain_kept [OF q k1]) (use l in auto)
    then obtain r where r: "seg_path h1 (Some (hd cs)) xs r" "r = Some l" by (auto simp: seg_path_append)
    have "seg_path ?h (Some (hd cs)) xs r"
      by (rule seg_chain_kept [OF r(1) k2]) (use l in auto)
    then have "seg_path ?h (Some (hd cs)) (xs @ [l]) (Some mi)" using r(2) l(1) by (auto simp: seg_path_append)
    moreover have "mbufs ?h mi = Some (attach_to b i)" using l 1(4,5) by simp
    ultimately have "seg_path ?h (Some (hd cs)) (cs @ [mi]) None" unfolding xl by (auto simp: seg_path_append)
    then show ?thesis using False by auto
  qed
  then show ?thesis using 1(1,6,7,8) run inv2 k v1 v2 r2 by auto
qed


definition cloned :: "mbuf_mem \<Rightarrow> addr multiset \<Rightarrow> addr list \<Rightarrow> addr list \<Rightarrow> bool \<Rightarrow> addr \<Rightarrow> addr list \<Rightarrow> mbuf_mem \<Rightarrow> bool" where
  "cloned h H ms cs ok mi ds h' \<longleftrightarrow>
     minv h' (H + mset ds) \<and> (\<exists>q. seg_path h' (Some (hd (cs @ [mi]))) (cs @ mi # ds) q)
     \<and> distinct (cs @ mi # ds) \<and> set ds \<inter> set_mset H = {}
     \<and> (if ok then map (view h') (mi # ds) = map (view h) ms else length (mi # ds) < length ms)
     \<and> (\<forall>x\<in>set_mset H - {mi}. view h' x = view h x)
     \<and> kept (set_mset H - set (cs @ [mi])) h h'"

lemma clone_loop_inv:
  assumes "minv h H" and "seg_chain h (Some md) ms" and "set ms \<subseteq> set_mset H" and "set ms \<inter> set (cs @ [mi]) = {}"
    and "cs \<noteq> [] \<Longrightarrow> \<exists>q. seg_path h (Some (hd cs)) cs q" and "distinct (cs @ [mi])" and "set cs \<subseteq> set_mset H"
    and "mbufs h mi = Some i" and "RTE_MBUF_DIRECT i" and "refs h H mi = 1" and "mi \<in># H"
    and "prev = (if cs = [] then mi else last cs)" and "\<And>x. refs h H x + length ms \<le> 65535"
    and "pools h p \<noteq> None" and "length ms \<le> fuel"
  shows "\<exists>ok h' ds. clone_loop fuel lcore p prev mi md nseg h
      = Inr (ok, last (mi # ds), nseg + of_nat (length (mi # ds)), h') \<and> cloned h H ms cs ok mi ds h'"
  using assms
proof (induction ms arbitrary: h H md cs mi i prev nseg fuel)
  case (Cons m ms)
  obtain b where b: "md = m" "mbufs h m = Some b" "seg_chain h (next_seg b) ms" using Cons.prems(2) by auto
  obtain f where f: "fuel = Suc f" "length ms \<le> f" using Cons.prems(15) by (cases fuel) auto
  have md: "md \<in># H" "md \<noteq> mi" "md \<notin> set cs" using Cons.prems(3,4) b(1) by auto
  have lim: "refs h H (owner h md) < 65535" using Cons.prems(13) [of "owner h md"] by simp
  obtain h1 h2 q where r: "rte_pktmbuf_attach mi md h = Inr h1" "mbuf_upd prev (\<lambda>b. b\<lparr>next_seg := Some mi\<rparr>) h1 = Inr h2"
    "minv h2 H" "seg_path h2 (Some (hd (cs @ [mi]))) (cs @ [mi]) q" "view h2 mi = view h md"
    "\<forall>x. x \<noteq> mi \<longrightarrow> view h2 x = view h x" "kept (UNIV - set (cs @ [mi])) h h2" "pools h2 = pools h"
    "\<forall>x. refs h2 H x \<le> refs h H x + 1"
    using clone_round [OF Cons.prems(1) b(2)[folded b(1)] md Cons.prems(5-12) lim] by blast
  obtain c where c: "mbufs h2 md = Some (b\<lparr>refcnt := c\<rparr>)"
    using keptD [OF r(7) _ b(2)] md b(1) by auto
  have keptH: "kept (set_mset H - set (cs @ [mi])) h h2" by (rule kept_mono [OF r(7)]) auto
  have stop: "cloned h H (m # ms) cs ok mi [] h'"
    if "minv h' H" "mbufs h' = mbufs h2" "mem_bytes h' = mem_bytes h2"
      "\<forall>q. map_option pool_priv (pools h' q) = map_option pool_priv (pools h2 q)" "ok = (ms = [])" for ok h'
  proof -
    have v: "view h' = view h2" using that(2) by (simp add: view_def fun_eq_iff)
    have "seg_path h' (Some (hd (cs @ [mi]))) (cs @ [mi]) q" by (rule seg_path_cong [OF r(4)]) (simp add: that(2))
    moreover have "kept (set_mset H - set (cs @ [mi])) h h'" using keptH that(2-4) by (simp add: kept_def)
    ultimately show ?thesis
      using that(1,5) r(5,6) v Cons.prems(6) b(1) by (auto simp: cloned_def)
  qed
  show ?case
  proof (cases ms)
    case Nil
    then have nb: "next_seg b = None" using b(3) by simp
    have "cloned h H (m # ms) cs True mi [] h2" by (rule stop [OF r(3)]) (simp_all add: Nil)
    then show ?thesis using f(1) r(1,2) c nb
      by (intro exI [of _ True] exI [of _ h2] exI [of _ "[]"]) simp
  next
    case (Cons m' ms')
    then have nb: "next_seg b = Some m'" using b(3) by simp
    obtain pp where pp: "pools h2 p = Some pp" using Cons.prems(14) r(8) by auto
    obtain r' h3 where a: "rte_pktmbuf_alloc lcore p h2 = Inr (r', h3)" "mem_bytes h3 = mem_bytes h2"
      "\<forall>q. map_option pool_priv (pools h3 q) = map_option pool_priv (pools h2 q)"
      "case r' of None \<Rightarrow> minv h3 H \<and> mbufs h3 = mbufs h2
       | Some n \<Rightarrow> minv h3 (add_mset n H) \<and> refs h2 H n = 0 \<and> refs h3 (add_mset n H) = (refs h2 H)(n := 1) \<and>
           (\<exists>b. mbufs h2 n = Some b \<and> RTE_MBUF_DIRECT b \<and> mb_pool b = p \<and> mbufs h3 = (mbufs h2)(n := Some (rte_pktmbuf_reset b)))"
      using alloc_inv [OF r(3) pp, of lcore] by blast
    have run: "clone_loop fuel lcore p prev mi md nseg h =
       (case r' of None \<Rightarrow> Inr (False, mi, nseg + 1, h3) | Some n \<Rightarrow> clone_loop f lcore p mi n m' (nseg + 1) h3)"
      using f(1) r(1,2) c nb a(1) by simp
    show ?thesis
    proof (cases r')
      case None
      have "cloned h H (m # ms) cs False mi [] h3" by (rule stop) (use a None Cons in auto)
      then show ?thesis using run None by (intro exI [of _ False] exI [of _ h3] exI [of _ "[]"]) simp
    next
      case (Some n)
      then obtain nb' where n: "minv h3 (add_mset n H)" "refs h2 H n = 0" "refs h3 (add_mset n H) = (refs h2 H)(n := 1)"
        "mbufs h2 n = Some nb'" "RTE_MBUF_DIRECT nb'" "mbufs h3 = (mbufs h2)(n := Some (rte_pktmbuf_reset nb'))"
        using a(4) by auto
      have nH: "n \<notin># H" using n(2) by (auto simp: refs_def not_in_iff)
      have csH: "set (cs @ [mi]) \<subseteq> set_mset H" using Cons.prems(7,11) by auto
      have k3: "kept (UNIV - {n}) h2 h3" using n(4,6) a(2,3) by (auto simp: kept_def refcnt_same)
      have k03: "kept (UNIV - set (cs @ [mi]) - {n}) h h3"
        by (rule kept_mono [OF kept_trans [OF r(7) k3]]) auto
      have src: "seg_chain h3 (Some m') ms"
        using seg_chain_kept [OF b(3) k03] nb Cons.prems(3,4) nH by (auto simp: subset_iff)
      have path: "\<exists>q. seg_path h3 (Some (hd (cs @ [mi]))) (cs @ [mi]) q"
        using seg_chain_kept [OF r(4) k3] csH nH by (auto simp: subset_iff)
      have lim3: "refs h3 (add_mset n H) x + length ms \<le> 65535" for x
        using r(9) [rule_format, of x] Cons.prems(13) [of x] by (simp add: n(3))
      have dir: "RTE_MBUF_DIRECT (rte_pktmbuf_reset nb')" by (simp add: RTE_MBUF_DIRECT_def RTE_MBUF_INDIRECT_def)
      have "\<exists>ok h' ds. clone_loop f lcore p mi n m' (nseg + 1) h3
          = Inr (ok, last (n # ds), nseg + 1 + of_nat (length (n # ds)), h') \<and> cloned h3 (add_mset n H) ms (cs @ [mi]) ok n ds h'"
      proof (rule Cons.IH [where i = "rte_pktmbuf_reset nb'"])
        show "set ms \<inter> set ((cs @ [mi]) @ [n]) = {}" using Cons.prems(3,4) nH by auto
        show "set ms \<subseteq> set_mset (add_mset n H)" using Cons.prems(3) by auto
        show "distinct ((cs @ [mi]) @ [n])" using Cons.prems(6) csH nH by auto
        show "set (cs @ [mi]) \<subseteq> set_mset (add_mset n H)" using csH by auto
        show "pools h3 p \<noteq> None" using a(3) pp by (metis map_option_is_None option.distinct(1))
        show "refs h3 (add_mset n H) n = 1" by (simp add: n(3))
      qed (use n src path lim3 f(2) dir in simp_all)
      then obtain ok h' ds where IH: "clone_loop f lcore p mi n m' (nseg + 1) h3
          = Inr (ok, last (n # ds), nseg + 1 + of_nat (length (n # ds)), h')" "cloned h3 (add_mset n H) ms (cs @ [mi]) ok n ds h'"
        by blast
      have v3: "view h3 x = view h2 x" if "x \<noteq> n" for x using n(6) that by (simp add: view_def)
      have v: "view h' x = view h2 x" if "x \<in># H" for x
        using IH(2) that nH v3 [of x] by (cases "x = n") (simp_all add: cloned_def)
      have vms: "map (view h3) ms = map (view h) ms"
      proof (rule map_cong [OF refl])
        fix x assume x: "x \<in> set ms"
        then have "x \<noteq> n" "x \<noteq> mi" using Cons.prems(3,4) nH by auto
        then show "view h3 x = view h x" using v3 r(6) by simp
      qed
      have "cloned h H (m # ms) cs ok mi (n # ds) h'"
        unfolding cloned_def
      proof (intro conjI)
        show "minv h' (H + mset (n # ds))" using IH(2) by (simp add: cloned_def)
        show "\<exists>q. seg_path h' (Some (hd (cs @ [mi]))) (cs @ mi # n # ds) q"
        proof -
          have "hd ((cs @ [mi]) @ [n]) = hd (cs @ [mi])" by (cases cs) simp_all
          then have "\<exists>q. seg_path h' (Some (hd (cs @ [mi]))) ((cs @ [mi]) @ n # ds) q"
            using IH(2) unfolding cloned_def by presburger
          moreover have "(cs @ [mi]) @ n # ds = cs @ mi # n # ds" by simp
          ultimately show ?thesis by (simp only:)
        qed
        show "distinct (cs @ mi # n # ds)" using IH(2) by (simp add: cloned_def)
        show "set (n # ds) \<inter> set_mset H = {}" using IH(2) nH by (auto simp: cloned_def)
        show "if ok then map (view h') (mi # n # ds) = map (view h) (m # ms) else length (mi # n # ds) < length (m # ms)"
          using IH(2) v [OF Cons.prems(11)] r(5) b(1) vms by (auto simp: cloned_def split: if_splits)
        show "\<forall>x\<in>set_mset H - {mi}. view h' x = view h x" using v r(6) by auto
        have "kept (set_mset (add_mset n H) - set ((cs @ [mi]) @ [n])) h3 h'" using IH(2) by (simp add: cloned_def)
        from kept_trans [OF k03 this] show "kept (set_mset H - set (cs @ [mi])) h h'"
          by (rule kept_mono) (use nH in auto)
      qed
      then show ?thesis using run Some IH(1)
        by (intro exI [of _ ok] exI [of _ h'] exI [of _ "n # ds"]) (simp add: ac_simps)
    qed
  qed
qed simp



lemma kept_set: "mbufs h m = Some b \<Longrightarrow> kept (UNIV - {m}) h (mbuf_set m b' h)"
  by (auto simp: kept_def refcnt_same)

lemma refs_bound:
  assumes "minv h H"
  shows "refs h H x \<le> size H"
proof -
  have held: "attached h x \<subseteq> set_mset (filter_mset (\<lambda>y. y \<noteq> x) H)"
  proof
    fix i assume "i \<in> attached h x"
    then obtain b where b: "mbufs h i = Some b" "RTE_MBUF_INDIRECT b" "rte_mbuf_from_indirect b = x"
      by (auto simp: attached_def)
    then have "0 < count H i" and "\<exists>d. mbufs h x = Some d \<and> RTE_MBUF_DIRECT d"
      using minvD(3) [OF assms b(1)] by (auto simp: mbuf_ok_def)
    then show "i \<in># filter_mset (\<lambda>y. y \<noteq> x) H" using b by (auto simp: RTE_MBUF_DIRECT_def)
  qed
  have "card (attached h x) \<le> card (set_mset (filter_mset (\<lambda>y. y \<noteq> x) H))" by (rule card_mono [OF _ held]) simp
  also have "\<dots> \<le> size (filter_mset (\<lambda>y. y \<noteq> x) H)" by (metis size_mset_set size_mset_mono mset_set_set_mset_msubset finite_set_mset)
  finally have "refs h H x \<le> count H x + size (filter_mset (\<lambda>y. y \<noteq> x) H)" by (simp add: refs_def)
  also have "count H x = size (filter_mset (\<lambda>y. y = x) H)" by (simp add: filter_eq_replicate_mset)
  also have "size (filter_mset (\<lambda>y. y = x) H) + size (filter_mset (\<lambda>y. y \<noteq> x) H) = size H"
    by (metis multiset_partition size_union)
  finally show ?thesis .
qed

lemma clone_inv:
  assumes inv: "minv h H" and src: "seg_chain h (Some md) ms" "set ms \<subseteq> set_mset H"
    and p: "pools h p \<noteq> None" and lim: "\<And>x. refs h H x + length ms < 65535" and fuel: "length ms \<le> fuel"
  shows "\<exists>r h'. rte_pktmbuf_clone fuel lcore md p h = Inr (r, h') \<and> kept (set_mset H) h h'
    \<and> (case r of None \<Rightarrow> minv h' H
       | Some mc \<Rightarrow> \<exists>cs. minv h' (H + mset cs) \<and> seg_chain h' (Some mc) cs \<and> distinct cs \<and> set cs \<inter> set_mset H = {}
           \<and> pkt_data h' cs = pkt_data h ms \<and> length cs = length ms)"
proof -
  obtain pp where pp: "pools h p = Some pp" using p by auto
  obtain r h1 where a: "rte_pktmbuf_alloc lcore p h = Inr (r, h1)" "mem_bytes h1 = mem_bytes h"
    "\<forall>q. map_option pool_priv (pools h1 q) = map_option pool_priv (pools h q)"
    "case r of None \<Rightarrow> minv h1 H \<and> mbufs h1 = mbufs h
     | Some n \<Rightarrow> minv h1 (add_mset n H) \<and> refs h H n = 0 \<and> refs h1 (add_mset n H) = (refs h H)(n := 1) \<and>
         (\<exists>b. mbufs h n = Some b \<and> RTE_MBUF_DIRECT b \<and> mb_pool b = p \<and> mbufs h1 = (mbufs h)(n := Some (rte_pktmbuf_reset b)))"
    using alloc_inv [OF inv pp, of lcore] by blast
  show ?thesis
  proof (cases r)
    case None
    then show ?thesis using a by (auto simp: rte_pktmbuf_clone_def kept_def refcnt_same)
  next
    case (Some mc)
    then obtain i where mc: "minv h1 (add_mset mc H)" "refs h H mc = 0" "refs h1 (add_mset mc H) = (refs h H)(mc := 1)"
      "mbufs h mc = Some i" "mbufs h1 = (mbufs h)(mc := Some (rte_pktmbuf_reset i))" using a(4) by auto
    have nH: "mc \<notin># H" using mc(2) by (auto simp: refs_def not_in_iff)
    have k1: "kept (UNIV - {mc}) h h1" using a(2,3) mc(4,5) by (auto simp: kept_def refcnt_same)
    have src1: "seg_chain h1 (Some md) ms" by (rule seg_chain_kept [OF src(1) k1]) (use src(2) nH in auto)
    then obtain b where b: "mbufs h1 md = Some b" by (cases ms) auto
    have dir: "RTE_MBUF_DIRECT (rte_pktmbuf_reset i)" by (simp add: RTE_MBUF_DIRECT_def RTE_MBUF_INDIRECT_def)
    have p1: "pools h1 p \<noteq> None" using a(3) p by (metis map_option_is_None)
    have lim1: "refs h1 (add_mset mc H) x + length ms \<le> 65535" for x using lim [of x] by (simp add: mc(3))
    have "\<exists>ok h2 ds. clone_loop fuel lcore p mc mc md 0 h1 = Inr (ok, last (mc # ds), 0 + of_nat (length (mc # ds)), h2)
        \<and> cloned h1 (add_mset mc H) ms [] ok mc ds h2"
      by (rule clone_loop_inv [OF mc(1) src1 _ _ _ _ _ _ dir, where cs = "[]"])
         (use src(2) nH mc(3,5) lim1 p1 fuel in auto)
    then obtain ok h2 ds where c: "clone_loop fuel lcore p mc mc md 0 h1 = Inr (ok, last (mc # ds), of_nat (length (mc # ds)), h2)"
      "cloned h1 (add_mset mc H) ms [] ok mc ds h2" by auto
    have inv2: "minv h2 (add_mset mc H + mset ds)" using c(2) by (simp add: cloned_def)
    obtain q where q: "seg_path h2 (Some mc) (mc # ds) q" using c(2) by (auto simp: cloned_def)
    have dist: "distinct (mc # ds)" using c(2) by (simp add: cloned_def)
    obtain xs l where xl: "mc # ds = xs @ [l]" by (metis append_butlast_last_id list.discI)
    then have l: "last (mc # ds) = l" "l \<notin> set xs" using dist by (simp_all only: last_snoc) auto
    obtain r1 where r1: "seg_path h2 (Some mc) xs r1" "r1 = Some l" using q unfolding xl by (auto simp: seg_path_append)
    obtain lb where lb: "mbufs h2 l = Some lb" using q unfolding xl by (auto simp: seg_path_append)
    let ?h3 = "mbuf_set l (lb\<lparr>next_seg := None\<rparr>) h2"
    have inv3: "minv ?h3 (add_mset mc H + mset ds)" by (rule minv_upd [OF inv2 lb]) (simp add: same_refs_def)
    have k3: "kept (UNIV - {l}) h2 ?h3" by (rule kept_set [OF lb])
    have "seg_path ?h3 (Some mc) xs r1" by (rule seg_chain_kept [OF r1(1) k3]) (use l in auto)
    then have path3: "seg_chain ?h3 (Some mc) (mc # ds)" unfolding xl using r1(2) by (auto simp: seg_path_append)
    then obtain mb where mb: "mbufs ?h3 mc = Some mb" by auto
    let ?mb = "mb\<lparr>nb_segs := ucast (of_nat (length (mc # ds)) :: uint8), pkt_len := pkt_len b\<rparr>"
    let ?h4 = "mbuf_set mc ?mb ?h3"
    have inv4: "minv ?h4 (add_mset mc H + mset ds)" by (rule minv_upd [OF inv3 mb]) (simp add: same_refs_def)
    have path4: "seg_chain ?h4 (Some mc) (mc # ds)"
      by (rule seg_path_cong [OF path3]) (use mb in auto)
    have lset: "l \<in> set (mc # ds)" unfolding xl by simp
    have fresh: "set (mc # ds) \<inter> set_mset H = {}" using c(2) nH by (auto simp: cloned_def)
    have k04: "kept (set_mset H) h ?h4"
    proof -
      have "kept (set_mset (add_mset mc H) - set ([] @ [mc])) h1 h2" using c(2) by (simp add: cloned_def)
      then have "kept (set_mset H) h1 h2" by (rule kept_mono) (use nH in auto)
      then have "kept ((UNIV - {mc}) \<inter> set_mset H) h h2" by (rule kept_trans [OF k1])
      then have k02: "kept (set_mset H) h h2" by (rule kept_mono) (use nH in auto)
      have "kept ((UNIV - {l}) \<inter> (UNIV - {mc})) h2 ?h4" by (rule kept_trans [OF kept_set [OF lb] kept_set [OF mb]])
      then have "kept (set_mset H \<inter> ((UNIV - {l}) \<inter> (UNIV - {mc}))) h ?h4" by (rule kept_trans [OF k02])
      then show ?thesis by (rule kept_mono) (use fresh lset in auto)
    qed
    have run: "rte_pktmbuf_clone fuel lcore md p h =
       (if ok then Inr (Some mc, ?h4) else cbind (rte_pktmbuf_free fuel lcore (Some mc) ?h4) (\<lambda>h. Inr (None, h)))"
      unfolding rte_pktmbuf_clone_def using a(1) Some b c(1) lb mb unfolding l(1) by (simp add: mbuf_upd_def)
    show ?thesis
    proof (cases ok)
      case True
      have "view (mbuf_set x (f b) k) = view k"
        if "mbufs k x = Some b" "buf_addr (f b) = buf_addr b" "data_off (f b) = data_off b" "data_len (f b) = data_len b" for x b f k
        using that by (auto simp: view_def fun_eq_iff)
      from this [OF mb, of "\<lambda>_. ?mb"] this [OF lb, of "\<lambda>_. lb\<lparr>next_seg := None\<rparr>"] have v4: "view ?h4 = view h2" by simp
      have v: "map (view h2) (mc # ds) = map (view h1) ms" using c(2) True by (simp add: cloned_def)
      have v1: "view h1 x = view h x" if "x \<in># H" for x using that nH mc(5) by (auto simp: view_def)
      have "map (view ?h4) (mc # ds) = map (view h) ms" unfolding v4 v using src(2) v1 by auto
      moreover have "mem_bytes ?h4 = mem_bytes h" using k04 by (simp add: kept_def)
      ultimately have pd: "pkt_data ?h4 (mc # ds) = pkt_data h ms" by (rule pkt_data_view)
      have len: "length (mc # ds) = length ms" using arg_cong [OF v, of length] by simp
      have e: "H + mset (mc # ds) = add_mset mc H + mset ds" by simp
      have "\<exists>cs. minv ?h4 (H + mset cs) \<and> seg_chain ?h4 (Some mc) cs \<and> distinct cs
          \<and> set cs \<inter> set_mset H = {} \<and> pkt_data ?h4 cs = pkt_data h ms \<and> length cs = length ms"
        using inv4 [folded e] path4 dist fresh pd len by blast
      then show ?thesis using run True k04 by (intro exI [of _ "Some mc"] exI [of _ ?h4]) simp
    next
      case False
      have sub: "mset (mc # ds) \<subseteq># add_mset mc H + mset ds" by simp
      have "length (mc # ds) \<le> fuel" using c(2) False fuel by (simp add: cloned_def)
      from free_inv [OF inv4 path4 sub this, of lcore]
      obtain h5 where h5: "rte_pktmbuf_free fuel lcore (Some mc) ?h4 = Inr h5" "minv h5 H" "kept (set_mset H) ?h4 h5" by auto
      have "kept (set_mset H) h h5" using kept_trans [OF k04 h5(3)] by simp
      then show ?thesis using run False h5 by simp
    qed
  qed
qed

end
