(* ===== verification/Mbuf_Owner.thy ===== *)
theory Mbuf_Owner
  imports Mbuf_Correct
begin

text \<open>
  The interface of packet buffers for a client that holds packets (\<open>packet_store\<close>), that the
  operations of the model provide it, and that a new pool provides a store to start from.
\<close>

section \<open>Clients of packet buffers\<close>

datatype packet_op = Pkt_alloc nat addr | Pkt_free nat nat | Pkt_clone nat nat addr

text \<open>
  A client that holds the packets with the given first segments; it frees and clones packets it
  holds, named by their position, and allocates from pools that exist.
\<close>

fun packet_client ::
  "('h \<Rightarrow> addr \<Rightarrow> bool) \<Rightarrow> (nat \<Rightarrow> addr \<Rightarrow> 'h \<Rightarrow> (addr option \<times> 'h) cres) \<Rightarrow> (nat \<Rightarrow> addr option \<Rightarrow> 'h \<Rightarrow> 'h cres) \<Rightarrow>
   (nat \<Rightarrow> addr \<Rightarrow> addr \<Rightarrow> 'h \<Rightarrow> (addr option \<times> 'h) cres) \<Rightarrow> 'h \<Rightarrow> addr list \<Rightarrow> packet_op list \<Rightarrow> (addr list \<times> 'h) cres" where
  "packet_client has_pool alloc free clone h heads [] = Inr (heads, h)"
| "packet_client has_pool alloc free clone h heads (Pkt_alloc lcore p # ops) =
     (if has_pool h p
      then cbind (alloc lcore p h) (\<lambda>(r, h).
           packet_client has_pool alloc free clone h (case r of None \<Rightarrow> heads | Some m \<Rightarrow> m # heads) ops)
      else packet_client has_pool alloc free clone h heads ops)"
| "packet_client has_pool alloc free clone h heads (Pkt_free lcore k # ops) =
     (if k < length heads
      then cbind (free lcore (Some (heads ! k)) h) (\<lambda>h.
           packet_client has_pool alloc free clone h (take k heads @ drop (Suc k) heads) ops)
      else packet_client has_pool alloc free clone h heads ops)"
| "packet_client has_pool alloc free clone h heads (Pkt_clone lcore k p # ops) =
     (if k < length heads \<and> has_pool h p
      then cbind (clone lcore (heads ! k) p h) (\<lambda>(r, h).
           packet_client has_pool alloc free clone h (case r of None \<Rightarrow> heads | Some m \<Rightarrow> m # heads) ops)
      else packet_client has_pool alloc free clone h heads ops)"

text \<open>The contract of the buffer operations: \<open>owns h css\<close> when the client holds the packets \<open>css\<close>, each a list of segments.\<close>

locale packet_store =
  fixes owns :: "'h \<Rightarrow> addr list list \<Rightarrow> bool"
    and has_pool :: "'h \<Rightarrow> addr \<Rightarrow> bool"
    and alloc :: "nat \<Rightarrow> addr \<Rightarrow> 'h \<Rightarrow> (addr option \<times> 'h) cres"
    and free :: "nat \<Rightarrow> addr option \<Rightarrow> 'h \<Rightarrow> 'h cres"
    and clone :: "nat \<Rightarrow> addr \<Rightarrow> addr \<Rightarrow> 'h \<Rightarrow> (addr option \<times> 'h) cres"
  assumes alloc_law: "owns h css \<Longrightarrow> has_pool h p \<Longrightarrow>
      \<exists>r h'. alloc lcore p h = Inr (r, h') \<and> owns h' (case r of None \<Rightarrow> css | Some m \<Rightarrow> [m] # css)"
    and free_law: "owns h (xs @ ms # ys) \<Longrightarrow> \<exists>h'. free lcore (Some (hd ms)) h = Inr h' \<and> owns h' (xs @ ys)"
    and clone_law: "owns h css \<Longrightarrow> ms \<in> set css \<Longrightarrow> has_pool h p \<Longrightarrow>
      \<exists>r h'. clone lcore (hd ms) p h = Inr (r, h')
        \<and> (case r of None \<Rightarrow> owns h' css | Some m \<Rightarrow> \<exists>cs. hd cs = m \<and> owns h' (cs # css))"
begin

lemma client_owns:
  "owns h css \<Longrightarrow> \<exists>h' css'. packet_client has_pool alloc free clone h (map hd css) ops = Inr (map hd css', h') \<and> owns h' css'"
proof (induction ops arbitrary: h css)
  case Nil
  then show ?case by auto
next
  case (Cons op ops)
  show ?case
  proof (cases op)
    case (Pkt_alloc lcore p)
    show ?thesis
    proof (cases "has_pool h p")
      case True
      obtain r h1 where a: "alloc lcore p h = Inr (r, h1)" "owns h1 (case r of None \<Rightarrow> css | Some m \<Rightarrow> [m] # css)"
        using alloc_law [OF Cons.prems True] by blast
      then show ?thesis using Cons.IH [OF a(2)] True Pkt_alloc by (cases r) auto
    qed (use Cons Pkt_alloc in auto)
  next
    case (Pkt_free lcore k)
    show ?thesis
    proof (cases "k < length css")
      case True
      then have "owns h (take k css @ css ! k # drop (Suc k) css)" using Cons.prems by (simp add: id_take_nth_drop [symmetric])
      then obtain h1 where f: "free lcore (Some (hd (css ! k))) h = Inr h1" "owns h1 (take k css @ drop (Suc k) css)"
        using free_law by blast
      then show ?thesis using Cons.IH [OF f(2)] True Pkt_free by (simp add: take_map drop_map)
    qed (use Cons Pkt_free in auto)
  next
    case (Pkt_clone lcore k p)
    show ?thesis
    proof (cases "k < length css \<and> has_pool h p")
      case True
      then have "css ! k \<in> set css" by simp
      then obtain r h1 where c: "clone lcore (hd (css ! k)) p h = Inr (r, h1)"
        "case r of None \<Rightarrow> owns h1 css | Some m \<Rightarrow> \<exists>cs. hd cs = m \<and> owns h1 (cs # css)"
        using clone_law [OF Cons.prems] True by blast
      show ?thesis
      proof (cases r)
        case None
        then show ?thesis using c Cons.IH [of h1 css] True Pkt_clone by auto
      next
        case (Some m)
        then obtain cs where cs: "hd cs = m" "owns h1 (cs # css)" using c(2) by auto
        then show ?thesis using c(1) Cons.IH [OF cs(2)] True Some Pkt_clone by auto
      qed
    qed (use Cons Pkt_clone in auto)
  qed
qed

end

text \<open>
  The store of the model: what is held are the segments of the packets, all different. A store of
  at most 32767 buffers keeps the 16-bit reference counts from overflowing.
\<close>

definition store_owns :: "mbuf_mem \<Rightarrow> addr list list \<Rightarrow> bool" where
  "store_owns h css \<longleftrightarrow> minv h (mset (concat css)) \<and> distinct (concat css)
     \<and> (\<forall>ms\<in>set css. ms \<noteq> [] \<and> seg_chain h (Some (hd ms)) ms) \<and> card (dom (mbufs h)) \<le> 32767"

definition store_has_pool :: "mbuf_mem \<Rightarrow> addr \<Rightarrow> bool" where
  "store_has_pool h p \<longleftrightarrow> pools h p \<noteq> None"

lemma store_owns_kept:
  assumes "kept X h h'" and "\<forall>ms\<in>set css. ms \<noteq> [] \<and> seg_chain h (Some (hd ms)) ms" and "set (concat css) \<subseteq> X"
  shows "\<forall>ms\<in>set css. ms \<noteq> [] \<and> seg_chain h' (Some (hd ms)) ms"
proof
  fix ms assume "ms \<in> set css"
  moreover from this have "set ms \<subseteq> X" using assms(3) by auto
  ultimately show "ms \<noteq> [] \<and> seg_chain h' (Some (hd ms)) ms"
    using assms(2) seg_chain_kept [OF _ assms(1)] by blast
qed

lemma store_lengths:
  assumes "store_owns h css"
  shows "length (concat css) \<le> 32767" "ms \<in> set css \<Longrightarrow> length ms \<le> length (concat css)"
proof -
  have "length (concat css) = card (set (concat css))" using assms by (simp only: store_owns_def distinct_card)
  also have "\<dots> \<le> card (dom (mbufs h))"
    using assms by (intro card_mono) (auto simp: store_owns_def minv_def)
  finally show "length (concat css) \<le> 32767" using assms by (simp add: store_owns_def)
  show "length ms \<le> length (concat css)" if "ms \<in> set css"
    using member_le_sum_list [of "length ms" "map length css"] that by (simp add: length_concat)
qed

lemma store_alloc:
  assumes own: "store_owns h css" and p: "store_has_pool h p"
  shows "\<exists>r h'. rte_pktmbuf_alloc lcore p h = Inr (r, h') \<and> store_owns h' (case r of None \<Rightarrow> css | Some m \<Rightarrow> [m] # css)
    \<and> kept (set (concat css)) h h'"
proof -
  let ?H = "mset (concat css)"
  have inv: "minv h ?H" using own by (simp add: store_owns_def)
  obtain pp where pp: "pools h p = Some pp" using p by (auto simp: store_has_pool_def)
  obtain r h' where a: "rte_pktmbuf_alloc lcore p h = Inr (r, h')" "mem_bytes h' = mem_bytes h"
    "\<forall>q. map_option pool_priv (pools h' q) = map_option pool_priv (pools h q)"
    "case r of None \<Rightarrow> minv h' ?H \<and> mbufs h' = mbufs h
     | Some n \<Rightarrow> minv h' (add_mset n ?H) \<and> refs h ?H n = 0 \<and> refs h' (add_mset n ?H) = (refs h ?H)(n := 1) \<and>
         (\<exists>b. mbufs h n = Some b \<and> RTE_MBUF_DIRECT b \<and> mb_pool b = p \<and> mbufs h' = (mbufs h)(n := Some (rte_pktmbuf_reset b)))"
    using alloc_inv [OF inv pp, of lcore] by blast
  show ?thesis
  proof (cases r)
    case None
    then have "kept (set (concat css)) h h'" using a by (auto simp: kept_def refcnt_same)
    moreover have "store_owns h' css"
      unfolding store_owns_def using a None own store_owns_kept [OF \<open>kept _ _ _\<close>]
      by (auto simp: store_owns_def)
    ultimately show ?thesis using a(1) None by auto
  next
    case (Some m)
    then obtain b where m: "minv h' (add_mset m ?H)" "refs h ?H m = 0" "mbufs h m = Some b" "mbufs h' = (mbufs h)(m := Some (rte_pktmbuf_reset b))"
      using a(4) by auto
    have nm: "m \<notin> set (concat css)" using m(2) by (auto simp: refs_def)
    have k: "kept (set (concat css)) h h'" using a(2,3) m(3,4) nm by (auto simp: kept_def refcnt_same)
    have "\<forall>ms\<in>set css. ms \<noteq> [] \<and> seg_chain h' (Some (hd ms)) ms"
      by (rule store_owns_kept [OF k]) (use own in \<open>auto simp: store_owns_def\<close>)
    moreover have "dom (mbufs h') = dom (mbufs h)" using k by (simp add: kept_def)
    ultimately have "store_owns h' ([m] # css)"
      using m nm own by (simp add: store_owns_def)
    then show ?thesis using a(1) Some k by auto
  qed
qed

lemma store_free:
  assumes own: "store_owns h (xs @ ms # ys)" and fuel: "32767 \<le> fuel"
  shows "\<exists>h'. rte_pktmbuf_free fuel lcore (Some (hd ms)) h = Inr h' \<and> store_owns h' (xs @ ys) \<and> kept (set (concat (xs @ ys))) h h'"
proof -
  let ?H = "mset (concat (xs @ ms # ys))"
  have inv: "minv h ?H" and c: "seg_chain h (Some (hd ms)) ms" using own by (auto simp: store_owns_def)
  have len: "length ms \<le> fuel" using store_lengths(1) [OF own] store_lengths(2) [OF own, of ms] fuel by auto
  have sub: "mset ms \<subseteq># ?H" by simp
  have d: "?H - mset ms = mset (concat (xs @ ys))" by simp
  obtain h' where f: "rte_pktmbuf_free fuel lcore (Some (hd ms)) h = Inr h'" "minv h' (mset (concat (xs @ ys)))"
    "kept (set (concat (xs @ ys))) h h'"
    using free_inv [OF inv c sub len, of lcore] unfolding d set_mset_mset by blast
  have "\<forall>ns\<in>set (xs @ ys). ns \<noteq> [] \<and> seg_chain h' (Some (hd ns)) ns"
    by (rule store_owns_kept [OF f(3)]) (use own in \<open>auto simp: store_owns_def\<close>)
  moreover have "dom (mbufs h') = dom (mbufs h)" using f(3) by (simp add: kept_def)
  ultimately have "store_owns h' (xs @ ys)" using f(2) own by (auto simp: store_owns_def)
  then show ?thesis using f by blast
qed

lemma store_clone:
  assumes own: "store_owns h css" and ms: "ms \<in> set css" and p: "store_has_pool h p" and fuel: "32767 \<le> fuel"
  shows "\<exists>r h'. rte_pktmbuf_clone fuel lcore (hd ms) p h = Inr (r, h') \<and> kept (set (concat css)) h h'
    \<and> (case r of None \<Rightarrow> store_owns h' css
       | Some m \<Rightarrow> \<exists>cs. hd cs = m \<and> store_owns h' (cs # css) \<and> pkt_data h' cs = pkt_data h ms \<and> length cs = length ms)"
proof -
  let ?H = "mset (concat css)"
  have inv: "minv h ?H" and c: "seg_chain h (Some (hd ms)) ms" "ms \<noteq> []" using own ms by (auto simp: store_owns_def)
  note len = store_lengths [OF own]
  have lim: "refs h ?H x + length ms < 65535" for x
    using refs_bound [OF inv, of x] len(1) len(2) [OF ms] by simp
  have sub: "set ms \<subseteq> set_mset ?H" using ms by auto
  obtain r h' where r: "rte_pktmbuf_clone fuel lcore (hd ms) p h = Inr (r, h')" "kept (set_mset ?H) h h'"
    "case r of None \<Rightarrow> minv h' ?H
       | Some mc \<Rightarrow> \<exists>cs. minv h' (?H + mset cs) \<and> seg_chain h' (Some mc) cs \<and> distinct cs \<and> set cs \<inter> set_mset ?H = {}
           \<and> pkt_data h' cs = pkt_data h ms \<and> length cs = length ms"
    using clone_inv [OF inv c(1) sub _ lim, of p fuel lcore] p len(1) len(2) [OF ms] fuel
    by (auto simp: store_has_pool_def)
  have k: "kept (set (concat css)) h h'" using r(2) by simp
  have chains: "\<forall>ns\<in>set css. ns \<noteq> [] \<and> seg_chain h' (Some (hd ns)) ns"
    by (rule store_owns_kept [OF k]) (use own in \<open>auto simp: store_owns_def\<close>)
  have dom: "dom (mbufs h') = dom (mbufs h)" using k by (simp add: kept_def)
  show ?thesis
  proof (cases r)
    case None
    then show ?thesis using r chains dom own k by (simp add: store_owns_def)
  next
    case (Some mc)
    then obtain cs where cs: "minv h' (?H + mset cs)" "seg_chain h' (Some mc) cs" "distinct cs" "set cs \<inter> set_mset ?H = {}"
      "pkt_data h' cs = pkt_data h ms" "length cs = length ms" using r(3) by auto
    have "cs \<noteq> []" "hd cs = mc" using cs(2,6) c(2) by (cases cs; auto)+
    moreover from this have "store_owns h' (cs # css)"
      using cs chains dom own by (simp add: store_owns_def ac_simps)
    ultimately show ?thesis using r(1) Some k cs(5,6) by auto
  qed
qed

text \<open>The same store with the set of its buffers, which no operation changes.\<close>

definition store_holds :: "addr set \<Rightarrow> mbuf_mem \<Rightarrow> addr list list \<Rightarrow> bool" where
  "store_holds M h css \<longleftrightarrow> store_owns h css \<and> dom (mbufs h) = M"

lemma kept_dom: "kept X h h' \<Longrightarrow> dom (mbufs h') = dom (mbufs h)"
  by (simp add: kept_def)

interpretation pkts: packet_store "store_holds M" store_has_pool rte_pktmbuf_alloc "rte_pktmbuf_free 32767" "rte_pktmbuf_clone 32767" for M
proof unfold_locales
  show "\<exists>r h'. rte_pktmbuf_alloc lcore p h = Inr (r, h') \<and> store_holds M h' (case r of None \<Rightarrow> css | Some m \<Rightarrow> [m] # css)"
    if "store_holds M h css" "store_has_pool h p" for h css p lcore
    using store_alloc [of h css p lcore] that unfolding store_holds_def by (meson kept_dom)
  show "\<exists>h'. rte_pktmbuf_free 32767 lcore (Some (hd ms)) h = Inr h' \<and> store_holds M h' (xs @ ys)"
    if "store_holds M h (xs @ ms # ys)" for h xs ms ys lcore
    using store_free [of h xs ms ys 32767 lcore] that unfolding store_holds_def by (meson kept_dom order_refl)
  show "\<exists>r h'. rte_pktmbuf_clone 32767 lcore (hd ms) p h = Inr (r, h')
        \<and> (case r of None \<Rightarrow> store_holds M h' css | Some m \<Rightarrow> \<exists>cs. hd cs = m \<and> store_holds M h' (cs # css))"
    if own: "store_holds M h css" "ms \<in> set css" "store_has_pool h p" for h css ms p lcore
  proof -
    obtain r h' where c: "rte_pktmbuf_clone 32767 lcore (hd ms) p h = Inr (r, h')" "kept (set (concat css)) h h'"
      "case r of None \<Rightarrow> store_owns h' css
       | Some m \<Rightarrow> \<exists>cs. hd cs = m \<and> store_owns h' (cs # css) \<and> pkt_data h' cs = pkt_data h ms \<and> length cs = length ms"
      using store_clone [of h css ms p 32767 lcore] own unfolding store_holds_def by blast
    then show ?thesis using own(1) kept_dom [OF c(2)] by (cases r) (auto simp: store_holds_def)
  qed
qed

section \<open>Creating a pool of packet buffers\<close>

definition fresh_mbuf :: "addr \<Rightarrow> pktmbuf_pool \<Rightarrow> addr \<Rightarrow> rte_mbuf \<Rightarrow> bool" where
  "fresh_mbuf p pp m b \<longleftrightarrow> mb_pool b = p \<and> refcnt b = 1 \<and> ol_flags b = 0 \<and> next_seg b = None
     \<and> buf_addr b = m + SIZEOF_RTE_MBUF + unat (priv_size b) \<and> priv_size b = rte_pktmbuf_priv_size pp
     \<and> buf_len b = rte_pktmbuf_data_room_size pp"

lemma pktmbuf_init_fresh:
  assumes "pools h p = Some pp" and "m \<in> hdr_obj ` set (elt_list (pool_mp pp))"
  shows "\<exists>h' b. rte_pktmbuf_init p m h = Inr h' \<and> fresh_mbuf p pp m b
    \<and> mbufs h' m = Some b \<and> (\<forall>x. x \<noteq> m \<longrightarrow> mbufs h' x = mbufs h x) \<and> pools h' = pools h"
  using assms virt2phy_ok [OF assms(2)] by (auto simp: rte_pktmbuf_init_def fresh_mbuf_def Let_def mbuf_set_def)

text \<open>Initialising all objects of a new pool gives a store in which nothing is held.\<close>

lemma obj_iter_init:
  assumes p: "pools h p = Some pp" and mp: "pool_mp pp = mp" and e: "mbufs h = Map.empty"
  shows "\<exists>h'. rte_mempool_obj_iter mp (\<lambda>mp m i. rte_pktmbuf_init p m) h = Inr (length (elt_list mp), h')
    \<and> dom (mbufs h') = set (pool_objs mp) \<and> pools h' = pools h
    \<and> (\<forall>m b. mbufs h' m = Some b \<longrightarrow> fresh_mbuf p pp m b)"
proof -
  let ?I = "\<lambda>i (h' :: mbuf_mem). dom (mbufs h') = set (take i (pool_objs mp)) \<and> pools h' = pools h
    \<and> (\<forall>m b. mbufs h' m = Some b \<longrightarrow> fresh_mbuf p pp m b)"
  let ?f = "\<lambda>n. rte_pktmbuf_init p (hdr_obj (elt_list mp ! n))"
  have "\<exists>h'. c_for 0 (length (elt_list mp)) ?f h = Inr h' \<and> ?I (length (elt_list mp)) h'"
  proof (rule c_for_rule [where I = ?I])
    fix i k assume i: "i < length (elt_list mp)" and I: "?I i k"
    let ?m = "hdr_obj (elt_list mp ! i)"
    have in_list: "?m \<in> hdr_obj ` set (elt_list (pool_mp pp))" using i mp by simp
    obtain h' b where h': "rte_pktmbuf_init p ?m k = Inr h'" "fresh_mbuf p pp ?m b" "mbufs h' ?m = Some b"
      "\<forall>x. x \<noteq> ?m \<longrightarrow> mbufs h' x = mbufs k x" "pools h' = pools k"
      using pktmbuf_init_fresh [of k p pp ?m] I p in_list by auto
    then have "mbufs h' = (mbufs k)(?m := Some b)" by (auto simp: fun_eq_iff)
    with h' show "\<exists>h'. ?f i k = Inr h' \<and> ?I (Suc i) h'"
      using I i by (auto simp: take_Suc_conv_app_nth)
  qed (use e in simp_all)
  then show ?thesis by (auto simp: rte_mempool_obj_iter_def)
qed

lemma fresh_store_inv:
  assumes pool: "pools h = [p \<mapsto> pp]" and dom: "dom (mbufs h) = set (pool_objs mp)" and mp: "pool_mp pp = mp"
    and fresh: "\<And>m b. mbufs h m = Some b \<Longrightarrow> fresh_mbuf p pp m b"
    and holds: "pool_holds mp (mset (pool_objs mp))" "distinct (pool_objs mp)" "length (pool_objs mp) \<le> unat (mp_size mp)"
  shows "minv h {#}"
proof -
  have dir: "\<not> RTE_MBUF_INDIRECT b" if "mbufs h m = Some b" for m b
    using fresh [OF that] by (simp add: fresh_mbuf_def RTE_MBUF_INDIRECT_def)
  have a: "attached h m = {}" for m using dir by (auto simp: attached_def)
  then have r: "refs h {#} m = 0" for m by (simp add: refs_def)
  have "objs_of h q = (if q = p then dom (mbufs h) else {})" for q
    using fresh by (auto simp: objs_of_def fresh_mbuf_def)
  then have o: "objs_of h q = (if q = p then set (pool_objs mp) else {})" for q by (simp only: dom)
  have u: "used h {#} q = {}" for q by (simp add: used_def r)
  have mb: "mbuf_ok h {#} m b" if "mbufs h m = Some b" for m b
  proof -
    have "m \<in> set (pool_objs mp)" using that by (simp only: dom [symmetric] domI)
    then show ?thesis using fresh [OF that] dir [OF that] pool mp by (auto simp: mbuf_ok_def r fresh_mbuf_def)
  qed
  have "pool_ok h {#} q qq" if "pools h q = Some qq" for q qq
  proof -
    have q: "q = p" "pool_mp qq = mp" using that pool mp by (auto split: if_splits)
    have "card (objs_of h q) \<le> unat (mp_size mp)" using holds(3) unfolding o q if_P [OF refl] distinct_card [OF holds(2)] .
    moreover have "mset (pool_objs mp) + mset_set (used h {#} q) = mset_set (objs_of h q)"
      unfolding o q u if_P [OF refl] by (simp only: mset_set_set [OF holds(2)]) simp
    ultimately show ?thesis using holds(1) unfolding pool_ok_def q by blast
  qed
  then show ?thesis using mb dom by (simp add: minv_def)
qed

definition empty_store :: "(addr \<Rightarrow> uint8) \<Rightarrow> mbuf_mem" where
  "empty_store mem = \<lparr>mbufs = Map.empty, mem_bytes = mem, pools = Map.empty\<rparr>"

lemma pool_create_owns:
  assumes c: "rte_pktmbuf_pool_create fuel env p name n cache_size psize room (empty_store mem) = Inr (Some (True, h))"
    and env: "env_ok env" and n: "0 < unat n" "unat n \<le> 32767" 
    and sz: "0 < unat (spread_factor env)" "unat (spread_factor env) < 2 ^ 16" "unat (spread_factor env) \<le> fuel"
    and d: "\<And>pp. pools h p = Some pp \<Longrightarrow> distinct (pool_objs (pool_mp pp))"
  shows "store_owns h [] \<and> card (dom (mbufs h)) = unat n \<and> (\<forall>q. pools h q \<noteq> None \<longleftrightarrow> q = p) \<and> objs_of h p = dom (mbufs h)
    \<and> (\<forall>m b. mbufs h m = Some b \<longrightarrow> buf_len b = room)"
proof -
  define elt where "elt = (of_nat SIZEOF_RTE_MBUF + ucast psize + ucast room :: uint32)"
  have "unat elt < 2 ^ 24"
  proof -
    have "unat (ucast psize :: uint32) < 2 ^ 16" "unat (ucast room :: uint32) < 2 ^ 16"
      using unat_lt2p [of psize] unat_lt2p [of room] by simp_all
    then show ?thesis by (simp add: elt_def SIZEOF_RTE_MBUF_def unat_word_ariths)
  qed
  let ?priv = "\<lparr>mbuf_data_room_size = room, mbuf_priv_size = psize\<rparr>"
  obtain mp0 where e: "rte_mempool_create_empty fuel env name n elt cache_size SIZEOF_POOL_PRIVATE 0 = Some (Inr mp0)"
    using c by (auto simp: rte_pktmbuf_pool_create_def Let_def elt_def split: option.splits sum.splits if_splits)
  obtain r mp1 where o': "rte_mempool_set_ops_byname mp0 ''ring_mp_mc'' = (r, mp1)" by fastforce
  have r: "r = 0"
    using c by (cases "r = 0") (auto simp: rte_pktmbuf_pool_create_def Let_def e [unfolded elt_def] o' cbind_eq_Inr_iff split: if_splits)
  then have o: "rte_mempool_set_ops_byname mp0 ''ring_mp_mc'' = (0, mp1)" using o' by simp
  note unfold = rte_pktmbuf_pool_create_def Let_def e [unfolded elt_def] o cbind_eq_Inr_iff
  obtain res where res: "rte_mempool_populate_default fuel env mp1 = Inr res"
    using c by (auto simp: unfold split: if_splits)
  obtain ret mp where res': "res = Some (ret, mp)"
    using c res by (cases res) (auto simp: unfold split: if_splits)
  then obtain m where p: "rte_mempool_populate_default fuel env mp1 = Inr (Some (ret, mp))" "0 \<le> ret"
    "rte_mempool_obj_iter mp (\<lambda>mp m i. rte_pktmbuf_init p m)
       (pool_set p (rte_pktmbuf_pool_init mp (Some ?priv)) (empty_store mem)) = Inr (m, h)"
    using c res by (auto simp: unfold split: if_splits)
  have "unat n < 2 ^ 27" using n(2) by simp
  then have holds: "pool_holds mp (mset (pool_objs mp))" "length (pool_objs mp) = unat n" "mp_size mp = n"
    using populated_holds [OF e o p(1,2) env n(1) _ _ \<open>unat elt < 2 ^ 24\<close> sz] by simp_all
  let ?pp = "rte_pktmbuf_pool_init mp (Some ?priv)"
  let ?h0 = "pool_set p ?pp (empty_store mem)"
  have pp: "pool_mp ?pp = mp" "rte_pktmbuf_data_room_size ?pp = room"
    by (simp_all add: rte_pktmbuf_pool_init_def rte_pktmbuf_data_room_size_def)
  have "\<exists>h'. rte_mempool_obj_iter mp (\<lambda>mp m i. rte_pktmbuf_init p m) ?h0 = Inr (length (elt_list mp), h')
    \<and> dom (mbufs h') = set (pool_objs mp) \<and> pools h' = pools ?h0
    \<and> (\<forall>m b. mbufs h' m = Some b \<longrightarrow> fresh_mbuf p ?pp m b)"
    by (rule obj_iter_init [OF _ pp(1)]) (simp_all add: empty_store_def)
  then have h: "dom (mbufs h) = set (pool_objs mp)" "pools h = [p \<mapsto> ?pp]" "\<forall>m b. mbufs h m = Some b \<longrightarrow> fresh_mbuf p ?pp m b"
    using p(3) by (auto simp: empty_store_def)
  have dist: "distinct (pool_objs mp)" using d [of ?pp] h(2) pp(1) by simp
  have "minv h {#}" by (rule fresh_store_inv [OF h(2,1) pp(1)]) (use h(3) holds dist in auto)
  moreover have "card (dom (mbufs h)) = unat n" using h(1) dist holds(2) by (simp only: distinct_card)
  moreover have "objs_of h p = dom (mbufs h)" using h(3) by (auto simp: objs_of_def fresh_mbuf_def)
  ultimately show ?thesis
    using h(2,3) n(2) pp(2) by (auto simp: store_owns_def fresh_mbuf_def)
qed

end
