(* ===== verification/Mbuf_Data.thy ===== *)
theory Mbuf_Data
  imports Mbuf_Owner
begin

text \<open>
  The data of packets: reading across segments, and making a packet contiguous.
\<close>

section \<open>Data of a segment\<close>

definition seg_ok :: "rte_mbuf \<Rightarrow> bool" where
  "seg_ok b \<longleftrightarrow> unat (data_off b) + unat (data_len b) \<le> unat (buf_len b)"

definition segs_ok :: "mbuf_mem \<Rightarrow> addr list \<Rightarrow> bool" where
  "segs_ok h ms \<longleftrightarrow> (\<forall>m\<in>set ms. \<exists>b. mbufs h m = Some b \<and> seg_ok b)"

text \<open>A packet whose first segment records its length.\<close>

definition pkt_ok :: "mbuf_mem \<Rightarrow> addr \<Rightarrow> addr list \<Rightarrow> bool" where
  "pkt_ok h m ms \<longleftrightarrow> seg_chain h (Some m) ms \<and> segs_ok h ms
     \<and> (\<exists>b. mbufs h m = Some b \<and> unat (pkt_len b) = length (pkt_data h ms))"

lemma length_bytes_at [simp]: "length (bytes_at f a n) = n"
  by (simp add: bytes_at_def)

lemma bytes_at_take_drop: "off + n \<le> k \<Longrightarrow> take n (drop off (bytes_at f a k)) = bytes_at f (a + off) n"
  by (rule nth_equalityI) (simp_all add: bytes_at_def add.assoc)

lemma seg_data_some [simp]: "mbufs h m = Some b \<Longrightarrow> seg_data h m = bytes_at (mem_bytes h) (rte_pktmbuf_mtod b) (unat (data_len b))"
  by (simp add: seg_data_def)

lemma pkt_data_Cons [simp]: "pkt_data h (m # ms) = seg_data h m @ pkt_data h ms"
  by (simp add: pkt_data_def)

lemma pkt_data_Nil [simp]: "pkt_data h [] = []"
  by (simp add: pkt_data_def)

lemma segs_ok_simps [simp]:
  "segs_ok h []" "segs_ok h (m # ms) \<longleftrightarrow> (\<exists>b. mbufs h m = Some b \<and> seg_ok b) \<and> segs_ok h ms"
  by (simp_all add: segs_ok_def)

lemma segs_ok_append [simp]: "segs_ok h (xs @ ys) \<longleftrightarrow> segs_ok h xs \<and> segs_ok h ys"
  by (auto simp: segs_ok_def)

lemma data_read_seg:
  assumes "mbufs h m = Some b" and "seg_ok b" and "off + n \<le> unat (data_len b)"
  shows "data_read h b off n = Inr (take n (drop off (seg_data h m)))"
  using assms by (simp add: data_read_def seg_ok_def bytes_at_take_drop rte_pktmbuf_mtod_def rte_pktmbuf_mtod_offset_def)

section \<open>Reading\<close>

lemma read_seek_finds:
  assumes "seg_chain h (Some m) ms" and "unat off < length (pkt_data h ms)" and "length ms \<le> fuel"
  shows "\<exists>seg off' ms1 ms2. read_seek fuel h m off = Inr (seg, off') \<and> ms = ms1 @ seg # ms2
    \<and> unat off' < length (seg_data h seg) \<and> seg_chain h (Some seg) (seg # ms2)
    \<and> drop (unat off) (pkt_data h ms) = drop (unat off') (pkt_data h (seg # ms2))"
  using assms
proof (induction ms arbitrary: m off fuel)
  case (Cons x ms)
  obtain b where b: "m = x" "mbufs h x = Some b" "seg_chain h (next_seg b) ms" using Cons.prems(1) by auto
  obtain f where f: "fuel = Suc f" "length ms \<le> f" using Cons.prems(3) by (cases fuel) auto
  show ?case
  proof (cases "ucast (data_len b) \<le> off")
    case False
    then have "unat off < unat (data_len b)" by (simp add: word_le_nat_alt)
    then show ?thesis using b f False
      by (intro exI [of _ x] exI [of _ off] exI [of _ "[]"] exI [of _ ms]) simp
  next
    case True
    let ?off = "off - ucast (data_len b) :: uint32"
    have u: "unat ?off = unat off - unat (data_len b)" using True by (simp add: unat_sub)
    have le: "unat (data_len b) \<le> unat off" using True by (simp add: word_le_nat_alt)
    then have lt: "unat ?off < length (pkt_data h ms)" using Cons.prems(2) b u by auto
    then obtain y ys where ys: "ms = y # ys" "next_seg b = Some y" using b(3) by (cases ms) auto
    obtain seg off' ms1 ms2 where IH: "read_seek f h y ?off = Inr (seg, off')" "ms = ms1 @ seg # ms2"
      "unat off' < length (seg_data h seg)" "seg_chain h (Some seg) (seg # ms2)"
      "drop (unat ?off) (pkt_data h ms) = drop (unat off') (pkt_data h (seg # ms2))"
      using Cons.IH [OF _ lt f(2), of y] b(3) ys(2) by auto
    have "drop (unat off) (pkt_data h (x # ms)) = drop (unat off') (pkt_data h (seg # ms2))"
      using IH(5) b(2) le by (simp add: u)
    moreover have "read_seek fuel h m off = Inr (seg, off')" using f(1) b(1,2) True ys(2) IH(1) by simp
    ultimately show ?thesis using IH by (intro exI [of _ seg] exI [of _ off'] exI [of _ "x # ms1"] exI [of _ ms2]) simp
  qed
qed simp

lemma read_copy_all:
  assumes "seg_chain h p ms" and "segs_ok h ms" and "unat off + unat len \<le> length (pkt_data h ms)"
    and "\<And>m b. p = Some m \<Longrightarrow> mbufs h m = Some b \<Longrightarrow> unat off \<le> unat (data_len b)" and "length ms \<le> fuel"
  shows "read_copy fuel h p off len buf = Inr (buf @ take (unat len) (drop (unat off) (pkt_data h ms)))"
  using assms
proof (induction ms arbitrary: p off len buf fuel)
  case Nil
  then have "len = 0" by (simp add: unat_eq_0)
  then show ?case by (subst read_copy.simps) simp
next
  case (Cons x ms)
  obtain b where b: "p = Some x" "mbufs h x = Some b" "seg_chain h (next_seg b) ms" "seg_ok b"
    using Cons.prems(1,2) by auto
  obtain f where f: "fuel = Suc f" "length ms \<le> f" using Cons.prems(5) by (cases fuel) auto
  show ?case
  proof (cases "len = 0")
    case True
    then show ?thesis by (subst read_copy.simps) simp
  next
    case False
    have le: "unat off \<le> unat (data_len b)" using Cons.prems(4) b by blast
    then have "off \<le> ucast (data_len b)" by (simp add: word_le_nat_alt)
    then have u: "unat (ucast (data_len b) - off) = unat (data_len b) - unat off" by (simp add: unat_sub)
    let ?c = "min (ucast (data_len b) - off) len"
    have c: "unat ?c = min (unat (data_len b) - unat off) (unat len)"
      using u by (simp add: min_def word_le_nat_alt)
    then have uc: "unat (len - ?c) = unat len - unat ?c" by (simp add: unat_sub word_le_nat_alt)
    have rd: "data_read h b (unat off) (unat ?c) = Inr (take (unat ?c) (drop (unat off) (seg_data h x)))"
      by (rule data_read_seg [OF b(2,4)]) (use c le in simp)
    have len': "unat (0 :: uint32) + unat (len - ?c) \<le> length (pkt_data h ms)"
      using Cons.prems(3) b(2) c uc le by (simp add: min_def split: if_splits)
    have IH: "read_copy f h (next_seg b) 0 (len - ?c) bs = Inr (bs @ take (unat (len - ?c)) (pkt_data h ms))" for bs
      using Cons.IH [OF b(3) _ len' _ f(2), of bs] Cons.prems(2) by simp
    have split: "take (unat len) (drop (unat off) (pkt_data h (x # ms))) =
        take (unat ?c) (drop (unat off) (seg_data h x)) @ take (unat (len - ?c)) (pkt_data h ms)"
      unfolding uc c using le b(2) by (simp add: min_def)
    have "read_copy fuel h p off len buf = read_copy f h (next_seg b) 0 (len - ?c) (buf @ take (unat ?c) (drop (unat off) (seg_data h x)))"
      by (subst read_copy.simps) (use False f(1) b(1,2) rd in \<open>simp add: Let_def\<close>)
    then show ?thesis unfolding split IH by simp
  qed
qed

lemma pktmbuf_read_data:
  assumes ok: "pkt_ok h m ms" and len: "unat off + unat len \<le> length (pkt_data h ms)"
    and pos: "0 < unat len \<or> unat off < length (seg_data h m)" and fuel: "length ms \<le> fuel"
  shows "\<exists>p. rte_pktmbuf_read fuel h m off len = Inr (Some p)
    \<and> read_result h p (unat len) = Inr (take (unat len) (drop (unat off) (pkt_data h ms)))"
proof -
  have ch: "seg_chain h (Some m) ms" and so: "segs_ok h ms" using ok by (auto simp: pkt_ok_def)
  then obtain rest where ms: "ms = m # rest" by (cases ms) auto
  obtain b where b: "mbufs h m = Some b" "unat (pkt_len b) = length (pkt_data h ms)" "seg_ok b"
    using ok ms by (auto simp: pkt_ok_def)
  have nw: "unat (off + len) = unat off + unat len"
    using len unat_lt2p [of "pkt_len b"] b(2) by (simp add: unat_word_ariths)
  have in_seg: "read_result h (Mbuf_data seg o') (unat len) = Inr (take (unat len) (drop (unat o') (pkt_data h (seg # ms2))))"
    if "mbufs h seg = Some s" "seg_ok s" "unat o' + unat len \<le> unat (data_len s)" for seg s o' ms2
    using that data_read_seg [of h seg s "unat o'" "unat len"] by (simp add: read_result_def)
  show ?thesis
  proof (cases "off + len \<le> ucast (data_len b)")
    case True
    then have "unat off + unat len \<le> unat (data_len b)" using nw by (simp add: word_le_nat_alt)
    then show ?thesis using True b in_seg [OF b(1,3), of off rest] ms
      by (intro exI [of _ "Mbuf_data m off"]) (simp add: rte_pktmbuf_read_def)
  next
    case False
    have lt: "unat off < length (pkt_data h ms)" using pos len ms by auto
    obtain seg off' ms1 ms2 where sk: "read_seek fuel h m off = Inr (seg, off')" "ms = ms1 @ seg # ms2"
      "unat off' < length (seg_data h seg)" "seg_chain h (Some seg) (seg # ms2)"
      "drop (unat off) (pkt_data h ms) = drop (unat off') (pkt_data h (seg # ms2))"
      using read_seek_finds [OF ch lt fuel] by blast
    obtain s where s: "mbufs h seg = Some s" "seg_ok s" using so sk(2) by auto
    have "\<not> pkt_len b < off + len" using nw len b(2) by (simp add: word_less_nat_alt)
    then have run: "rte_pktmbuf_read fuel h m off len =
       (if off' + len \<le> ucast (data_len s) then Inr (Some (Mbuf_data seg off'))
        else cbind (read_copy fuel h (Some seg) off' len []) (\<lambda>buf. Inr (Some (User_buf buf))))"
      using False b(1) sk(1) s(1) by (simp add: rte_pktmbuf_read_def pktmbuf_read_slow_def)
    have "length (drop (unat off) (pkt_data h ms)) = length (drop (unat off') (pkt_data h (seg # ms2)))" by (simp only: sk(5))
    then have len': "unat off' + unat len \<le> length (pkt_data h (seg # ms2))" using len sk(3) by simp
    have "length (pkt_data h (seg # ms2)) \<le> length (pkt_data h ms)" unfolding sk(2) by (simp add: pkt_data_def)
    then have nw': "unat (off' + len) = unat off' + unat len"
      using len' b(2) unat_lt2p [of "pkt_len b"] by (simp add: unat_word_ariths)
    show ?thesis
    proof (cases "off' + len \<le> ucast (data_len s)")
      case True
      then have "unat off' + unat len \<le> unat (data_len s)" using nw' by (simp add: word_le_nat_alt)
      then show ?thesis using True run in_seg [OF s, of off' ms2] sk(5) by auto
    next
      case F2: False
      have "length (seg # ms2) \<le> fuel" using fuel sk(2) by simp
      moreover have "unat off' \<le> unat (data_len c)" if "Some seg = Some x" "mbufs h x = Some c" for x c
        using that s(1) sk(3) by simp
      moreover have "segs_ok h (seg # ms2)" using so sk(2) by simp
      ultimately have cp: "read_copy fuel h (Some seg) off' len [] = Inr (take (unat len) (drop (unat off') (pkt_data h (seg # ms2))))"
        using read_copy_all [OF sk(4) _ len', of fuel "[]"] by simp
      define D where "D = take (unat len) (drop (unat off') (pkt_data h (seg # ms2)))"
      have "length D = unat len" unfolding D_def using len' by simp
      moreover have "rte_pktmbuf_read fuel h m off len = Inr (Some (User_buf D))" using F2 run cp by (simp only: D_def) simp
      moreover have "take (unat len) (drop (unat off) (pkt_data h ms)) = D" by (simp only: D_def sk(5))
      ultimately show ?thesis by (simp add: read_result_def)
    qed
  qed
qed

section \<open>Linearizing\<close>

lemma bytes_put_append: "bytes_put (bytes_put f a xs) (a + length xs) ys = bytes_put f a (xs @ ys)"
  by (auto simp: bytes_put_def fun_eq_iff nth_append)

lemma bytes_at_put_other:
  "x + n \<le> a \<or> a + length bs \<le> x \<Longrightarrow> bytes_at (bytes_put f a bs) x n = bytes_at f x n"
  by (rule nth_equalityI) (auto simp: bytes_at_def bytes_put_def)

lemma bytes_at_put_same: "bytes_at (bytes_put f a bs) a (length bs) = bs"
  by (rule nth_equalityI) (auto simp: bytes_at_def bytes_put_def)

lemma bytes_at_append: "bytes_at f a (n + k) = bytes_at f a n @ bytes_at f (a + n) k"
  by (rule nth_equalityI) (auto simp: bytes_at_def nth_append)

lemma minv_bytes [simp]: "minv (h\<lparr>mem_bytes := f\<rparr>) H = minv h H"
  by (simp add: minv_def mbuf_ok_def pool_ok_def used_def refs_def attached_def objs_of_def)

lemma seg_path_bytes [simp]: "seg_path (h\<lparr>mem_bytes := f\<rparr>) p ms q = seg_path h p ms q"
  by (induction ms arbitrary: p) auto

text \<open>The data of a segment lies outside the buffer of \<open>b\<close>.\<close>

definition apart :: "rte_mbuf \<Rightarrow> mbuf_mem \<Rightarrow> addr \<Rightarrow> bool" where
  "apart b h m \<longleftrightarrow> (\<forall>s. mbufs h m = Some s \<longrightarrow>
     buf_addr b + unat (buf_len b) \<le> rte_pktmbuf_mtod s \<or> rte_pktmbuf_mtod s + unat (data_len s) \<le> buf_addr b)"

lemma apart_view: "view h' m = view h m \<Longrightarrow> apart b h m \<Longrightarrow> apart b h' m"
  by (cases "mbufs h m") (auto simp: apart_def view_def rte_pktmbuf_mtod_def rte_pktmbuf_mtod_offset_def)

lemma linearize_loop_copies:
  assumes "minv h H" and "seg_chain h p ms" and "mset ms \<subseteq># H" and "segs_ok h ms" and "\<forall>s\<in>set ms. apart b h s"
    and "unat (data_off b) + pos + length (pkt_data h ms) \<le> unat (buf_len b)" and "length ms \<le> fuel"
  shows "\<exists>h'. linearize_loop fuel lcore b pos p h = Inr h' \<and> minv h' (H - mset ms)
    \<and> kept (set_mset (H - mset ms)) (h\<lparr>mem_bytes := bytes_put (mem_bytes h) (rte_pktmbuf_mtod_offset b pos) (pkt_data h ms)\<rparr>) h'"
  using assms
proof (induction ms arbitrary: h H p pos fuel)
  case Nil
  have "bytes_put (mem_bytes h) a [] = mem_bytes h" for a by (auto simp: bytes_put_def fun_eq_iff)
  then show ?case using Nil by simp
next
  case (Cons m ms)
  obtain s where s: "p = Some m" "mbufs h m = Some s" "seg_chain h (next_seg s) ms" "seg_ok s" using Cons.prems(2,4) by auto
  obtain f where f: "fuel = Suc f" "length ms \<le> f" using Cons.prems(7) by (cases fuel) auto
  let ?a = "rte_pktmbuf_mtod_offset b pos" and ?n = "unat (data_len s)"
  define bs where "bs = seg_data h m"
  have bl: "length bs = ?n" by (simp add: bs_def s(2))
  have rd: "data_read h s 0 ?n = Inr bs" using data_read_seg [OF s(2,4), of 0 ?n] s(2) by (simp add: bs_def)
  define f1 where "f1 = bytes_put (mem_bytes h) ?a bs"
  let ?h1 = "h\<lparr>mem_bytes := f1\<rparr>"
  have wr: "data_write b pos bs h = Inr ?h1" using Cons.prems(6) bl s(2) by (simp add: data_write_def f1_def)
  have mH: "m \<in># H" using Cons.prems(3) by (auto dest: mset_subset_eqD)
  have sub: "mset ms \<subseteq># H - {#m#}" using Cons.prems(3) by (simp add: insert_subset_eq_iff)
  have inv1: "minv ?h1 H" using Cons.prems(1) by simp
  obtain h2 where h2: "rte_pktmbuf_free_seg lcore m ?h1 = Inr h2" "minv h2 (H - {#m#})" "kept (set_mset (H - {#m#})) ?h1 h2"
    using free_seg_inv [OF inv1 mH] by blast
  have held: "x \<in># H - {#m#}" if "x \<in> set ms" for x using sub that by (auto dest: mset_subset_eqD)
  have v: "view h2 x = view h x" if "x \<in> set ms" for x
  proof -
    have "mbufs h x \<noteq> None" using Cons.prems(4) that by (auto simp: segs_ok_def)
    then show ?thesis using kept_view [OF h2(3) held [OF that]] by (simp add: view_def)
  qed
  have b2: "mem_bytes h2 = f1" using h2(3) by (simp add: kept_def)
  have data: "seg_data h2 x = seg_data h x" if x: "x \<in> set ms" for x
  proof -
    obtain y where y: "mbufs h x = Some y" using Cons.prems(4) x by (auto simp: segs_ok_def)
    obtain c where "mbufs h2 x = Some (y\<lparr>refcnt := c\<rparr>)" using keptD [OF h2(3) held [OF x]] y by auto
    moreover have "apart b h x" using Cons.prems(5) x by simp
    then have "bytes_at f1 (rte_pktmbuf_mtod y) (unat (data_len y)) = bytes_at (mem_bytes h) (rte_pktmbuf_mtod y) (unat (data_len y))"
      unfolding f1_def by (intro bytes_at_put_other)
        (use y Cons.prems(6) bl s(2) in \<open>auto simp: apart_def rte_pktmbuf_mtod_offset_def\<close>)
    ultimately show ?thesis using y b2 by (simp add: rte_pktmbuf_mtod_def rte_pktmbuf_mtod_offset_def)
  qed
  then have pd: "pkt_data h2 ms = pkt_data h ms" unfolding pkt_data_def by (intro arg_cong [of _ _ concat]) simp
  have so: "segs_ok h2 ms"
    unfolding segs_ok_def
  proof
    fix x assume x: "x \<in> set ms"
    then obtain y where y: "mbufs h x = Some y" "seg_ok y" using Cons.prems(4) by (auto simp: segs_ok_def)
    obtain c where "mbufs h2 x = Some (y\<lparr>refcnt := c\<rparr>)" using keptD [OF h2(3) held [OF x]] y by auto
    then show "\<exists>b. mbufs h2 x = Some b \<and> seg_ok b" using y(2) by (simp add: seg_ok_def)
  qed
  have ch: "seg_chain h2 (next_seg s) ms"
    by (rule seg_chain_kept [OF _ h2(3)]) (use s(3) held in auto)
  have ap: "\<forall>x\<in>set ms. apart b h2 x" using Cons.prems(5) v apart_view by fastforce
  have lim: "unat (data_off b) + (pos + ?n) + length (pkt_data h2 ms) \<le> unat (buf_len b)"
    using Cons.prems(6) s(2) unfolding pd by simp
  obtain h' where IH: "linearize_loop f lcore b (pos + ?n) (next_seg s) h2 = Inr h'" "minv h' (H - {#m#} - mset ms)"
    "kept (set_mset (H - {#m#} - mset ms)) (h2\<lparr>mem_bytes := bytes_put (mem_bytes h2) (rte_pktmbuf_mtod_offset b (pos + ?n)) (pkt_data h2 ms)\<rparr>) h'"
    using Cons.IH [OF h2(2) ch sub so ap lim f(2)] by blast
  have "bytes_put f1 (rte_pktmbuf_mtod_offset b (pos + ?n)) (pkt_data h ms) = bytes_put (mem_bytes h) ?a (bs @ pkt_data h ms)"
    unfolding f1_def bl [symmetric] bytes_put_append [symmetric] by (simp add: rte_pktmbuf_mtod_offset_def add.assoc)
  then have fin: "bytes_put (mem_bytes h2) (rte_pktmbuf_mtod_offset b (pos + ?n)) (pkt_data h2 ms) = bytes_put (mem_bytes h) ?a (pkt_data h (m # ms))"
    by (simp add: b2 pd bs_def)
  have k2: "kept (set_mset (H - {#m#})) (h\<lparr>mem_bytes := g\<rparr>) (h2\<lparr>mem_bytes := g\<rparr>)" for g
    using h2(3) by (simp add: kept_def)
  have "kept (set_mset (H - {#m#} - mset ms)) (h\<lparr>mem_bytes := bytes_put (mem_bytes h) ?a (pkt_data h (m # ms))\<rparr>) h'"
    by (rule kept_mono [OF kept_trans [OF k2 IH(3) [unfolded fin]]]) (blast dest: in_diffD)
  moreover have "linearize_loop fuel lcore b pos p h = Inr h'" using f(1) s rd wr h2(1) IH(1) by simp
  ultimately show ?case using IH(2) by (simp add: diff_diff_add_mset)
qed

lemma linearize_data:
  assumes own: "store_owns h (xs @ ms # ys)" and ok: "pkt_ok h (hd ms) ms" and b: "mbufs h (hd ms) = Some b"
    and segs: "nb_segs b \<noteq> 1 \<or> length ms = 1" and room: "unat (data_off b) + unat (pkt_len b) \<le> unat (buf_len b)"
    and apart: "\<forall>s\<in>set (tl ms). apart b h s" and fuel: "32767 \<le> fuel"
  shows "\<exists>h'. rte_pktmbuf_linearize fuel lcore (hd ms) h = Inr (0, h') \<and> store_owns h' (xs @ [hd ms] # ys)
    \<and> pkt_ok h' (hd ms) [hd ms] \<and> pkt_data h' [hd ms] = pkt_data h ms"
proof (cases "nb_segs b = 1")
  case True
  then obtain x where "ms = [x]" using segs by (cases ms) auto
  then show ?thesis using own ok b True by (auto simp: rte_pktmbuf_linearize_def rte_pktmbuf_is_contiguous_def)
next
  case False
  define m where "m = hd ms"
  have "ms \<noteq> []" using own by (simp add: store_owns_def)
  then obtain rest where ms: "ms = m # rest" unfolding m_def by (cases ms) simp_all
  have ch: "seg_chain h (next_seg b) rest" and sb: "seg_ok b" and so: "segs_ok h rest"
    and pl: "unat (pkt_len b) = length (pkt_data h ms)"
    using ok b by (auto simp: pkt_ok_def ms)
  have b': "mbufs h m = Some b" using b unfolding m_def .
  let ?H = "mset (concat (xs @ ms # ys))"
  have inv: "minv h ?H" using own by (simp add: store_owns_def)
  have dl: "length (pkt_data h ms) = unat (data_len b) + length (pkt_data h rest)" using b' by (simp add: ms)
  have pl16: "unat (pkt_len b) < 2 ^ 16" using room unat_lt2p [of "buf_len b"] by simp
  have cl: "unat (pkt_len b - ucast (data_len b)) = length (pkt_data h rest)"
    using pl dl by (simp add: unat_sub word_le_nat_alt)
  have copy: "sint (pkt_len b - ucast (data_len b)) = int (length (pkt_data h rest))"
  proof -
    have "uint (pkt_len b - ucast (data_len b)) = int (length (pkt_data h rest))" by (simp only: uint_nat cl)
    moreover have "int (length (pkt_data h rest)) < 2 ^ 31" using pl16 pl dl by simp
    ultimately show ?thesis by (simp add: sint_uint signed_take_bit_int_eq_self)
  qed
  have tail: "unat (rte_pktmbuf_tailroom b) = unat (buf_len b) - unat (data_off b) - unat (data_len b)"
    using sb by (simp add: rte_pktmbuf_tailroom_def rte_pktmbuf_headroom_def seg_ok_def unat_sub word_le_nat_alt)
  have fits: "\<not> int (unat (rte_pktmbuf_tailroom b)) < sint (pkt_len b - ucast (data_len b))"
    unfolding copy of_nat_less_iff tail using room pl dl by simp
  let ?b1 = "b\<lparr>data_len := ucast (pkt_len b)\<rparr>"
  let ?h1 = "mbuf_set m ?b1 h"
  have inv1: "minv ?h1 ?H" by (rule minv_upd [OF inv b']) (simp add: same_refs_def)
  have nm: "m \<notin> set rest" using own by (auto simp: store_owns_def ms)
  have other: "mbufs ?h1 x = mbufs h x" if "x \<in> set rest" for x using that nm by auto
  have ch1: "seg_chain ?h1 (next_seg b) rest" by (rule seg_path_cong [OF ch]) (use other in simp)
  have so1: "segs_ok ?h1 rest" using so other by (simp add: segs_ok_def)
  have ap1: "\<forall>s\<in>set rest. apart b ?h1 s" using apart other by (simp add: apart_def ms)
  have pd1: "pkt_data ?h1 rest = pkt_data h rest"
    unfolding pkt_data_def by (intro arg_cong [of _ _ concat] map_cong refl) (simp only: seg_data_def other store_simps(2))
  have sub: "mset rest \<subseteq># ?H" by (simp add: ms)
  have lim: "unat (data_off b) + unat (data_len b) + length (pkt_data ?h1 rest) \<le> unat (buf_len b)"
    unfolding pd1 using room pl dl by simp
  have len: "length rest \<le> fuel" using store_lengths(1) [OF own] store_lengths(2) [OF own, of ms] fuel by (simp add: ms)
  define f where "f = bytes_put (mem_bytes h) (rte_pktmbuf_mtod_offset b (unat (data_len b))) (pkt_data h rest)"
  obtain h2 where h2: "linearize_loop fuel lcore b (unat (data_len b)) (next_seg b) ?h1 = Inr h2"
    "minv h2 (?H - mset rest)" "kept (set_mset (?H - mset rest)) (?h1\<lparr>mem_bytes := f\<rparr>) h2"
    using linearize_loop_copies [OF inv1 ch1 sub so1 ap1 lim len, of lcore] unfolding pd1 by (auto simp: f_def)
  have H2: "?H - mset rest = mset (concat (xs @ [m] # ys))" by (simp add: ms)
  have "m \<in># ?H - mset rest" unfolding H2 by simp
  then have "\<exists>c. mbufs h2 m = Some (?b1\<lparr>refcnt := c\<rparr>)" by (rule keptD [OF h2(3)]) simp
  then obtain c where c: "mbufs h2 m = Some (?b1\<lparr>refcnt := c\<rparr>)" ..
  let ?b3 = "?b1\<lparr>refcnt := c, next_seg := None, nb_segs := 1\<rparr>"
  let ?h3 = "mbuf_set m ?b3 h2"
  have run: "rte_pktmbuf_linearize fuel lcore m h = Inr (0, ?h3)"
    using b' False fits h2(1) c by (simp add: rte_pktmbuf_linearize_def rte_pktmbuf_is_contiguous_def Let_def mbuf_upd_def)
  have inv3: "minv ?h3 (mset (concat (xs @ [m] # ys)))"
    using minv_upd [OF h2(2) c, of ?b3] unfolding H2 by (simp add: same_refs_def)
  have k3: "kept (set (concat (xs @ ys)) - {m}) (h\<lparr>mem_bytes := f\<rparr>) ?h3"
  proof -
    have "kept (UNIV - {m}) (h\<lparr>mem_bytes := f\<rparr>) (?h1\<lparr>mem_bytes := f\<rparr>)"
      using b' by (auto simp: kept_def refcnt_same)
    from kept_trans [OF kept_trans [OF this h2(3)] kept_set [OF c, of ?b3]]
    show ?thesis unfolding H2 by (rule kept_mono) auto
  qed
  have chains: "\<forall>ns\<in>set (xs @ ys). ns \<noteq> [] \<and> seg_chain ?h3 (Some (hd ns)) ns"
    by (rule store_owns_kept [OF k3]) (use own in \<open>auto simp: store_owns_def ms\<close>)
  have dom: "dom (mbufs ?h3) = dom (mbufs h)" using k3 by (simp add: kept_def)
  have "store_owns ?h3 (xs @ [m] # ys)"
    using inv3 chains dom own by (auto simp: store_owns_def ms)
  moreover have ul: "unat (ucast (pkt_len b) :: uint16) = unat (pkt_len b)"
    using pl16 by (simp add: unsigned_ucast_eq take_bit_nat_eq_self)
  have data: "pkt_data ?h3 [m] = pkt_data h ms"
  proof -
    have "mem_bytes ?h3 = f" using h2(3) by (simp add: kept_def)
    then have "pkt_data ?h3 [m] = bytes_at f (rte_pktmbuf_mtod b) (unat (data_len b) + length (pkt_data h rest))"
      using ul pl dl by (simp add: rte_pktmbuf_mtod_def rte_pktmbuf_mtod_offset_def)
    also have "\<dots> = seg_data h m @ pkt_data h rest"
      unfolding bytes_at_append f_def using b'
      by (simp add: bytes_at_put_other bytes_at_put_same rte_pktmbuf_mtod_def rte_pktmbuf_mtod_offset_def)
    finally show ?thesis by (simp add: ms)
  qed
  moreover have "pkt_ok ?h3 m [m]"
    using data ul pl room by (auto simp: pkt_ok_def seg_ok_def)
  ultimately show ?thesis using run unfolding m_def by blast
qed

end
