(* ===== verification/Router_Correct.thy ===== *)
theory Router_Correct
  imports Router Mbuf_Data RoutingTable_Props
begin

text \<open>
  What the packet processing of \<^verbatim>\<open>router.c\<close> does, as a specification on the bytes of frames, and that the handlers,
  a round and a thread implement it on any ports that keep the contract \<open>port_io\<close>.
\<close>

section \<open>What the router does with a frame\<close>

text \<open>
  The specification works on the bytes of a frame: it is dropped, or other bytes are sent on a
  port. \<open>lookup\<close> is the routing table and \<open>mac_of\<close> gives the address of a port.
\<close>

datatype frame_action = Drop | Send uint8 "uint8 list"

definition overwrite :: "nat \<Rightarrow> 'a list \<Rightarrow> 'a list \<Rightarrow> 'a list" where
  "overwrite off bs D = take off D @ bs @ drop (off + length bs) D"

definition frame_eth :: "uint8 list \<Rightarrow> ether_hdr" where
  "frame_eth D = ether_of_bytes (take 14 D)"

definition frame_ipv4 :: "uint8 list \<Rightarrow> ipv4_hdr" where
  "frame_ipv4 D = ipv4_of_bytes (take 20 (drop 14 D))"

definition frame_arp :: "uint8 list \<Rightarrow> arp_hdr" where
  "frame_arp D = arp_of_bytes (take 28 (drop 14 D))"

definition hdr_cksum :: "ipv4_hdr \<Rightarrow> uint16" where
  "hdr_cksum h = of_nat (ipv4_cksum_value (h\<lparr>hdr_checksum := 0\<rparr>))"

definition ipv4_ok :: "ipv4_hdr \<Rightarrow> nat \<Rightarrow> bool" where
  "ipv4_ok h n \<longleftrightarrow>
     hdr_checksum h = hdr_cksum h \<and> unat (version_ihl h) div 16 = 4
     \<and> 5 \<le> unat (version_ihl h) mod 16
     \<and> 4 * (unat (version_ihl h) mod 16) \<le> unat (rte_be_to_cpu_16 (total_length h))
     \<and> unat (rte_be_to_cpu_16 (total_length h)) \<le> n \<and> time_to_live h \<noteq> 0"

definition ipv4_forwarded :: "ipv4_hdr \<Rightarrow> ipv4_hdr" where
  "ipv4_forwarded h =
     (let h = h\<lparr>time_to_live := time_to_live h - 1\<rparr> in h\<lparr>hdr_checksum := hdr_cksum h\<rparr>)"

definition ipv4_action ::
  "(uint32 \<Rightarrow> routing_table_entry option) \<Rightarrow> (uint8 \<Rightarrow> ether_addr) \<Rightarrow> uint8 list \<Rightarrow> frame_action" where
  "ipv4_action lookup mac_of D =
     (let h = frame_ipv4 D
      in if \<not> ipv4_ok h (length D - 14) then Drop
         else case lookup (rte_be_to_cpu_32 (dst_addr h)) of
           None \<Rightarrow> Drop
         | Some nh \<Rightarrow>
             if time_to_live h = 1 then Drop
             else Send (dst_port nh)
                    (ether_bytes \<lparr>d_addr = dst_mac nh,
                       s_addr = mac_of (dst_port nh), ether_type = ether_type (frame_eth D)\<rparr>
                     @ ipv4_bytes (ipv4_forwarded h) @ drop 34 D))"

definition arp_reply :: "ether_addr \<Rightarrow> arp_hdr \<Rightarrow> arp_hdr" where
  "arp_reply mac a =
     a\<lparr>arp_op := rte_cpu_to_be_16 ARP_OP_REPLY,
       arp_data := \<lparr>arp_sha = mac, arp_sip = arp_tip (arp_data a), arp_tha = arp_sha (arp_data a), arp_tip = arp_sip (arp_data a)\<rparr>\<rparr>"

definition arp_ok :: "uint32 list \<Rightarrow> arp_hdr \<Rightarrow> bool" where
  "arp_ok addrs a \<longleftrightarrow>
     rte_be_to_cpu_16 (arp_hrd a) = ARP_HRD_ETHER \<and> arp_hln a = 6
     \<and> rte_be_to_cpu_16 (arp_pro a) = ETHER_TYPE_IPv4 \<and> arp_pln a = 4
     \<and> rte_be_to_cpu_32 (arp_tip (arp_data a)) \<in> set addrs \<and> rte_be_to_cpu_16 (arp_op a) = ARP_OP_REQUEST"

definition arp_action :: "uint32 list \<Rightarrow> interface_config \<Rightarrow> uint8 list \<Rightarrow> frame_action" where
  "arp_action addrs me D =
     (if \<not> arp_ok addrs (frame_arp D) then Drop
      else Send (int_id me)
             (ether_bytes \<lparr>d_addr = s_addr (frame_eth D), s_addr = if_mac me, ether_type = ether_type (frame_eth D)\<rparr>
              @ arp_bytes (arp_reply (if_mac me) (frame_arp D)) @ drop 42 D))"

definition for_me :: "interface_config \<Rightarrow> uint8 list \<Rightarrow> bool" where
  "for_me me D \<longleftrightarrow> addr_bytes (d_addr (frame_eth D)) = replicate 6 0xFF \<or> d_addr (frame_eth D) = if_mac me"

definition frame_action ::
  "(uint32 \<Rightarrow> routing_table_entry option) \<Rightarrow> (uint8 \<Rightarrow> ether_addr) \<Rightarrow> uint32 list \<Rightarrow> interface_config \<Rightarrow> uint8 list \<Rightarrow> frame_action" where
  "frame_action lookup mac_of addrs me D =
     (let ty = rte_be_to_cpu_16 (ether_type (frame_eth D))
      in if length D < 14 \<or> 1514 < length D \<or> \<not> for_me me D then Drop
         else if ty = ETHER_TYPE_IPv4 \<and> 34 \<le> length D then ipv4_action lookup mac_of D
         else if ty = ETHER_TYPE_ARP \<and> 42 \<le> length D then arp_action addrs me D
         else Drop)"

definition port_mac :: "'w eth \<Rightarrow> uint8 \<Rightarrow> ether_addr" where
  "port_mac e p = hd (mac_addrs (dev_data (devices e ! unat p)))"

text \<open>
  What the handlers rely on: the table is built from \<open>n\<close> routes whose ports have a transmit queue for the
  thread, the list of interfaces is \<open>ifs\<close>, and a port with a transmit queue has an address.
\<close>

definition router_ok ::
  "(uint8 \<times> uint16) set \<Rightarrow> 'w eth \<Rightarrow> router_ctx \<Rightarrow> thread_config \<Rightarrow> interface_config list \<Rightarrow> nat \<Rightarrow> bool" where
  "router_ok txqs e c thr ifs n \<longleftrightarrow>
     ctx_fuel c = 32767 \<and> pl_rep (int_confs c) (map Some ifs) \<and> rt_built (ctx_rt c) n
     \<and> (\<forall>i<n. ether_addr_wf (dst_mac (next_hop (infos_of (ctx_rt c) i)))
           \<and> (dst_port (next_hop (infos_of (ctx_rt c) i)), q_id thr) \<in> txqs)
     \<and> (\<forall>p. (p, q_id thr) \<in> txqs \<longrightarrow>
           ether_addr_wf (port_mac e p) \<and> (\<forall>old. rte_eth_macaddr_get p old e = Inr (port_mac e p)))"

definition port_ok :: "(uint8 \<times> uint16) set \<Rightarrow> thread_config \<Rightarrow> interface_config \<Rightarrow> bool" where
  "port_ok txqs thr me \<longleftrightarrow> ether_addr_wf (if_mac me) \<and> (int_id me, q_id thr) \<in> txqs"

text \<open>
  A frame to send is queued on its port, or lost when the queue holds \<open>cap\<close> frames already.
\<close>

definition outcome ::
  "('k \<Rightarrow> nat) \<Rightarrow> (uint8 \<Rightarrow> 'k) \<Rightarrow> frame_action \<Rightarrow> ('k \<Rightarrow> uint8 list list) \<Rightarrow> ('k \<Rightarrow> uint8 list list) \<Rightarrow> bool" where
  "outcome cap out A Q Q' \<longleftrightarrow>
     (case A of
        Drop \<Rightarrow> Q' = Q
      | Send p D \<Rightarrow> Q' = Q(out p := Q (out p) @ [D]) \<or> Q' = Q \<and> cap (out p) \<le> length (Q (out p)))"

primrec outcomes ::
  "('k \<Rightarrow> nat) \<Rightarrow> (uint8 \<Rightarrow> 'k) \<Rightarrow> frame_action list \<Rightarrow> ('k \<Rightarrow> uint8 list list) \<Rightarrow> ('k \<Rightarrow> uint8 list list) \<Rightarrow> bool" where
  "outcomes cap out [] Q Q'' \<longleftrightarrow> Q'' = Q"
| "outcomes cap out (A # As) Q Q'' \<longleftrightarrow> (\<exists>Q'. outcome cap out A Q Q' \<and> outcomes cap out As Q' Q'')"

text \<open>
  Frames received from a list of queues, at most \<open>n\<close> in all: the first frames of each, and some
  if there are any.
\<close>

primrec received ::
  "'k list \<Rightarrow> nat \<Rightarrow> uint8 list list \<Rightarrow> ('k \<Rightarrow> uint8 list list) \<Rightarrow> ('k \<Rightarrow> uint8 list list) \<Rightarrow> bool" where
  "received [] n Ds Q Q'' \<longleftrightarrow> Ds = [] \<and> Q'' = Q"
| "received (k # ks) n Ds Q Q'' \<longleftrightarrow>
     (\<exists>j Es. j \<le> n \<and> j \<le> length (Q k) \<and> (j = 0 \<longrightarrow> n = 0 \<or> Q k = []) \<and> Ds = take j (Q k) @ Es
        \<and> received ks (n - j) Es (Q(k := drop j (Q k))) Q'')"

text \<open>A round over the interfaces of a thread: what is received from each is handled at once.\<close>

primrec routed ::
  "('k \<Rightarrow> nat) \<Rightarrow> (uint8 \<Rightarrow> 'k) \<Rightarrow> (uint8 \<Rightarrow> 'k list) \<Rightarrow> (interface_config \<Rightarrow> uint8 list \<Rightarrow> frame_action) \<Rightarrow> nat \<Rightarrow>
   interface_config list \<Rightarrow> ('k \<Rightarrow> uint8 list list) \<Rightarrow> ('k \<Rightarrow> uint8 list list) \<Rightarrow> bool" where
  "routed cap out inq act n [] Q Q'' \<longleftrightarrow> Q'' = Q"
| "routed cap out inq act n (me # mes) Q Q'' \<longleftrightarrow>
     (\<exists>Ds Q1 Q2. received (inq (int_id me)) n Ds Q Q1 \<and> outcomes cap out (map (act me) Ds) Q1 Q2
        \<and> routed cap out inq act n mes Q2 Q'')"

section \<open>Bytes of a packet\<close>

definition seg_list :: "mbuf_mem \<Rightarrow> addr list \<Rightarrow> uint8 list list" where
  "seg_list h ms = map (seg_data h) ms"

lemma pkt_data_seg_list: "pkt_data h ms = concat (seg_list h ms)"
  by (simp add: pkt_data_def seg_list_def)

text \<open>The headers of a frame lie in its first segment.\<close>

definition hdr_room :: "mbuf_mem \<Rightarrow> addr list \<Rightarrow> bool" where
  "hdr_room h ms \<longleftrightarrow> ms \<noteq> [] \<and> min 42 (length (pkt_data h ms)) \<le> length (seg_data h (hd ms))"

lemma length_overwrite [simp]: "off + length bs \<le> length D \<Longrightarrow> length (overwrite off bs D) = length D"
  by (simp add: overwrite_def add.commute)

lemma take_drop_overwrite: "off + length bs \<le> length D \<Longrightarrow> n = length bs \<Longrightarrow> take n (drop off (overwrite off bs D)) = bs"
  by (simp add: overwrite_def add.commute)

lemma overwrite_overwrite: "length bs = length cs \<Longrightarrow> off + length bs \<le> length D \<Longrightarrow> overwrite off cs (overwrite off bs D) = overwrite off cs D"
  by (simp add: overwrite_def add.commute)

lemma take_overwrite: "n \<le> off \<Longrightarrow> off \<le> length D \<Longrightarrow> take n (overwrite off bs D) = take n D"
  by (simp add: overwrite_def min_def)

lemma overwrite_append: "off + length bs \<le> length D \<Longrightarrow> overwrite off bs (D @ E) = overwrite off bs D @ E"
  by (simp add: overwrite_def add.commute)

lemma overwrite_two:
  "length cs = off \<Longrightarrow> off + length bs \<le> length D \<Longrightarrow>
   overwrite 0 cs (overwrite off bs D) = cs @ bs @ drop (off + length bs) D"
  by (simp add: overwrite_def add.commute)

lemma overwrite_front: "length cs = off \<Longrightarrow> off + length bs \<le> length D \<Longrightarrow>
   overwrite off bs (overwrite 0 cs D) = cs @ bs @ drop (off + length bs) D"
  by (simp add: overwrite_def add.commute)

lemma hdr_cksum_eq: "rte_ipv4_cksum (h\<lparr>hdr_checksum := 0\<rparr>) = Inr (hdr_cksum h)"
  by (simp add: rte_ipv4_cksum_eq hdr_cksum_def)

lemma ihl_of: "unat (v AND 0xf :: uint8) = unat v mod 16"
proof -
  have "v AND 0xf = take_bit 4 v" by (simp add: take_bit_eq_mask mask_eq_exp_minus_1)
  then show ?thesis by (simp add: take_bit_eq_mod unat_mod)
qed

lemma version_of: "unat (drop_bit 4 (v AND 0xf0 :: uint8)) = unat v div 16"
proof -
  have "drop_bit 4 (v AND 0xf0) = drop_bit 4 v AND (0xf :: uint8)" by (simp add: drop_bit_and)
  then have "unat (drop_bit 4 (v AND 0xf0)) = unat v div 16 mod 16" by (simp add: ihl_of drop_bit_eq_div unat_div)
  then show ?thesis using unat_lt2p [of v] by simp
qed

lemma is_ipv4_hdr_valid_eq:
  "is_ipv4_hdr_valid h len = Inr (ipv4_ok h (unat len), h\<lparr>hdr_checksum := 0\<rparr>)"
proof -
  have t: "len < ucast (t :: uint16) \<longleftrightarrow> unat len < unat t" for t
    by (simp add: word_less_nat_alt )
  have v: "(drop_bit 4 v AND 0xf :: uint8) = 4 \<longleftrightarrow> unat v div 16 = 4" for v
    using version_of [of v] by (auto simp: word_unat_eq_iff drop_bit_and)
  have i: "(v AND 0xf :: uint8) < 5 \<longleftrightarrow> unat v mod 16 < 5" for v
    by (simp add: word_less_nat_alt ihl_of)
  show ?thesis
    by (simp add: is_ipv4_hdr_valid_def hdr_cksum_eq ipv4_ok_def c_defs t v i ihl_of Let_def not_le)
qed

section \<open>Ports and held packets\<close>

text \<open>
  The contract of the ports for a program that holds packets: \<open>holds e css Q\<close> when the program holds the
  packets \<open>css\<close> and the frames \<open>Q k\<close> wait in the queue \<open>k\<close>, to which transmit and receive queues of ports are
  connected. Freeing a packet, writing into its first segment, and sending it leave the other packets alone.
\<close>

locale port_io =
  fixes holds :: "'w eth \<Rightarrow> addr list list \<Rightarrow> ('k \<Rightarrow> uint8 list list) \<Rightarrow> bool"
    and txq :: "uint8 \<times> uint16 \<Rightarrow> 'k option"
    and rxq :: "uint8 \<times> uint16 \<Rightarrow> 'k option"
    and cap :: "'k \<Rightarrow> nat"
  assumes packet_law: "holds e css Q \<Longrightarrow> ms \<in> set css \<Longrightarrow> pkt_ok (store e) (hd ms) ms \<and> hdr_room (store e) ms"
    and order_law: "holds e css Q \<Longrightarrow> mset css' = mset css \<Longrightarrow> holds e css' Q"
    and free_law: "holds e (ms # css) Q \<Longrightarrow>
      \<exists>h'. rte_pktmbuf_free 32767 lcore (Some (hd ms)) (store e) = Inr h' \<and> holds (set_store h' e) css Q
        \<and> (\<forall>zs\<in>set css. seg_list h' zs = seg_list (store e) zs)"
    and write_law: "holds e (ms # css) Q \<Longrightarrow> mbufs (store e) (hd ms) = Some b \<Longrightarrow> off + length bs \<le> unat (data_len b) \<Longrightarrow>
      h' = (store e)\<lparr>mem_bytes := bytes_put (mem_bytes (store e)) (rte_pktmbuf_mtod_offset b off) bs\<rparr> \<Longrightarrow>
      holds (set_store h' e) (ms # css) Q \<and> (\<forall>zs\<in>set css. seg_list h' zs = seg_list (store e) zs)
        \<and> seg_list h' ms = overwrite off bs (seg_data (store e) (hd ms)) # seg_list (store e) (tl ms)"
    and tx_law: "txq (p, q) = Some k \<Longrightarrow> holds e (ms # css) Q \<Longrightarrow>
      \<exists>n e'. rte_eth_tx_burst p q [hd ms] e = Inr (n, e') \<and> (\<forall>zs\<in>set css. seg_list (store e') zs = seg_list (store e) zs)
        \<and> (if n = 0 then cap k \<le> length (Q k) \<and> holds e' (ms # css) Q \<and> seg_list (store e') ms = seg_list (store e) ms
           else holds e' css (Q(k := Q k @ [pkt_data (store e) ms])))"
    and rx_law: "rxq (p, q) = Some k \<Longrightarrow> holds e css Q \<Longrightarrow>
      \<exists>pss e'. rte_eth_rx_burst p q n e = Inr (map hd pss, e') \<and> length pss \<le> unat n
        \<and> holds e' (pss @ css) (Q(k := drop (length pss) (Q k))) \<and> map (pkt_data (store e')) pss = take (length pss) (Q k)
        \<and> (pss = [] \<longrightarrow> n = 0 \<or> Q k = []) \<and> (\<forall>zs\<in>set css. seg_list (store e') zs = seg_list (store e) zs)"
begin

abbreviation same :: "addr list list \<Rightarrow> 'w eth \<Rightarrow> 'w eth \<Rightarrow> bool" where
  "same css e e' \<equiv> (\<forall>zs\<in>set css. seg_list (store e') zs = seg_list (store e) zs) \<and> devices e' = devices e"

abbreviation out :: "uint16 \<Rightarrow> uint8 \<Rightarrow> 'k" where
  "out q p \<equiv> the (txq (p, q))"

lemma packetD:
  assumes "holds e css Q" and "ms \<in> set css"
  shows "ms \<noteq> []" "\<exists>b. mbufs (store e) (hd ms) = Some b \<and> seg_ok b \<and> unat (pkt_len b) = length (pkt_data (store e) ms)
     \<and> min 42 (length (pkt_data (store e) ms)) \<le> unat (data_len b)"
proof -
  have p: "pkt_ok (store e) (hd ms) ms" "hdr_room (store e) ms" using packet_law [OF assms] by auto
  then show ne: "ms \<noteq> []" by (simp add: hdr_room_def)
  then obtain m r where ms: "ms = m # r" by (cases ms) auto
  then show "\<exists>b. mbufs (store e) (hd ms) = Some b \<and> seg_ok b \<and> unat (pkt_len b) = length (pkt_data (store e) ms)
     \<and> min 42 (length (pkt_data (store e) ms)) \<le> unat (data_len b)"
    using p by (auto simp: pkt_ok_def hdr_room_def)
qed

lemma read_hdr:
  assumes "holds e css Q" and "ms \<in> set css" and "off + n \<le> 42" and "off + n \<le> length (pkt_data (store e) ms)"
  shows "buf_read (hd ms) off n e = Inr (take n (drop off (pkt_data (store e) ms)))"
proof -
  obtain b where b: "mbufs (store e) (hd ms) = Some b" "seg_ok b" "min 42 (length (pkt_data (store e) ms)) \<le> unat (data_len b)"
    using packetD(2) [OF assms(1,2)] by blast
  have le: "off + n \<le> unat (data_len b)" using assms(3,4) b(3) by simp
  define S where "S = seg_data (store e) (hd ms)"
  have S: "length S = unat (data_len b)" using b(1) by (simp add: S_def)
  have "pkt_data (store e) ms = S @ pkt_data (store e) (tl ms)"
    using packetD(1) [OF assms(1,2)] by (cases ms) (simp_all add: S_def)
  then have "take n (drop off (pkt_data (store e) ms)) = take n (drop off S)" using le S by simp
  then show ?thesis using data_read_seg [OF b(1,2) le] b(1) by (simp add: buf_read_def S_def)
qed

lemma write_hdr:
  assumes h: "holds e (ms # css) Q" and le: "off + length bs \<le> 42" "off + length bs \<le> length (pkt_data (store e) ms)"
  shows "\<exists>e'. buf_write (hd ms) off bs e = Inr e' \<and> holds e' (ms # css) Q \<and> same css e e'
    \<and> pkt_data (store e') ms = overwrite off bs (pkt_data (store e) ms)"
proof -
  have m: "ms \<in> set (ms # css)" by simp
  obtain b where b: "mbufs (store e) (hd ms) = Some b" "seg_ok b" "min 42 (length (pkt_data (store e) ms)) \<le> unat (data_len b)"
    using packetD(2) [OF h m] by blast
  have room: "off + length bs \<le> unat (data_len b)" using le b(3) by simp
  define h' where "h' = (store e)\<lparr>mem_bytes := bytes_put (mem_bytes (store e)) (rte_pktmbuf_mtod_offset b off) bs\<rparr>"
  have w: "holds (set_store h' e) (ms # css) Q" "\<forall>zs\<in>set css. seg_list h' zs = seg_list (store e) zs"
    "seg_list h' ms = overwrite off bs (seg_data (store e) (hd ms)) # seg_list (store e) (tl ms)"
    using write_law [OF h b(1) room h'_def] by auto
  have "buf_write (hd ms) off bs e = Inr (set_store h' e)"
    using b(1,2) room by (simp add: buf_write_def data_write_def h'_def seg_ok_def)
  moreover have "pkt_data h' ms = overwrite off bs (pkt_data (store e) ms)"
  proof -
    have "pkt_data (store e) ms = seg_data (store e) (hd ms) @ concat (seg_list (store e) (tl ms))"
      using packetD(1) [OF h m] by (cases ms) (simp_all add: pkt_data_seg_list seg_list_def)
    moreover have "pkt_data h' ms = overwrite off bs (seg_data (store e) (hd ms)) @ concat (seg_list (store e) (tl ms))"
      by (simp add: pkt_data_seg_list w(3))
    moreover have "off + length bs \<le> length (seg_data (store e) (hd ms))" using room b(1) by simp
    ultimately show ?thesis by (simp add: overwrite_append)
  qed
  ultimately show ?thesis using w(1,2) by (auto simp: set_store_def)
qed

lemma free_buf:
  assumes "holds e (ms # css) Q" and "ctx_fuel c = 32767"
  shows "\<exists>e'. buf_free c (hd ms) e = Inr e' \<and> holds e' css Q \<and> same css e e'"
proof -
  obtain h' where "rte_pktmbuf_free 32767 (ctx_lcore c) (Some (hd ms)) (store e) = Inr h'" "holds (set_store h' e) css Q"
    "\<forall>zs\<in>set css. seg_list h' zs = seg_list (store e) zs"
    using free_law [OF assms(1)] by blast
  then show ?thesis using assms(2) by (auto simp: buf_free_def set_store_def)
qed

lemma tx_devices: "rte_eth_tx_burst p q ms e = Inr (k, e') \<Longrightarrow> devices e' = devices e"
  by (auto simp: rte_eth_tx_burst_def cbind_eq_Inr_iff split: option.splits)

lemma transmit_ok:
  assumes "txq (p, q) = Some k" and "holds e (ms # css) Q"
  shows "\<exists>sent e'. transmit n p q (hd ms) e = Inr (sent, e') \<and> same css e e'
    \<and> (if sent then holds e' css (Q(k := Q k @ [pkt_data (store e) ms]))
       else holds e' (ms # css) Q \<and> (0 < n \<longrightarrow> cap k \<le> length (Q k)))"
  using assms(2)
proof (induction n arbitrary: e)
  case (Suc n)
  obtain j e1 where t: "rte_eth_tx_burst p q [hd ms] e = Inr (j, e1)" "\<forall>zs\<in>set css. seg_list (store e1) zs = seg_list (store e) zs"
    "if j = 0 then cap k \<le> length (Q k) \<and> holds e1 (ms # css) Q \<and> seg_list (store e1) ms = seg_list (store e) ms
     else holds e1 css (Q(k := Q k @ [pkt_data (store e) ms]))"
    using tx_law [OF assms(1) Suc.prems] by blast
  note d = tx_devices [OF t(1)]
  show ?case
  proof (cases "j = 0")
    case True
    then have h: "holds e1 (ms # css) Q" "seg_list (store e1) ms = seg_list (store e) ms" "cap k \<le> length (Q k)"
      using t(3) by auto
    obtain sent e' where r: "transmit n p q (hd ms) e1 = Inr (sent, e')" "same css e1 e'"
      "if sent then holds e' css (Q(k := Q k @ [pkt_data (store e1) ms]))
       else holds e' (ms # css) Q \<and> (0 < n \<longrightarrow> cap k \<le> length (Q k))"
      using Suc.IH [OF h(1)] by blast
    have "pkt_data (store e1) ms = pkt_data (store e) ms" by (simp add: pkt_data_seg_list h(2))
    then show ?thesis using r t(1,2) d h(3) True by (cases sent) auto
  next
    case False
    then show ?thesis using t d by auto
  qed
qed auto

lemma send_ok:
  assumes "txq (p, q) = Some k" and "holds e (ms # css) Q" and "ctx_fuel c = 32767" and "pkt_data (store e) ms = D"
  shows "\<exists>e' Q'. send_or_free c p q (hd ms) e = Inr e' \<and> holds e' css Q' \<and> same css e e' \<and> outcome cap (out q) (Send p D) Q Q'"
proof -
  obtain sent e1 where t: "transmit MAX_TRANSMIT_TRIAL p q (hd ms) e = Inr (sent, e1)" "same css e e1"
    "if sent then holds e1 css (Q(k := Q k @ [pkt_data (store e) ms]))
     else holds e1 (ms # css) Q \<and> (0 < MAX_TRANSMIT_TRIAL \<longrightarrow> cap k \<le> length (Q k))"
    using transmit_ok [OF assms(1,2)] by blast
  show ?thesis
  proof (cases sent)
    case True
    then show ?thesis using t assms(4) by (auto simp: send_or_free_def outcome_def assms(1))
  next
    case False
    then have h: "holds e1 (ms # css) Q" "cap k \<le> length (Q k)" using t(3) by (auto simp: MAX_TRANSMIT_TRIAL_def)
    obtain e' where "buf_free c (hd ms) e1 = Inr e'" "holds e' css Q" "same css e1 e'"
      using free_buf [OF h(1) assms(3)] by blast
    then show ?thesis using t(1,2) False h(2) by (auto simp: send_or_free_def outcome_def assms(1))
  qed
qed

end

section \<open>The handlers\<close>

lemma port_mac_devices: "devices e' = devices e \<Longrightarrow> port_mac e' = port_mac e"
  by (simp add: port_mac_def fun_eq_iff)

lemma macaddr_get_devices: "devices e' = devices e \<Longrightarrow> rte_eth_macaddr_get p old e' = rte_eth_macaddr_get p old e"
  by (simp only: rte_eth_macaddr_get_def rte_eth_dev_is_valid_port_def dev_at_def)

lemma router_ok_devices: "devices e' = devices e \<Longrightarrow> router_ok txqs e c thr ifs n \<Longrightarrow> router_ok txqs e' c thr ifs n"
  by (simp add: router_ok_def port_mac_devices [of e' e] macaddr_get_devices [of e' e])

lemma router_okD:
  assumes "router_ok txqs e c thr ifs n"
  shows "ctx_fuel c = 32767" "pl_rep (int_confs c) (map Some ifs)" "get_next_hop ip (ctx_rt c) = Inr (lpm (routes_of (ctx_rt c)) n ip)"
    "i < n \<Longrightarrow> deref_next_hop (ctx_rt c) i = Inr (next_hop (infos_of (ctx_rt c) i))"
    "i < n \<Longrightarrow> ether_addr_wf (dst_mac (next_hop (infos_of (ctx_rt c) i)))"
    "i < n \<Longrightarrow> (dst_port (next_hop (infos_of (ctx_rt c) i)), q_id thr) \<in> txqs"
    "(p, q_id thr) \<in> txqs \<Longrightarrow> ether_addr_wf (port_mac e p) \<and> rte_eth_macaddr_get p old e = Inr (port_mac e p)"
proof -
  have b: "rt_built (ctx_rt c) n" using assms by (simp add: router_ok_def)
  then have sz: "n \<le> TBLLONG_TABLE_SIZE" "alen (nh_id_to_info (ctx_rt c)) = NH_ID_TO_INFO_SIZE"
    using rt_struct_sizes [of "ctx_rt c" n] by (auto simp: rt_built_def)
  show "get_next_hop ip (ctx_rt c) = Inr (lpm (routes_of (ctx_rt c)) n ip)" by (rule get_next_hop_lpm [OF b])
  show "deref_next_hop (ctx_rt c) i = Inr (next_hop (infos_of (ctx_rt c) i))" if "i < n"
    using that sz by (simp add: deref_next_hop_def rt_size_defs)
qed (use assms in \<open>auto simp: router_ok_def\<close>)

lemma lpm_hop_cases:
  assumes "lpm (routes_of rt) n ip = Some i"
  shows "i < n" "lpm_hop rt n ip = Some (next_hop (infos_of rt i))"
  using assms lpm_is_lpm [of "routes_of rt" n ip] by (auto simp: is_lpm_def lpm_hop_def)

lemma ether_addr_wf_frame: "14 \<le> length D \<Longrightarrow> ether_hdr_wf (frame_eth D)"
  by (simp add: frame_eth_def ether_hdr_wf_def ether_of_bytes_def ether_addr_wf_def c_defs)

lemma arp_search:
  assumes "pl_rep l (map Some ifs)"
  shows "cbind (c_search 0 (unat (pointer_list_len l)) (\<lambda>i. cbind (int_conf_at l i) (\<lambda>x. Inr (if_addr x = a))))
    (\<lambda>i. Inr (i < unat (pointer_list_len l))) = Inr (a \<in> set (map if_addr ifs))"
proof -
  have len: "unat (pointer_list_len l) = length ifs" using assms by (simp add: pl_rep_def pointer_list_len_def)
  have at: "int_conf_at l i = Inr (ifs ! i)" if "i < length ifs" for i
    using pl.get_of_nat [OF assms, of i] that by (simp add: int_conf_at_def)
  have "c_search 0 (length ifs) (\<lambda>i. cbind (int_conf_at l i) (\<lambda>x. Inr (if_addr x = a)))
      = Inr (length (takeWhile (\<lambda>x. if_addr x \<noteq> a) ifs))"
    by (rule c_search_list [where P = "\<lambda>x. if_addr x = a"]) (simp add: at)
  moreover have "length (takeWhile (\<lambda>x. if_addr x \<noteq> a) ifs) < length ifs \<longleftrightarrow> a \<in> set (map if_addr ifs)"
    by (induction ifs) auto
  ultimately show ?thesis by (simp add: len)
qed

lemma is_arp_msg_valid_eq:
  "pl_rep (int_confs c) (map Some ifs) \<Longrightarrow>
   is_arp_msg_valid c a = Inr (rte_be_to_cpu_16 (arp_hrd a) = ARP_HRD_ETHER \<and> arp_hln a = 6
     \<and> rte_be_to_cpu_16 (arp_pro a) = ETHER_TYPE_IPv4 \<and> arp_pln a = 4
     \<and> rte_be_to_cpu_32 (arp_tip (arp_data a)) \<in> set (map if_addr ifs))"
  using arp_search [of "int_confs c" ifs "rte_be_to_cpu_32 (arp_tip (arp_data a))"]
  by (auto simp: is_arp_msg_valid_def Let_def)

context port_io
begin

abbreviation handled :: "addr list list \<Rightarrow> uint16 \<Rightarrow> frame_action \<Rightarrow> ('k \<Rightarrow> uint8 list list) \<Rightarrow> 'w eth \<Rightarrow> 'w eth cres \<Rightarrow> bool" where
  "handled css q A Q e r \<equiv> \<exists>e' Q'. r = Inr e' \<and> holds e' css Q' \<and> same css e e' \<and> outcome cap (out q) A Q Q'"

lemma handled_after: "same css e e1 \<Longrightarrow> handled css q A Q e1 r \<Longrightarrow> handled css q A Q e r"
  by fastforce

lemma drop_ok: "holds e (ms # css) Q \<Longrightarrow> ctx_fuel c = 32767 \<Longrightarrow> handled css q Drop Q e (buf_free c (hd ms) e)"
  using free_buf [of e ms css Q c] by (auto simp: outcome_def)

lemma send_ipv4_ok:
  assumes ok: "router_ok (dom txq) e c thr ifs n" and i: "i < n" "next_hop (infos_of (ctx_rt c) i) = nh"
    and h: "holds e (ms # css) Q" and D: "pkt_data (store e) ms = D" "34 \<le> length D" and ip: "frame_ipv4 D = hdr"
  shows "handled css (q_id thr)
     (if time_to_live hdr = 1 then Drop
      else Send (dst_port nh) (ether_bytes \<lparr>d_addr = dst_mac nh, s_addr = port_mac e (dst_port nh), ether_type = ether_type (frame_eth D)\<rparr>
             @ ipv4_bytes (ipv4_forwarded hdr) @ drop 34 D)) Q e
     (thread_send_ipv4_packet c thr me (hd ms) (Some i) e)"
proof -
  note hop = router_okD(4-6) [OF ok i(1), unfolded i(2)]
  obtain k where tx: "txq (dst_port nh, q_id thr) = Some k" using hop(3) by auto
  let ?h1 = "hdr\<lparr>time_to_live := time_to_live hdr - 1\<rparr>"
  have r: "buf_read (hd ms) 14 20 e = Inr (take 20 (drop 14 D))" using read_hdr [OF h, of ms 14 20] D by simp
  obtain e1 where w1: "buf_write (hd ms) 14 (ipv4_bytes ?h1) e = Inr e1" "holds e1 (ms # css) Q" "same css e e1"
    "pkt_data (store e1) ms = overwrite 14 (ipv4_bytes ?h1) D"
    using write_hdr [OF h, of 14 "ipv4_bytes ?h1"] D by auto
  have ttl: "time_to_live hdr - 1 = 0 \<longleftrightarrow> time_to_live hdr = 1" by simp
  show ?thesis
  proof (cases "time_to_live hdr = 1")
    case True
    then show ?thesis
      using r w1(1) ip handled_after [OF w1(3) drop_ok [OF w1(2) router_okD(1) [OF ok]]]
      by (simp add: thread_send_ipv4_packet_def c_defs frame_ipv4_def Let_def)
  next
    case False
    let ?h2 = "ipv4_forwarded hdr"
    obtain e2 where w2: "buf_write (hd ms) 14 (ipv4_bytes ?h2) e1 = Inr e2" "holds e2 (ms # css) Q" "same css e1 e2"
      "pkt_data (store e2) ms = overwrite 14 (ipv4_bytes ?h2) D"
      using write_hdr [OF w1(2), of 14 "ipv4_bytes ?h2"] D w1(4) by (auto simp: overwrite_overwrite)
    let ?eth = "\<lparr>d_addr = dst_mac nh, s_addr = port_mac e (dst_port nh), ether_type = ether_type (frame_eth D)\<rparr>"
    have r2: "buf_read (hd ms) 0 14 e2 = Inr (take 14 D)"
      using read_hdr [OF w2(2), of ms 0 14] D w2(4) by (simp add: take_overwrite)
    have dev: "devices e2 = devices e" using w1(3) w2(3) by simp
    have mac: "ether_addr_wf (port_mac e (dst_port nh))" "rte_eth_macaddr_get (dst_port nh) old e2 = Inr (port_mac e (dst_port nh))" for old
      using router_okD(7) [OF router_ok_devices [OF dev ok] hop(3)] port_mac_devices [OF dev] by auto
    have l: "length (ether_bytes ?eth) = 14" using mac(1) hop(2) by (simp add: ether_hdr_wf_def)
    obtain e3 where w3: "buf_write (hd ms) 0 (ether_bytes ?eth) e2 = Inr e3" "holds e3 (ms # css) Q" "same css e2 e3"
      "pkt_data (store e3) ms = ether_bytes ?eth @ ipv4_bytes ?h2 @ drop 34 D"
      using write_hdr [OF w2(2), of 0 "ether_bytes ?eth"] D w2(4) l by (auto simp: overwrite_two)
    have "same css e e3" using w1(3) w2(3) w3(3) by simp
    note S = handled_after [OF this send_ok [OF tx w3(2) router_okD(1) [OF ok] w3(4)]]
    have ck: "rte_ipv4_cksum (?h1\<lparr>hdr_checksum := 0\<rparr>) = Inr (hdr_cksum ?h1)" by (rule hdr_cksum_eq)
    have h2: "hdr\<lparr>time_to_live := time_to_live hdr - 1, hdr_checksum := hdr_cksum ?h1\<rparr> = ?h2"
      by (simp add: ipv4_forwarded_def Let_def)
    have eth: "(ether_of_bytes (take 14 D))\<lparr>s_addr := port_mac e (dst_port nh), d_addr := dst_mac nh\<rparr> = ?eth"
      by (simp add: frame_eth_def)
    show ?thesis
      using False r w1(1) r2 w2(1) w3(1) mac(2) hop(1) ip ck S h2 eth
      by (simp add: thread_send_ipv4_packet_def c_defs frame_ipv4_def Let_def)
  qed
qed

lemma handle_ipv4_ok:
  assumes ok: "router_ok (dom txq) e c thr ifs n" and h: "holds e (ms # css) Q"
    and D: "pkt_data (store e) ms = D" "34 \<le> length D"
  shows "handled css (q_id thr) (ipv4_action (lpm_hop (ctx_rt c) n) (port_mac e) D) Q e (thread_handle_ether_ipv4 c thr me (hd ms) e)"
proof -
  let ?h = "frame_ipv4 D" and ?cleared = "(frame_ipv4 D)\<lparr>hdr_checksum := 0\<rparr>"
  obtain b where b: "mbufs (store e) (hd ms) = Some b" "unat (pkt_len b) = length D"
    using packetD(2) [OF h, of ms] D(1) by auto
  have len: "unat (pkt_len b - 14) = length D - 14"
    using b(2) D(2) by (simp add: unat_sub word_le_nat_alt)
  have r: "buf_read (hd ms) 14 20 e = Inr (take 20 (drop 14 D))" using read_hdr [OF h, of ms 14 20] D by simp
  obtain e1 where w: "buf_write (hd ms) 14 (ipv4_bytes ?cleared) e = Inr e1" "holds e1 (ms # css) Q" "same css e e1"
    "pkt_data (store e1) ms = overwrite 14 (ipv4_bytes ?cleared) D"
    using write_hdr [OF h, of 14 "ipv4_bytes ?cleared"] D by auto
  define D1 where "D1 = overwrite 14 (ipv4_bytes ?cleared) D"
  have D1: "34 \<le> length D1" "frame_ipv4 D1 = ?cleared" "frame_eth D1 = frame_eth D" "drop 34 D1 = drop 34 D"
    using D(2) by (simp_all add: D1_def frame_ipv4_def frame_eth_def take_overwrite take_drop_overwrite)
      (simp add: overwrite_def)
  have fwd: "ipv4_forwarded ?cleared = ipv4_forwarded ?h" by (simp add: ipv4_forwarded_def hdr_cksum_def Let_def)
  have dev: "devices e1 = devices e" using w(3) by simp
  note ok1 = router_ok_devices [OF dev ok] and pm = port_mac_devices [OF dev]
  note run = thread_handle_ether_ipv4_def c_defs r b(1) is_ipv4_hdr_valid_eq len w(1) frame_ipv4_def [symmetric]
  show ?thesis
  proof (cases "ipv4_ok ?h (length D - 14)")
    case False
    then show ?thesis using handled_after [OF w(3) drop_ok [OF w(2) router_okD(1) [OF ok]]]
      by (simp add: run ipv4_action_def Let_def)
  next
    case True
    show ?thesis
    proof (cases "lpm (routes_of (ctx_rt c)) n (rte_be_to_cpu_32 (dst_addr ?h))")
      case None
      then show ?thesis using True handled_after [OF w(3) drop_ok [OF w(2) router_okD(1) [OF ok]]]
        by (simp add: run ipv4_action_def lpm_hop_def router_okD(3) [OF ok] thread_send_ipv4_packet_def Let_def)
    next
      case (Some i)
      note i = lpm_hop_cases [OF Some]
      show ?thesis
        using True Some i(2) handled_after [OF w(3) send_ipv4_ok [OF ok1 i(1) refl w(2) w(4) [folded D1_def] D1(1,2), of me]]
        by (cases "time_to_live ?h = 1") (simp_all add: run ipv4_action_def router_okD(3) [OF ok] D1 fwd pm Let_def)
    qed
  qed
qed

lemma arp_request_ok:
  assumes ok: "router_ok (dom txq) e c thr ifs n" and me: "port_ok (dom txq) thr me" and h: "holds e (ms # css) Q"
    and D: "pkt_data (store e) ms = D" "42 \<le> length D"
  shows "handled css (q_id thr)
     (Send (int_id me) (ether_bytes \<lparr>d_addr = s_addr (frame_eth D), s_addr = if_mac me, ether_type = ether_type (frame_eth D)\<rparr>
        @ arp_bytes (arp_reply (if_mac me) (frame_arp D)) @ drop 42 D)) Q e
     (thread_handle_ether_arp_request c thr me (hd ms) e)"
proof -
  let ?eth = "\<lparr>d_addr = s_addr (frame_eth D), s_addr = if_mac me, ether_type = ether_type (frame_eth D)\<rparr>"
  let ?arp = "arp_reply (if_mac me) (frame_arp D)"
  have mac: "ether_addr_wf (if_mac me)" using me by (simp add: port_ok_def)
  obtain k where tx: "txq (int_id me, q_id thr) = Some k" using me by (auto simp: port_ok_def)
  have le: "length (ether_bytes ?eth) = 14"
    using mac ether_addr_wf_frame [of D] D(2) by (simp add: ether_hdr_wf_def)
  have "arp_wf (frame_arp D)" using D(2) by (simp add: frame_arp_def)
  then have la: "length (arp_bytes ?arp) = 28" using mac by (simp add: arp_reply_def arp_wf_def)
  have r: "buf_read (hd ms) 0 14 e = Inr (take 14 D)" using read_hdr [OF h, of ms 0 14] D by simp
  obtain e1 where w: "buf_write (hd ms) 0 (ether_bytes ?eth) e = Inr e1" "holds e1 (ms # css) Q" "same css e e1"
    "pkt_data (store e1) ms = overwrite 0 (ether_bytes ?eth) D"
    using write_hdr [OF h, of 0 "ether_bytes ?eth"] D le by auto
  have r1: "buf_read (hd ms) 14 28 e1 = Inr (take 28 (drop 14 D))"
    using read_hdr [OF w(2), of ms 14 28] D(2) w(4) le by (simp add: overwrite_def)
  obtain e2 where w2: "buf_write (hd ms) 14 (arp_bytes ?arp) e1 = Inr e2" "holds e2 (ms # css) Q" "same css e1 e2"
    "pkt_data (store e2) ms = ether_bytes ?eth @ arp_bytes ?arp @ drop 42 D"
    using write_hdr [OF w(2), of 14 "arp_bytes ?arp"] D(2) w(4) le la by (auto simp: overwrite_front)
  have "same css e e2" using w(3) w2(3) by simp
  note S = handled_after [OF this send_ok [OF tx w2(2) router_okD(1) [OF ok] w2(4)]]
  have eth: "(ether_of_bytes (take 14 D))\<lparr>d_addr := s_addr (ether_of_bytes (take 14 D)), s_addr := if_mac me\<rparr> = ?eth"
    by (simp add: frame_eth_def)
  have arp: "a\<lparr>arp_op := rte_cpu_to_be_16 ARP_OP_REPLY, arp_data := (arp_data a)\<lparr>arp_sha := if_mac me,
      arp_sip := arp_tip (arp_data a), arp_tha := arp_sha (arp_data a), arp_tip := arp_sip (arp_data a)\<rparr>\<rparr> = arp_reply (if_mac me) a" for a
    by (simp add: arp_reply_def)
  note run = thread_handle_ether_arp_request_def SIZEOF_ETHER_HDR_def SIZEOF_ARP_HDR_def ether_addr_copy_def Let_def
  show ?thesis
    using r w(1) r1 w2(1) S eth arp [of "arp_of_bytes (take 28 (drop 14 D))"]
    by (simp add: run frame_arp_def)
qed

lemma handle_arp_ok:
  assumes ok: "router_ok (dom txq) e c thr ifs n" and me: "port_ok (dom txq) thr me" and h: "holds e (ms # css) Q"
    and D: "pkt_data (store e) ms = D" "42 \<le> length D"
  shows "handled css (q_id thr) (arp_action (map if_addr ifs) me D) Q e (thread_handle_ether_arp c thr me (hd ms) e)"
proof -
  have r: "buf_read (hd ms) 14 28 e = Inr (take 28 (drop 14 D))" using read_hdr [OF h, of ms 14 28] D by simp
  note run = thread_handle_ether_arp_def SIZEOF_ETHER_HDR_def SIZEOF_ARP_HDR_def Let_def r
    is_arp_msg_valid_eq [OF router_okD(2) [OF ok]] frame_arp_def [symmetric] arp_action_def
  show ?thesis
  proof (cases "arp_ok (map if_addr ifs) (frame_arp D)")
    case True
    then show ?thesis using arp_request_ok [OF assms] by (simp add: run arp_ok_def)
  next
    case False
    have "thread_handle_ether_arp c thr me (hd ms) e = buf_free c (hd ms) e" using False by (auto simp: run arp_ok_def)
    then show ?thesis using False drop_ok [OF h router_okD(1) [OF ok]] by (simp add: arp_action_def)
  qed
qed

lemma is_frame_valid_eq:
  assumes h: "holds e (ms # css) Q" and D: "pkt_data (store e) ms = D" and mac: "ether_addr_wf (if_mac me)"
  shows "is_frame_valid (hd ms) me e = Inr (14 \<le> length D \<and> length D \<le> 1514 \<and> for_me me D
     \<and> (case min_payload (rte_be_to_cpu_16 (ether_type (frame_eth D))) of None \<Rightarrow> False | Some k \<Rightarrow> 14 + k \<le> length D))"
proof -
  obtain b where b: "mbufs (store e) (hd ms) = Some b" "unat (pkt_len b) = length D"
    using packetD(2) [OF h, of ms] D(1) by auto
  show ?thesis
  proof (cases "14 \<le> length D")
    case True
    have r: "buf_read (hd ms) 0 14 e = Inr (take 14 D)" using read_hdr [OF h, of ms 0 14] D True by simp
    have wf: "ether_addr_wf (d_addr (frame_eth D))" using ether_addr_wf_frame [OF True] by (simp add: ether_hdr_wf_def)
    have me: "for_me me D \<longleftrightarrow> is_broadcast_ether_addr (d_addr (frame_eth D)) \<or> is_same_ether_addr (d_addr (frame_eth D)) (if_mac me)"
      by (simp add: for_me_def is_broadcast_ether_addr_iff [OF wf] is_same_ether_addr_iff [OF wf mac])
    note sizes = SIZEOF_ETHER_HDR_def ETHER_HDR_LEN_def ETHER_MAX_LEN_def ETHER_CRC_LEN_def ETHER_ADDR_LEN_def ETHER_TYPE_LEN_def
    show ?thesis
      using True b r unfolding me
      by (auto simp: is_frame_valid_def sizes frame_eth_def [symmetric] Let_def split: option.splits)
  next
    case False
    then show ?thesis using b by (simp add: is_frame_valid_def ETHER_HDR_LEN_def ETHER_ADDR_LEN_def ETHER_TYPE_LEN_def)
  qed
qed

lemma handle_frame_ok:
  assumes ok: "router_ok (dom txq) e c thr ifs n" and me: "port_ok (dom txq) thr me" and h: "holds e (ms # css) Q"
    and D: "pkt_data (store e) ms = D"
  shows "handled css (q_id thr) (frame_action (lpm_hop (ctx_rt c) n) (port_mac e) (map if_addr ifs) me D) Q e
     (thread_handle_frame c thr me (hd ms) e)"
proof -
  have mac: "ether_addr_wf (if_mac me)" using me by (simp add: port_ok_def)
  let ?ty = "rte_be_to_cpu_16 (ether_type (frame_eth D))"
  let ?A = "frame_action (lpm_hop (ctx_rt c) n) (port_mac e) (map if_addr ifs) me D"
  have types: "ETHER_TYPE_ARP \<noteq> ETHER_TYPE_IPv4" "ETHER_TYPE_IPv6 \<noteq> ETHER_TYPE_IPv4" "ETHER_TYPE_IPv6 \<noteq> ETHER_TYPE_ARP"
    by (simp_all add: c_defs)
  note sizes = SIZEOF_IPV4_HDR_def SIZEOF_IPV6_HDR_def SIZEOF_ARP_HDR_def
  note D0 = drop_ok [OF h router_okD(1) [OF ok]]
  show ?thesis
  proof (cases "14 \<le> length D \<and> length D \<le> 1514 \<and> for_me me D")
    case False
    then have "?A = Drop" by (auto simp: frame_action_def Let_def)
    then show ?thesis using False D0 by (auto simp: thread_handle_frame_def is_frame_valid_eq [OF h D mac])
  next
    case True
    then have r: "buf_read (hd ms) 0 14 e = Inr (take 14 D)" using read_hdr [OF h, of ms 0 14] D by simp
    have run: "thread_handle_frame c thr me (hd ms) e =
       (if ?ty = ETHER_TYPE_IPv4 \<and> 34 \<le> length D then thread_handle_ether_ipv4 c thr me (hd ms) e
        else if ?ty = ETHER_TYPE_ARP \<and> 42 \<le> length D then thread_handle_ether_arp c thr me (hd ms) e
        else buf_free c (hd ms) e)"
      using True r types
      by (simp add: thread_handle_frame_def is_frame_valid_eq [OF h D mac] min_payload_def sizes SIZEOF_ETHER_HDR_def
          frame_eth_def [symmetric] Let_def)
    have A: "?A = (if ?ty = ETHER_TYPE_IPv4 \<and> 34 \<le> length D then ipv4_action (lpm_hop (ctx_rt c) n) (port_mac e) D
        else if ?ty = ETHER_TYPE_ARP \<and> 42 \<le> length D then arp_action (map if_addr ifs) me D else Drop)"
      using True by (simp add: frame_action_def Let_def)
    show ?thesis
      unfolding run A using handle_ipv4_ok [OF ok h D, of me] handle_arp_ok [OF ok me h D] D0 by (auto split: if_split)
  qed
qed

lemma handle_frames_ok:
  assumes "router_ok (dom txq) e c thr ifs n" and me: "port_ok (dom txq) thr me" and "holds e (pss @ css) Q"
  shows "\<exists>e' Q'. thread_handle_frames c thr me (map hd pss) e = Inr e' \<and> holds e' css Q' \<and> same css e e'
     \<and> outcomes cap (out (q_id thr)) (map (\<lambda>ps. frame_action (lpm_hop (ctx_rt c) n) (port_mac e) (map if_addr ifs) me (pkt_data (store e) ps)) pss) Q Q'"
  using assms(1,3)
proof (induction pss arbitrary: e Q)
  case (Cons ps pss)
  let ?A = "\<lambda>e ps. frame_action (lpm_hop (ctx_rt c) n) (port_mac e) (map if_addr ifs) me (pkt_data (store e) ps)"
  have h: "holds e (ps # (pss @ css)) Q" using Cons.prems(2) by simp
  obtain e1 Q1 where s: "thread_handle_frame c thr me (hd ps) e = Inr e1" "holds e1 (pss @ css) Q1" "same (pss @ css) e e1"
    "outcome cap (out (q_id thr)) (?A e ps) Q Q1"
    using handle_frame_ok [OF Cons.prems(1) me h refl] by blast
  have dev: "devices e1 = devices e" using s(3) by simp
  obtain e' Q' where r: "thread_handle_frames c thr me (map hd pss) e1 = Inr e'" "holds e' css Q'" "same css e1 e'"
    "outcomes cap (out (q_id thr)) (map (?A e1) pss) Q1 Q'"
    using Cons.IH [OF router_ok_devices [OF dev Cons.prems(1)] s(2)] by blast
  have "map (?A e1) pss = map (?A e) pss"
    using s(3) by (simp add: pkt_data_seg_list port_mac_devices [OF dev])
  then have "outcomes cap (out (q_id thr)) (map (?A e) (ps # pss)) Q Q'" using s(4) r(4) by (auto simp del: map_eq_conv)
  moreover have "same css e e'" using s(3) r(3) by simp
  moreover have "thread_handle_frames c thr me (map hd (ps # pss)) e = Inr e'" using s(1) r(1) by simp
  ultimately show ?case using r(2) by blast
qed auto

end

section \<open>Rounds and threads\<close>

lemma received_none: "received ks 0 [] Q Q"
  by (induction ks) auto

definition act_of :: "'w eth \<Rightarrow> router_ctx \<Rightarrow> interface_config list \<Rightarrow> nat \<Rightarrow> interface_config \<Rightarrow> uint8 list \<Rightarrow> frame_action" where
  "act_of e c ifs n = frame_action (lpm_hop (ctx_rt c) n) (port_mac e) (map if_addr ifs)"

text \<open>What a thread relies on: its interfaces \<open>mes\<close> can send and receive with the queues the thread uses.\<close>

definition thread_ok :: "(uint8 \<times> uint16) set \<Rightarrow> (uint8 \<times> uint16) set \<Rightarrow> thread_config \<Rightarrow> interface_config list \<Rightarrow> bool" where
  "thread_ok txqs rxqs thr mes \<longleftrightarrow>
     pl_rep (thr_int_confs thr) (map Some mes)
     \<and> (\<forall>me\<in>set mes. port_ok txqs thr me \<and> (\<forall>j<unat (worker_count thr). (int_id me, of_nat j) \<in> rxqs))"

context port_io
begin

abbreviation inq :: "thread_config \<Rightarrow> uint8 \<Rightarrow> 'k list" where
  "inq thr p \<equiv> map (\<lambda>j. the (rxq (p, of_nat j))) [0..<unat (worker_count thr)]"

lemma rx_devices: "rte_eth_rx_burst p q n e = Inr (ms, e') \<Longrightarrow> devices e' = devices e"
  by (auto simp: rte_eth_rx_burst_def cbind_eq_Inr_iff split: option.splits if_splits)

lemma recv_loop_ok:
  assumes "\<forall>j\<in>{i..<n}. (p, of_nat j) \<in> dom rxq" and "unat N < 65536" and "length pss \<le> unat N" and "holds e (pss @ css) Q"
  shows "\<exists>qss e' Q'. recv_loop p i n N (map hd pss) e = Inr (map hd (pss @ qss), e') \<and> length (pss @ qss) \<le> unat N
     \<and> holds e' ((pss @ qss) @ css) Q' \<and> same (pss @ css) e e'
     \<and> received (map (\<lambda>j. the (rxq (p, of_nat j))) [i..<n]) (unat N - length pss) (map (pkt_data (store e')) qss) Q Q'"
  using assms
proof (induction "n - i" arbitrary: i pss e Q)
  case 0
  then have "recv_loop p i n N (map hd pss) e = Inr (map hd pss, e)" by (simp add: recv_loop.simps)
  then show ?case using 0 by (intro exI [of _ "[]"]) auto
next
  case (Suc d)
  have i: "i < n" using Suc.hyps(2) by simp
  have u: "unat (of_nat (length pss) :: uint32) = length pss" "unat (of_nat (length pss) :: uint16) = length pss"
    using Suc.prems(2,3) by (simp_all add: unat_of_nat_eq)
  have cond: "ucast (of_nat (length pss) :: uint16) < N \<longleftrightarrow> length pss < unat N"
    by (simp add: word_less_nat_alt u)
  show ?case
  proof (cases "length pss < unat N")
    case False
    then have "recv_loop p i n N (map hd pss) e = Inr (map hd pss, e)" by (simp add: recv_loop.simps cond)
    then show ?thesis using Suc.prems False by (intro exI [of _ "[]"]) (auto simp: received_none)
  next
    case True
    let ?m = "ucast (N - of_nat (length pss)) :: uint16"
    have m32: "unat (N - of_nat (length pss)) = unat N - length pss"
      using Suc.prems(3) u(1) by (simp add: unat_sub word_le_nat_alt)
    have m: "unat ?m = unat N - length pss"
      using m32 Suc.prems(2) by (simp add: unsigned_ucast_eq take_bit_nat_eq_self)
    obtain k where k: "rxq (p, of_nat i) = Some k" using Suc.prems(1) i by (meson atLeastLessThan_iff domD order_refl)
    obtain rss e1 where r: "rte_eth_rx_burst p (of_nat i) ?m e = Inr (map hd rss, e1)" "length rss \<le> unat ?m"
      "holds e1 (rss @ pss @ css) (Q(k := drop (length rss) (Q k)))" "map (pkt_data (store e1)) rss = take (length rss) (Q k)"
      "rss = [] \<longrightarrow> ?m = 0 \<or> Q k = []" "\<forall>zs\<in>set (pss @ css). seg_list (store e1) zs = seg_list (store e) zs"
      using rx_law [OF k Suc.prems(4), of ?m] by blast
    have h1: "holds e1 ((pss @ rss) @ css) (Q(k := drop (length rss) (Q k)))"
      by (rule order_law [OF r(3)]) simp
    have d: "d = n - Suc i" "\<forall>j\<in>{Suc i..<n}. (p, of_nat j) \<in> dom rxq" "length (pss @ rss) \<le> unat N"
      using Suc.hyps(2) Suc.prems(1,3) r(2) m by auto
    obtain qss e' Q' where rest: "recv_loop p (Suc i) n N (map hd (pss @ rss)) e1 = Inr (map hd ((pss @ rss) @ qss), e')"
      "length ((pss @ rss) @ qss) \<le> unat N" "holds e' (((pss @ rss) @ qss) @ css) Q'" "same ((pss @ rss) @ css) e1 e'"
      "received (map (\<lambda>j. the (rxq (p, of_nat j))) [Suc i..<n]) (unat N - length (pss @ rss)) (map (pkt_data (store e')) qss)
         (Q(k := drop (length rss) (Q k))) Q'"
      using Suc.hyps(1) [OF d(1,2) Suc.prems(2) d(3) h1] by blast
    have run: "recv_loop p i n N (map hd pss) e = Inr (map hd (pss @ rss @ qss), e')"
      using rest(1) r(1) i True by (subst recv_loop.simps) (simp add: cond)
    have data: "map (pkt_data (store e')) rss = take (length rss) (Q k)"
      using rest(4) by (simp add: r(4) [symmetric] pkt_data_seg_list)
    have "?m \<noteq> 0" using m True by auto
    then have j: "length rss = 0 \<longrightarrow> unat N - length pss = 0 \<or> Q k = []" using r(5) by simp
    have "length rss \<le> length (Q k)" using arg_cong [OF r(4), of length] by simp
    then have "received (map (\<lambda>j. the (rxq (p, of_nat j))) [i..<n]) (unat N - length pss) (map (pkt_data (store e')) (rss @ qss)) Q Q'"
      using rest(5) data j r(2) m k i
      by (auto simp: upt_conv_Cons diff_diff_left intro!: exI [of _ "length rss"] exI [of _ "map (pkt_data (store e')) qss"])
    moreover have "same (pss @ css) e e'" using rest(4) r(6) rx_devices [OF r(1)] by auto
    moreover have "length (pss @ rss @ qss) \<le> unat N" "holds e' ((pss @ rss @ qss) @ css) Q'" using rest(2,3) by simp_all
    ultimately show ?thesis using run by blast
  qed
qed

lemma poll_port_ok:
  assumes ok: "router_ok (dom txq) e c thr ifs n" and thr: "thread_ok (dom txq) (dom rxq) thr mes" and i: "i < length mes"
    and h: "holds e css Q"
  shows "\<exists>b' e' Q'. poll_port c thr i (b, e) = Inr (b', e') \<and> holds e' css Q' \<and> same css e e'
     \<and> (\<exists>Ds Q1. received (inq thr (int_id (mes ! i))) 32 Ds Q Q1 \<and> outcomes cap (out (q_id thr)) (map (act_of e c ifs n (mes ! i)) Ds) Q1 Q')"
proof -
  let ?me = "mes ! i"
  have pl: "pl_rep (thr_int_confs thr) (map Some mes)" and me: "port_ok (dom txq) thr ?me"
    and rx: "\<forall>j\<in>{0..<unat (worker_count thr)}. (int_id ?me, of_nat j) \<in> dom rxq"
    using thr i by (auto simp: thread_ok_def)
  have at: "int_conf_at (thr_int_confs thr) i = Inr ?me"
    using pl.get_of_nat [OF pl, of i] i by (simp add: int_conf_at_def)
  obtain pss e1 Q1 where r: "recv_from_device (int_id ?me) (worker_count thr) MAX_BURST_SIZE e = Inr (map hd pss, e1)"
    "holds e1 (pss @ css) Q1" "same css e e1" "received (inq thr (int_id ?me)) 32 (map (pkt_data (store e1)) pss) Q Q1"
    using recv_loop_ok [OF rx, of MAX_BURST_SIZE "[]" e css Q] h by (auto simp: recv_from_device_def MAX_BURST_SIZE_def)
  have dev: "devices e1 = devices e" using r(3) by simp
  show ?thesis
  proof (cases "pss = []")
    case True
    then have "poll_port c thr i (b, e) = Inr (b, e1)" by (simp add: poll_port_def at r(1))
    moreover have "outcomes cap (out (q_id thr)) (map (act_of e c ifs n ?me) (map (pkt_data (store e1)) pss)) Q1 Q1" using True by simp
    moreover have "holds e1 css Q1" using r(2) True by simp
    ultimately show ?thesis using r(3,4) by blast
  next
    case False
    obtain e' Q' where f: "thread_handle_frames c thr ?me (map hd pss) e1 = Inr e'" "holds e' css Q'" "same css e1 e'"
      "outcomes cap (out (q_id thr)) (map (\<lambda>ps. act_of e1 c ifs n ?me (pkt_data (store e1) ps)) pss) Q1 Q'"
      using handle_frames_ok [OF router_ok_devices [OF dev ok] me r(2)] by (auto simp: act_of_def)
    have "act_of e1 c ifs n = act_of e c ifs n" by (simp add: act_of_def port_mac_devices [OF dev] fun_eq_iff)
    then have "outcomes cap (out (q_id thr)) (map (act_of e c ifs n ?me) (map (pkt_data (store e1)) pss)) Q1 Q'"
      using f(4) by (simp add: comp_def)
    moreover have "poll_port c thr i (b, e) = Inr (True, e')" using False f(1) by (simp add: poll_port_def at r(1))
    moreover have "same css e e'" using r(3) f(3) by simp
    ultimately show ?thesis using r(4) f(2) by blast
  qed
qed

lemma routed_append:
  "routed cp ot iq ac n (xs @ ys) Q Q'' \<longleftrightarrow> (\<exists>Q'. routed cp ot iq ac n xs Q Q' \<and> routed cp ot iq ac n ys Q' Q'')"
  by (induction xs arbitrary: Q) (simp, simp, blast)

lemma router_round_ok:
  assumes ok: "router_ok (dom txq) e c thr ifs n" and thr: "thread_ok (dom txq) (dom rxq) thr mes" and h: "holds e css Q"
  shows "\<exists>b e' Q'. router_round c thr e = Inr (b, e') \<and> holds e' css Q' \<and> same css e e'
     \<and> routed cap (out (q_id thr)) (inq thr) (act_of e c ifs n) 32 mes Q Q'"
proof -
  have len: "unat (pointer_list_len (thr_int_confs thr)) = length mes"
    using thr by (simp add: thread_ok_def pl_rep_def pointer_list_len_def)
  let ?I = "\<lambda>i (_, e'). \<exists>Q'. holds e' css Q' \<and> same css e e' \<and> routed cap (out (q_id thr)) (inq thr) (act_of e c ifs n) 32 (take i mes) Q Q'"
  have "\<exists>s'. c_for 0 (length mes) (poll_port c thr) (False, e) = Inr s' \<and> ?I (length mes) s'"
  proof (rule c_for_rule)
    show "?I 0 (False, e)" using h by simp
  next
    fix i and s :: "bool \<times> 'w eth"
    assume i: "i < length mes" and "?I i s"
    then obtain b e1 Q1 where s: "s = (b, e1)" "holds e1 css Q1" "same css e e1"
      "routed cap (out (q_id thr)) (inq thr) (act_of e c ifs n) 32 (take i mes) Q Q1"
      by (cases s) auto
    have dev: "devices e1 = devices e" using s(3) by simp
    obtain b' e' Q' Ds Q2 where p: "poll_port c thr i (b, e1) = Inr (b', e')" "holds e' css Q'" "same css e1 e'"
      "received (inq thr (int_id (mes ! i))) 32 Ds Q1 Q2" "outcomes cap (out (q_id thr)) (map (act_of e1 c ifs n (mes ! i)) Ds) Q2 Q'"
      using poll_port_ok [OF router_ok_devices [OF dev ok] thr i s(2), of b] by blast
    have "act_of e1 c ifs n = act_of e c ifs n" by (simp add: act_of_def port_mac_devices [OF dev] fun_eq_iff)
    then have "routed cap (out (q_id thr)) (inq thr) (act_of e c ifs n) 32 (take (Suc i) mes) Q Q'"
      using s(4) p(4,5) i by (auto simp: take_Suc_conv_app_nth routed_append)
    then show "\<exists>s'. poll_port c thr i s = Inr s' \<and> ?I (Suc i) s'"
      using p(1-3) s(1,3) by auto
  qed simp
  then show ?thesis by (auto simp: router_round_def len)
qed

end

text \<open>
  A run of a thread among signals and the hardware, fair if the thread itself moves again and
  again while it is running.
\<close>

definition own_step :: "router_ctx \<Rightarrow> thread_config \<Rightarrow> bool \<times> 'w thread_state \<Rightarrow> bool \<times> 'w thread_state \<Rightarrow> bool" where
  "own_step c thr s s' \<longleftrightarrow>
     (\<exists>e. snd s = Running e \<and>
        (if fst s then s' = (True, Returned 1 e)
         else case router_round c thr e of Inl err \<Rightarrow> s' = (False, Crashed err) | Inr (b, e') \<Rightarrow> s' = (False, Running e')))"

definition thread_run ::
  "('w eth \<Rightarrow> 'w eth \<Rightarrow> bool) \<Rightarrow> router_ctx \<Rightarrow> thread_config \<Rightarrow> (nat \<Rightarrow> bool \<times> 'w thread_state) \<Rightarrow> bool" where
  "thread_run hardware c thr run \<longleftrightarrow>
     (\<forall>i. router_thread hardware c thr (run i) (run (Suc i)))
     \<and> (\<forall>i e. snd (run i) = Running e \<longrightarrow> (\<exists>j\<ge>i. own_step c thr (run j) (run (Suc j))))"

definition thread_inv :: "('w eth \<Rightarrow> bool) \<Rightarrow> bool \<times> 'w thread_state \<Rightarrow> bool" where
  "thread_inv P s \<longleftrightarrow>
     (case snd s of Running e \<Rightarrow> P e | Returned r e \<Rightarrow> fst s \<and> r = 1 \<and> P e | Crashed err \<Rightarrow> False)"

lemma own_step_router_thread: "own_step c thr s s' \<Longrightarrow> router_thread hardware c thr s s'"
  by (cases s) (auto simp: own_step_def intro: router_thread.intros split: if_splits sum.splits)

lemma force_quit_stays: "router_thread hardware c thr s s' \<Longrightarrow> fst s \<Longrightarrow> fst s'"
  by (cases rule: router_thread.cases, assumption) (auto simp: signal_handler_def)

context port_io
begin

abbreviation settled :: "addr list list \<Rightarrow> 'w eth \<Rightarrow> 'w eth \<Rightarrow> bool" where
  "settled css e0 e \<equiv> devices e = devices e0 \<and> (\<exists>Q. holds e css Q)"

lemma thread_inv_step:
  assumes ok: "router_ok (dom txq) e0 c thr ifs n" and thr: "thread_ok (dom txq) (dom rxq) thr mes"
    and hw: "\<And>e e'. hardware e e' \<Longrightarrow> settled css e0 e \<Longrightarrow> settled css e0 e'"
    and st: "router_thread hardware c thr s s'" and inv: "thread_inv (settled css e0) s"
  shows "thread_inv (settled css e0) s'"
  using st
proof (cases rule: router_thread.cases)
  case (signal fq t signum)
  then show ?thesis using inv by (auto simp: thread_inv_def signal_handler_def split: thread_state.splits)
next
  case (arrival e e' fq)
  then show ?thesis using inv hw [of e e'] by (auto simp: thread_inv_def)
next
  case (round e b e')
  then obtain Q where d: "devices e = devices e0" and h: "holds e css Q" using inv by (auto simp: thread_inv_def)
  then show ?thesis using router_round_ok [OF router_ok_devices [OF d ok] thr h] round by (auto simp: thread_inv_def)
next
  case (crash e err)
  then obtain Q where d: "devices e = devices e0" and h: "holds e css Q" using inv by (auto simp: thread_inv_def)
  then show ?thesis using router_round_ok [OF router_ok_devices [OF d ok] thr h] crash by auto
next
  case (quit e)
  then show ?thesis using inv by (auto simp: thread_inv_def)
qed

lemma thread_returns:
  assumes ok: "router_ok (dom txq) e0 c thr ifs n" and thr: "thread_ok (dom txq) (dom rxq) thr mes" and h: "holds e0 css Q0"
    and hw: "\<And>e e'. hardware e e' \<Longrightarrow> settled css e0 e \<Longrightarrow> settled css e0 e'"
    and run: "thread_run hardware c thr run" "run 0 = (fq, Running e0)"
  shows "snd (run i) \<noteq> Crashed err"
    and "fst (run i) \<Longrightarrow> \<exists>j\<ge>i. \<exists>e Q. run j = (True, Returned 1 e) \<and> holds e css Q"
proof -
  have step: "router_thread hardware c thr (run i) (run (Suc i))" for i using run(1) by (simp add: thread_run_def)
  have inv: "thread_inv (settled css e0) (run i)" for i
  proof (induction i)
    case 0
    show ?case using h by (auto simp: run(2) thread_inv_def)
  next
    case (Suc i)
    from thread_inv_step [OF ok thr _ step Suc] show ?case using hw by blast
  qed
  show "snd (run i) \<noteq> Crashed err" using inv [of i] by (auto simp: thread_inv_def)
  assume fq: "fst (run i)"
  have quit: "fst (run j)" if "i \<le> j" for j
    using that by (induction rule: dec_induct) (use fq force_quit_stays [OF step] in blast)+
  show "\<exists>j\<ge>i. \<exists>e Q. run j = (True, Returned 1 e) \<and> holds e css Q"
  proof (cases "snd (run i)")
    case (Running e)
    then obtain j where j: "i \<le> j" "own_step c thr (run j) (run (Suc j))" using run(1) by (auto simp: thread_run_def)
    then obtain e' where e': "run (Suc j) = (True, Returned 1 e')" using quit [of j] by (auto simp: own_step_def)
    then obtain Q where "holds e' css Q" using inv [of "Suc j"] by (auto simp: thread_inv_def)
    then show ?thesis using j(1) e' by (intro exI [of _ "Suc j"]) auto
  next
    case (Returned r e)
    then show ?thesis using inv [of i] fq by (intro exI [of _ i], cases "run i") (auto simp: thread_inv_def)
  next
    case (Crashed err)
    then show ?thesis using inv [of i] by (simp add: thread_inv_def)
  qed
qed

end

end
