(* ===== verification/RingPmd.thy ===== *)
theory RingPmd
  imports DpdkInit
begin

text \<open>
  The driver of \<^verbatim>\<open>drivers/net/ring\<close>, whose ports send into rings and receive from rings. A queue is a
  \<open>ring_queue\<close> structure inside the private data of its port; the model keeps these structures by
  address, and the private data holds the addresses. The statistics counters wrap around at 64 bits.
  Creating the port, its arguments and its statistics calls are not modelled.
\<close>

record ring_queue =
  rng :: addr
  rx_pkts :: uint64
  tx_pkts :: uint64
  err_pkts :: uint64

record pmd_internals =
  pmd_max_rx_queues :: uint32
  pmd_max_tx_queues :: uint32
  rx_ring_queues :: "addr list"
  tx_ring_queues :: "addr list"

record ring_hw =
  rings :: "addr \<Rightarrow> addr rte_ring option"
  ring_queues :: "addr \<Rightarrow> ring_queue option"
  pmds :: "addr \<Rightarrow> pmd_internals option"

definition ring_queue_at :: "ring_hw \<Rightarrow> addr option \<Rightarrow> (addr \<times> ring_queue \<times> addr rte_ring) cres" where
  "ring_queue_at k q =
     (case q of
        None \<Rightarrow> Inl Null_deref
      | Some a \<Rightarrow>
          (case ring_queues k a of
             None \<Rightarrow> Inl Null_deref
           | Some r \<Rightarrow> (case rings k (rng r) of None \<Rightarrow> Inl Null_deref | Some rg \<Rightarrow> Inr (a, r, rg))))"

definition ring_queue_set :: "addr \<Rightarrow> ring_queue \<Rightarrow> addr rte_ring \<Rightarrow> ring_hw \<Rightarrow> ring_hw" where
  "ring_queue_set a r rg k =
     k\<lparr>rings := (rings k)(rng r := Some rg), ring_queues := (ring_queues k)(a := Some r)\<rparr>"

definition eth_ring_rx :: "addr option \<Rightarrow> uint16 \<Rightarrow> ring_hw world \<Rightarrow> (addr list \<times> ring_hw world) cres" where
  "eth_ring_rx q nb_bufs w =
     cbind (ring_queue_at (fst w) q) (\<lambda>(a, r, rg).
     cbind (rte_ring_dequeue_burst rg (ucast nb_bufs)) (\<lambda>(bufs, _, rg).
     Inr (bufs, ring_queue_set a (r\<lparr>rx_pkts := rx_pkts r + of_nat (length bufs)\<rparr>) rg (fst w), snd w)))"

definition eth_ring_tx :: "addr option \<Rightarrow> addr list \<Rightarrow> ring_hw world \<Rightarrow> (uint16 \<times> ring_hw world) cres" where
  "eth_ring_tx q bufs w =
     cbind (ring_queue_at (fst w) q) (\<lambda>(a, r, rg).
     cbind (rte_ring_enqueue_burst rg bufs (of_nat (length bufs))) (\<lambda>(n, _, rg).
     let nb_tx = (ucast n :: uint16)
     in Inr (nb_tx, ring_queue_set a (r\<lparr>tx_pkts := tx_pkts r + ucast nb_tx,
          err_pkts := err_pkts r + (of_nat (length bufs) - ucast nb_tx)\<rparr>) rg (fst w), snd w)))"

definition pmd_at :: "ring_hw world \<Rightarrow> rte_eth_dev_data \<Rightarrow> pmd_internals cres" where
  "pmd_at w d = (case pmds (fst w) (dev_private d) of None \<Rightarrow> Inl Null_deref | Some p \<Rightarrow> Inr p)"

definition eth_dev_configure :: "ring_hw drv_op" where
  "eth_dev_configure d w = Inr (0, d, w)"

definition eth_dev_start :: "ring_hw drv_op" where
  "eth_dev_start d w = Inr (0, d\<lparr>link_up := True\<rparr>, w)"

definition eth_dev_stop :: "ring_hw drv_void" where
  "eth_dev_stop d w = Inr (d\<lparr>link_up := False\<rparr>, w)"

definition eth_dev_set_link_down :: "ring_hw drv_op" where
  "eth_dev_set_link_down d w = Inr (0, d\<lparr>link_up := False\<rparr>, w)"

definition eth_dev_set_link_up :: "ring_hw drv_op" where
  "eth_dev_set_link_up d w = Inr (0, d\<lparr>link_up := True\<rparr>, w)"

text \<open>Storing the address of the queue structure in the array of queues of the device.\<close>

definition put_queue :: "addr list \<Rightarrow> addr option list option \<Rightarrow> nat \<Rightarrow> addr option list cres" where
  "put_queue structs qs i =
     (case qs of
        None \<Rightarrow> Inl Null_deref
      | Some cells \<Rightarrow>
          if i < length structs \<and> i < length cells then Inr (cells[i := Some (structs ! i)]) else Inl Out_of_bounds)"

definition eth_rx_queue_setup :: "uint16 \<Rightarrow> uint16 \<Rightarrow> rte_eth_rxconf \<Rightarrow> addr \<Rightarrow> ring_hw drv_op" where
  "eth_rx_queue_setup rx_queue_id nb_rx_desc rx_conf mp d w =
     cbind (pmd_at w d) (\<lambda>internals.
     cbind (put_queue (rx_ring_queues internals) (rx_queues d) (unat rx_queue_id)) (\<lambda>cells.
     Inr (0, d\<lparr>rx_queues := Some cells\<rparr>, w)))"

definition eth_tx_queue_setup :: "uint16 \<Rightarrow> uint16 \<Rightarrow> rte_eth_txconf \<Rightarrow> ring_hw drv_op" where
  "eth_tx_queue_setup tx_queue_id nb_tx_desc tx_conf d w =
     cbind (pmd_at w d) (\<lambda>internals.
     cbind (put_queue (tx_ring_queues internals) (tx_queues d) (unat tx_queue_id)) (\<lambda>cells.
     Inr (0, d\<lparr>tx_queues := Some cells\<rparr>, w)))"

definition eth_dev_info :: "rte_eth_dev_data \<Rightarrow> ring_hw world \<Rightarrow> rte_eth_dev_info \<Rightarrow> rte_eth_dev_info cres" where
  "eth_dev_info d w info =
     cbind (pmd_at w d) (\<lambda>internals.
     Inr (info\<lparr>max_mac_addrs := 1, max_rx_pktlen := - 1, max_rx_queues := ucast (pmd_max_rx_queues internals),
            max_tx_queues := ucast (pmd_max_tx_queues internals), min_rx_bufsize := 0\<rparr>))"

definition eth_mac_addr_add :: "ether_addr \<Rightarrow> uint32 \<Rightarrow> uint32 \<Rightarrow> ring_hw drv_op" where
  "eth_mac_addr_add mac_addr index vmdq d w = Inr (0, d, w)"

definition eth_queue_release :: "addr option \<Rightarrow> ring_hw world \<Rightarrow> ring_hw world cres" where
  "eth_queue_release q w = Inr w"

definition eth_link_update :: "ring_hw drv_op" where
  "eth_link_update d w = Inr (0, d, w)"

definition ring_ops :: "ring_hw eth_dev_ops" where
  "ring_ops =
     \<lparr>op_dev_configure = Some eth_dev_configure, op_dev_start = Some eth_dev_start, op_dev_stop = Some eth_dev_stop,
      op_dev_set_link_up = Some eth_dev_set_link_up, op_dev_set_link_down = Some eth_dev_set_link_down,
      op_dev_close = None, op_link_update = Some eth_link_update, op_promiscuous_enable = None,
      op_promiscuous_disable = None, op_allmulticast_enable = None, op_allmulticast_disable = None,
      op_mac_addr_add = Some eth_mac_addr_add, op_mac_addr_set = None, op_dev_infos_get = Some eth_dev_info,
      op_rx_queue_start = None, op_rx_queue_stop = None, op_tx_queue_start = None, op_tx_queue_stop = None,
      op_rx_queue_setup = Some eth_rx_queue_setup, op_rx_queue_release = Some eth_queue_release,
      op_tx_queue_setup = Some eth_tx_queue_setup, op_tx_queue_release = Some eth_queue_release\<rparr>"

end
