(* ===== verification/Router_Ring.thy ===== *)
theory Router_Ring
  imports Router_Correct RingPmd
begin

text \<open>
  Ports of the ring driver keep the contract \<open>port_io\<close>: the packets in the rings and the packets a thread
  holds are the held packets of the store, and what waits in a queue are the data of the packets in its ring.
\<close>

section \<open>Held frames\<close>

lemma bytes_at_put_inside:
  "off + length bs \<le> n \<Longrightarrow> bytes_at (bytes_put f (a + off) bs) a n = overwrite off bs (bytes_at f a n)"
  by (rule nth_equalityI) (auto simp: bytes_at_def bytes_put_def overwrite_def nth_append)

text \<open>
  Packets that are held, with their headers in the first segment and data that no two segments
  share.
\<close>

definition held_frames :: "mbuf_mem \<Rightarrow> addr list list \<Rightarrow> bool" where
  "held_frames h css \<longleftrightarrow>
     store_owns h css \<and> (\<forall>ms\<in>set css. pkt_ok h (hd ms) ms \<and> hdr_room h ms)
     \<and> (\<forall>m\<in>set (concat css). \<forall>x\<in>set (concat css). \<forall>b. m \<noteq> x \<longrightarrow> mbufs h m = Some b \<longrightarrow> apart b h x)"

lemma mset_concat_sum: "mset (concat xs) = (\<Sum>x\<in>#mset xs. mset x)"
  by (induction xs) simp_all

lemma store_owns_perm: "mset css' = mset css \<Longrightarrow> store_owns h css \<Longrightarrow> store_owns h css'"
proof -
  assume m: "mset css' = mset css" and o: "store_owns h css"
  have c: "mset (concat css') = mset (concat css)" using m by (simp only: mset_concat_sum)
  have "distinct (concat css')" using o mset_eq_imp_distinct_iff [OF c] by (simp only: store_owns_def)
  then show ?thesis using o c mset_eq_setD [OF m] by (simp only: store_owns_def) blast
qed

lemma held_frames_perm: "mset css' = mset css \<Longrightarrow> held_frames h css \<Longrightarrow> held_frames h css'"
  using store_owns_perm [of css' css h] mset_eq_setD [of css' css] by (simp add: held_frames_def)

lemma held_frames_buffer:
  assumes "held_frames h css" and "x \<in> set (concat css)"
  shows "\<exists>b. mbufs h x = Some b \<and> seg_ok b"
  using assms by (auto simp: held_frames_def pkt_ok_def segs_ok_def)

lemma held_frames_kept:
  assumes k: "kept (set (concat css)) h h'" and f: "held_frames h (ms # css)" and o: "store_owns h' css"
  shows "held_frames h' css" "zs \<in> set css \<Longrightarrow> seg_list h' zs = seg_list h zs"
proof -
  have buf: "\<exists>b c. mbufs h x = Some b \<and> seg_ok b \<and> mbufs h' x = Some (b\<lparr>refcnt := c\<rparr>)" if "x \<in> set (concat css)" for x
    using held_frames_buffer [OF f, of x] k that unfolding kept_def by fastforce
  have view: "view h' x = view h x" if "x \<in> set (concat css)" for x using buf [OF that] by (auto simp: view_def)
  have mem: "mem_bytes h' = mem_bytes h" using k by (simp add: kept_def)
  have seg: "seg_data h' x = seg_data h x" if "x \<in> set (concat css)" for x by (rule seg_data_view [OF view [OF that] mem])
  show sl: "seg_list h' zs = seg_list h zs" if "zs \<in> set css" for zs using that seg by (auto simp: seg_list_def)
  have pd: "pkt_data h' zs = pkt_data h zs" if "zs \<in> set css" for zs using sl [OF that] by (simp add: pkt_data_seg_list)
  have "pkt_ok h' (hd zs) zs \<and> hdr_room h' zs" if z: "zs \<in> set css" for zs
  proof -
    have p: "pkt_ok h (hd zs) zs" "hdr_room h zs" using f z by (simp_all add: held_frames_def)
    then have ne: "hd zs \<in> set zs" by (simp add: hdr_room_def)
    then have hd: "hd zs \<in> set (concat css)" using z by auto
    have "seg_chain h' (Some (hd zs)) zs" using o z by (simp add: store_owns_def)
    moreover have "segs_ok h' zs" using buf z by (fastforce simp: segs_ok_def seg_ok_def)
    moreover have "\<exists>b. mbufs h' (hd zs) = Some b \<and> unat (pkt_len b) = length (pkt_data h' zs)"
      using buf [OF hd] p(1) pd [OF z] by (auto simp: pkt_ok_def)
    ultimately show ?thesis using p(2) pd [OF z] seg [OF hd] by (simp add: pkt_ok_def hdr_room_def)
  qed
  moreover have "apart b h' x" if a: "m \<in> set (concat css)" "x \<in> set (concat css)" "m \<noteq> x" "mbufs h' m = Some b" for m x b
  proof -
    obtain b0 c where b: "mbufs h m = Some b0" "b = b0\<lparr>refcnt := c\<rparr>" using buf [OF a(1)] a(4) by auto
    then have "apart b0 h x" using f a(1-3) by (auto simp: held_frames_def)
    then have "apart b0 h' x" by (rule apart_view [OF view [OF a(2)]])
    then show ?thesis using b(2) by (simp add: apart_def)
  qed
  ultimately show "held_frames h' css" using o by (simp add: held_frames_def)
qed

lemma held_frames_free:
  assumes "held_frames h (ms # css)"
  shows "\<exists>h'. rte_pktmbuf_free 32767 lcore (Some (hd ms)) h = Inr h' \<and> held_frames h' css
     \<and> (\<forall>zs\<in>set css. seg_list h' zs = seg_list h zs)"
proof -
  have "store_owns h ([] @ ms # css)" using assms by (simp add: held_frames_def)
  then obtain h' where h': "rte_pktmbuf_free 32767 lcore (Some (hd ms)) h = Inr h'" "store_owns h' css" "kept (set (concat css)) h h'"
    using store_free [of h "[]" ms css 32767 lcore] by auto
  then show ?thesis using held_frames_kept [OF h'(3) assms h'(2)] by blast
qed

lemma held_frames_write:
  assumes f: "held_frames h (ms # css)" and b: "mbufs h (hd ms) = Some b" and le: "off + length bs \<le> unat (data_len b)"
    and h': "h' = h\<lparr>mem_bytes := bytes_put (mem_bytes h) (rte_pktmbuf_mtod_offset b off) bs\<rparr>"
  shows "held_frames h' (ms # css)" "zs \<in> set css \<Longrightarrow> seg_list h' zs = seg_list h zs"
    "seg_list h' ms = overwrite off bs (seg_data h (hd ms)) # seg_list h (tl ms)"
proof -
  let ?all = "set (concat (ms # css))"
  have p: "pkt_ok h (hd ms) ms" "ms \<noteq> []" using f by (auto simp: held_frames_def hdr_room_def)
  then obtain m r where ms: "ms = m # r" by (cases ms) auto
  have hd: "m \<in> ?all" by (simp add: ms)
  have sb: "seg_ok b" using held_frames_buffer [OF f hd] b ms by auto
  have d: "distinct (concat (ms # css))" using f by (simp only: held_frames_def store_owns_def)
  have buf: "mbufs h' = mbufs h" by (simp add: h')
  have other: "seg_data h' x = seg_data h x" if "x \<in> ?all" "x \<noteq> m" for x
  proof -
    have "apart b h x" using f that hd b ms unfolding held_frames_def by (metis list.sel(1))
    then show ?thesis using le sb
      by (auto simp: seg_data_def h' apart_def seg_ok_def rte_pktmbuf_mtod_def rte_pktmbuf_mtod_offset_def
          intro!: bytes_at_put_other split: option.splits)
  qed
  have self: "seg_data h' m = overwrite off bs (seg_data h m)"
    using b le by (simp add: ms h' bytes_at_put_inside rte_pktmbuf_mtod_def rte_pktmbuf_mtod_offset_def)
  then have len: "length (seg_data h' x) = length (seg_data h x)" if "x \<in> ?all" for x
    using other [OF that] le b ms by (cases "x = m") auto
  show "seg_list h' zs = seg_list h zs" if "zs \<in> set css"
    using that other d by (auto simp: seg_list_def ms)
  show "seg_list h' ms = overwrite off bs (seg_data h (hd ms)) # seg_list h (tl ms)"
    using self other d by (auto simp: seg_list_def ms)
  have pl: "length (pkt_data h' zs) = length (pkt_data h zs)" if "zs \<in> set (ms # css)" for zs
  proof -
    have "map (length \<circ> seg_data h') zs = map (length \<circ> seg_data h) zs" using len that by auto
    then show ?thesis by (simp only: pkt_data_def length_concat map_map)
  qed
  have "pkt_ok h' (hd zs) zs \<and> hdr_room h' zs" if z: "zs \<in> set (ms # css)" for zs
  proof -
    have q: "pkt_ok h (hd zs) zs" "hdr_room h zs" using f z by (simp_all only: held_frames_def)
    then have "hd zs \<in> set zs" by (simp add: hdr_room_def)
    then have "hd zs \<in> ?all" using z by auto
    then show ?thesis using q pl [OF z] len by (simp add: pkt_ok_def hdr_room_def segs_ok_def buf) (simp add: h')
  qed
  moreover have "store_owns h' (ms # css)" using f by (simp add: held_frames_def store_owns_def h')
  moreover have "apart c h' x = apart c h x" for c x by (simp add: apart_def buf)
  ultimately show "held_frames h' (ms # css)" using f by (simp only: held_frames_def buf) blast
qed

section \<open>Ports on rings\<close>

text \<open>
  The ports of the ring driver: \<open>txq\<close> and \<open>rxq\<close> give the ring of a queue, among the rings \<open>K\<close>.
\<close>

definition ring_wired ::
  "(uint8 \<times> uint16 \<Rightarrow> addr option) \<Rightarrow> (uint8 \<times> uint16 \<Rightarrow> addr option) \<Rightarrow> addr list \<Rightarrow> ring_hw eth \<Rightarrow> bool" where
  "ring_wired txq rxq K e \<longleftrightarrow>
     (\<forall>p q k. txq (p, q) = Some k \<longrightarrow> k \<in> set K \<and>
        (\<exists>dev a. dev_at e p = Inr dev \<and> queue_ptr (tx_queues (dev_data dev)) (unat q) = Inr (Some a)
           \<and> cbs_at (pre_tx_burst_cbs dev) (unat q) = Inr [] \<and> tx_pkt_burst dev = Some eth_ring_tx
           \<and> map_option rng (ring_queues (fst (wld e)) a) = Some k))
     \<and> (\<forall>p q k. rxq (p, q) = Some k \<longrightarrow> k \<in> set K \<and>
        (\<exists>dev a. dev_at e p = Inr dev \<and> queue_ptr (rx_queues (dev_data dev)) (unat q) = Inr (Some a)
           \<and> cbs_at (post_rx_burst_cbs dev) (unat q) = Inr [] \<and> rx_pkt_burst dev = Some eth_ring_rx
           \<and> map_option rng (ring_queues (fst (wld e)) a) = Some k))"

definition rings_hold :: "(addr \<Rightarrow> nat) \<Rightarrow> addr list \<Rightarrow> ring_hw \<Rightarrow> (addr \<Rightarrow> addr list list) \<Rightarrow> bool" where
  "rings_hold cap K hw nic \<longleftrightarrow>
     (\<forall>k\<in>set K. \<exists>r. rings hw k = Some r \<and> ring_rep r (map hd (nic k)) \<and> unat (ring_capacity r) = cap k)"

definition ring_io ::
  "(uint8 \<times> uint16 \<Rightarrow> addr option) \<Rightarrow> (uint8 \<times> uint16 \<Rightarrow> addr option) \<Rightarrow> (addr \<Rightarrow> nat) \<Rightarrow> addr list \<Rightarrow>
   ring_hw eth \<Rightarrow> addr list list \<Rightarrow> (addr \<Rightarrow> uint8 list list) \<Rightarrow> bool" where
  "ring_io txq rxq cap K e css Q \<longleftrightarrow>
     distinct K \<and> ring_wired txq rxq K e
     \<and> (\<exists>nic. rings_hold cap K (fst (wld e)) nic \<and> held_frames (store e) (css @ concat (map nic K))
          \<and> (\<forall>k\<in>set K. Q k = map (pkt_data (store e)) (nic k)))"

lemma ring_wired_set_store [simp]: "ring_wired txq rxq K (set_store h e) = ring_wired txq rxq K e"
  by (simp add: ring_wired_def set_store_def dev_at_def)

lemma ring_wired_step:
  assumes "ring_wired txq rxq K e" and "ring_queues (fst (wld e)) a = Some r" and "rng r' = rng r"
  shows "ring_wired txq rxq K (e\<lparr>wld := (ring_queue_set a r' rg (fst (wld e)), snd (wld e))\<rparr>)"
proof -
  let ?e = "e\<lparr>wld := (ring_queue_set a r' rg (fst (wld e)), snd (wld e))\<rparr>"
  have "map_option rng (ring_queues (ring_queue_set a r' rg (fst (wld e))) x) = map_option rng (ring_queues (fst (wld e)) x)" for x
    using assms(2,3) by (simp add: ring_queue_set_def)
  then have wires: "map_option rng (ring_queues (fst (wld ?e)) x) = map_option rng (ring_queues (fst (wld e)) x)" for x by simp
  have "dev_at ?e p = dev_at e p" for p by (simp add: dev_at_def)
  then show ?thesis using assms(1) unfolding ring_wired_def wires by simp
qed

lemma rings_hold_step:
  assumes "rings_hold cap K hw nic" and "ring_rep rg (map hd ps)" and "unat (ring_capacity rg) = cap (rng r')"
  shows "rings_hold cap K (ring_queue_set a r' rg hw) (nic(rng r' := ps))"
  using assms by (auto simp: rings_hold_def ring_queue_set_def)

lemma mset_concat_upd:
  "distinct K \<Longrightarrow> k \<in> set K \<Longrightarrow>
   mset (concat (map (f(k := ys)) K)) + mset (f k) = mset (concat (map f K)) + mset ys"
proof (induction K)
  case (Cons a K)
  show ?case
  proof (cases "a = k")
    case True
    then have "map (f(k := ys)) K = map f K" using Cons.prems(1) by auto
    from arg_cong [OF this, of "\<lambda>l. mset (concat l)"] show ?thesis using True by (simp add: ac_simps fun_upd_def)
  next
    case False
    then show ?thesis using Cons by (simp add: ac_simps)
  qed
qed simp

lemma ring_io_tx:
  assumes k: "txq (p, q) = Some k" and io: "ring_io txq rxq cap K e (ms # css) Q"
  shows "\<exists>n e'. rte_eth_tx_burst p q [hd ms] e = Inr (n, e') \<and> (\<forall>zs\<in>set css. seg_list (store e') zs = seg_list (store e) zs)
        \<and> (if n = 0 then cap k \<le> length (Q k) \<and> ring_io txq rxq cap K e' (ms # css) Q \<and> seg_list (store e') ms = seg_list (store e) ms
           else ring_io txq rxq cap K e' css (Q(k := Q k @ [pkt_data (store e) ms])))"
proof -
  obtain nic where d: "distinct K" and w: "ring_wired txq rxq K e" and rh: "rings_hold cap K (fst (wld e)) nic"
    and hf: "held_frames (store e) ((ms # css) @ concat (map nic K))" and Q: "\<forall>k\<in>set K. Q k = map (pkt_data (store e)) (nic k)"
    using io unfolding ring_io_def by blast
  obtain dev a r where dev: "dev_at e p = Inr dev" "queue_ptr (tx_queues (dev_data dev)) (unat q) = Inr (Some a)"
    "cbs_at (pre_tx_burst_cbs dev) (unat q) = Inr []" "tx_pkt_burst dev = Some eth_ring_tx"
    "ring_queues (fst (wld e)) a = Some r" "rng r = k" and kK: "k \<in> set K"
    using w k unfolding ring_wired_def map_option_eq_Some by blast
  obtain rg where rg: "rings (fst (wld e)) k = Some rg" "ring_rep rg (map hd (nic k))" "unat (ring_capacity rg) = cap k"
    using rh kK unfolding rings_hold_def by blast
  define j where "j = ring_moved RTE_RING_QUEUE_VARIABLE (cap k - length (nic k)) 1"
  have j: "j = (if length (nic k) < cap k then 1 else 0)" by (auto simp: j_def ring_moved_def)
  obtain rg' fs where enq: "rte_ring_enqueue_burst rg [hd ms] 1 = Inr (of_nat j, fs, rg')"
    "ring_rep rg' (map hd (nic k) @ take j [hd ms])" "ring_capacity rg' = ring_capacity rg"
    using do_enqueue_rep [OF rg(2), of 1 "[hd ms]" RTE_RING_QUEUE_VARIABLE "single (prod rg)"]
    by (auto simp: rte_ring_enqueue_burst_def j_def rg(3))
  define r' where "r' = r\<lparr>tx_pkts := tx_pkts r + ucast (ucast (of_nat j :: uint32) :: uint16),
      err_pkts := err_pkts r + (1 - ucast (ucast (of_nat j :: uint32) :: uint16))\<rparr>"
  define e' where "e' = e\<lparr>wld := (ring_queue_set a r' rg' (fst (wld e)), snd (wld e))\<rparr>"
  have run: "rte_eth_tx_burst p q [hd ms] e = Inr (of_nat j, e')"
    using dev rg(1) enq(1) j by (auto simp: rte_eth_tx_burst_def eth_ring_tx_def ring_queue_at_def Let_def e'_def r'_def)
  have r': "rng r' = k" by (simp add: r'_def dev(6))
  have w': "ring_wired txq rxq K e'" unfolding e'_def by (rule ring_wired_step [OF w dev(5)]) (simp add: r' dev(6))
  let ?nic = "nic(k := nic k @ take j [ms])"
  have rh': "rings_hold cap K (fst (wld e')) ?nic"
    using rings_hold_step [OF rh, of rg' "nic k @ take j [ms]" r' a] enq(2,3) rg(3) r' by (simp add: e'_def take_map [symmetric])
  have st: "store e' = store e" by (simp add: e'_def)
  show ?thesis
  proof (cases "j = 0")
    case True
    have "ring_io txq rxq cap K e' (ms # css) Q"
      unfolding ring_io_def st using d w' rh' True hf Q by (auto intro!: exI [of _ nic])
    moreover have "cap k \<le> length (Q k)" using True j Q kK by (auto split: if_splits)
    ultimately show ?thesis using run True st by auto
  next
    case False
    then have j1: "j = 1" using j by (auto split: if_splits)
    have "mset (css @ concat (map ?nic K)) = mset ((ms # css) @ concat (map nic K))"
      using mset_concat_upd [OF d kK, of nic "nic k @ [ms]"] j1 by (simp add: ac_simps)
    then have "held_frames (store e') (css @ concat (map ?nic K))" unfolding st using hf by (rule held_frames_perm)
    moreover have "\<forall>x\<in>set K. (Q(k := Q k @ [pkt_data (store e) ms])) x = map (pkt_data (store e')) (?nic x)"
      using Q kK j1 by (simp add: st)
    ultimately have "ring_io txq rxq cap K e' css (Q(k := Q k @ [pkt_data (store e) ms]))"
      unfolding ring_io_def using d w' rh' by blast
    then show ?thesis using run st j1 by auto
  qed
qed

lemma ring_io_rx:
  assumes k: "rxq (p, q) = Some k" and io: "ring_io txq rxq cap K e css Q"
  shows "\<exists>pss e'. rte_eth_rx_burst p q n e = Inr (map hd pss, e') \<and> length pss \<le> unat n
        \<and> ring_io txq rxq cap K e' (pss @ css) (Q(k := drop (length pss) (Q k))) \<and> map (pkt_data (store e')) pss = take (length pss) (Q k)
        \<and> (pss = [] \<longrightarrow> n = 0 \<or> Q k = []) \<and> (\<forall>zs\<in>set css. seg_list (store e') zs = seg_list (store e) zs)"
proof -
  obtain nic where d: "distinct K" and w: "ring_wired txq rxq K e" and rh: "rings_hold cap K (fst (wld e)) nic"
    and hf: "held_frames (store e) (css @ concat (map nic K))" and Q: "\<forall>k\<in>set K. Q k = map (pkt_data (store e)) (nic k)"
    using io unfolding ring_io_def by blast
  obtain dev a r where dev: "dev_at e p = Inr dev" "queue_ptr (rx_queues (dev_data dev)) (unat q) = Inr (Some a)"
    "cbs_at (post_rx_burst_cbs dev) (unat q) = Inr []" "rx_pkt_burst dev = Some eth_ring_rx"
    "ring_queues (fst (wld e)) a = Some r" "rng r = k" and kK: "k \<in> set K"
    using w k unfolding ring_wired_def map_option_eq_Some by blast
  obtain rg where rg: "rings (fst (wld e)) k = Some rg" "ring_rep rg (map hd (nic k))" "unat (ring_capacity rg) = cap k"
    using rh kK unfolding rings_hold_def by blast
  define j where "j = min (length (nic k)) (unat n)"
  have jm: "ring_moved RTE_RING_QUEUE_VARIABLE (length (nic k)) (unat n) = j" by (auto simp: j_def ring_moved_def)
  obtain rg' fs where deq: "rte_ring_dequeue_burst rg (ucast n) = Inr (take j (map hd (nic k)), fs, rg')"
    "ring_rep rg' (drop j (map hd (nic k)))" "ring_capacity rg' = ring_capacity rg"
    using do_dequeue_rep [OF rg(2), of "ucast n" RTE_RING_QUEUE_VARIABLE "single (cons rg)"]
    by (auto simp: rte_ring_dequeue_burst_def jm)
  define r' where "r' = r\<lparr>rx_pkts := rx_pkts r + of_nat (length (take j (nic k)))\<rparr>"
  define e' where "e' = e\<lparr>wld := (ring_queue_set a r' rg' (fst (wld e)), snd (wld e))\<rparr>"
  let ?pss = "take j (nic k)"
  have jn: "j \<le> unat n" "length ?pss = j" by (simp_all add: j_def)
  have run: "rte_eth_rx_burst p q n e = Inr (map hd ?pss, e')"
    using dev rg(1) deq(1) jn by (auto simp: rte_eth_rx_burst_def eth_ring_rx_def ring_queue_at_def Let_def e'_def r'_def take_map)
  have r': "rng r' = k" by (simp add: r'_def dev(6))
  have w': "ring_wired txq rxq K e'" unfolding e'_def by (rule ring_wired_step [OF w dev(5)]) (simp add: r' dev(6))
  let ?nic = "nic(k := drop j (nic k))"
  have rh': "rings_hold cap K (fst (wld e')) ?nic"
    using rings_hold_step [OF rh, of rg' "drop j (nic k)" r' a] deq(2,3) rg(3) r' by (simp add: e'_def drop_map)
  have st: "store e' = store e" by (simp add: e'_def)
  have split: "mset (nic k) = mset ?pss + mset (drop j (nic k))" by (metis append_take_drop_id mset_append)
  have "mset (concat (map ?nic K)) + mset ?pss = mset (concat (map nic K))"
    using mset_concat_upd [OF d kK, of nic "drop j (nic k)"] unfolding split by (simp add: add.assoc [symmetric])
  then have "mset ((?pss @ css) @ concat (map ?nic K)) = mset (css @ concat (map nic K))" by (simp add: ac_simps)
  then have "held_frames (store e') ((?pss @ css) @ concat (map ?nic K))" unfolding st using hf by (rule held_frames_perm)
  moreover have "\<forall>x\<in>set K. (Q(k := drop j (Q k))) x = map (pkt_data (store e')) (?nic x)"
    using Q kK by (simp add: st drop_map)
  ultimately have "ring_io txq rxq cap K e' (?pss @ css) (Q(k := drop j (Q k)))"
    unfolding ring_io_def using d w' rh' by blast
  moreover have "map (pkt_data (store e')) ?pss = take j (Q k)" using Q kK by (simp add: st take_map)
  moreover have "?pss = [] \<longrightarrow> n = 0 \<or> Q k = []" using Q kK by (auto simp: j_def unat_eq_zero min_def split: if_splits)
  ultimately show ?thesis using run jn st by (intro exI [of _ ?pss] exI [of _ e']) simp
qed

lemma queues_same_data:
  assumes "\<forall>k\<in>set K. Q k = map (pkt_data h) (nic k)" and "\<And>zs. zs \<in> set (css @ concat (map nic K)) \<Longrightarrow> seg_list h' zs = seg_list h zs"
  shows "\<forall>k\<in>set K. Q k = map (pkt_data h') (nic k)"
proof
  fix k assume k: "k \<in> set K"
  then have "seg_list h' zs = seg_list h zs" if "zs \<in> set (nic k)" for zs using that assms(2) [of zs] by auto
  then show "Q k = map (pkt_data h') (nic k)" using assms(1) k by (simp add: pkt_data_seg_list)
qed

lemma ring_io_store:
  assumes "ring_io txq rxq cap K e css Q" and "rings_hold cap K (fst (wld e)) nic" and "held_frames h' (css' @ concat (map nic K))"
    and "\<forall>k\<in>set K. Q' k = map (pkt_data h') (nic k)"
  shows "ring_io txq rxq cap K (set_store h' e) css' Q'"
proof -
  have "fst (wld (set_store h' e)) = fst (wld e)" "store (set_store h' e) = h'" by (simp_all add: set_store_def)
  then show ?thesis using assms unfolding ring_io_def by (auto intro!: exI [of _ nic])
qed

interpretation ring_ports: port_io "ring_io txq rxq cap K" txq rxq cap for txq rxq cap K
proof unfold_locales
  fix e :: "ring_hw eth" and css Q ms
  show "pkt_ok (store e) (hd ms) ms \<and> hdr_room (store e) ms" if "ring_io txq rxq cap K e css Q" "ms \<in> set css"
    using that by (auto simp: ring_io_def held_frames_def)
next
  fix e :: "ring_hw eth" and css css' Q
  assume "ring_io txq rxq cap K e css Q" and m: "mset css' = mset css"
  moreover have "held_frames (store e) (css' @ xs)" if "held_frames (store e) (css @ xs)" for xs
    by (rule held_frames_perm [OF _ that]) (simp add: m)
  ultimately show "ring_io txq rxq cap K e css' Q" unfolding ring_io_def by blast
next
  fix e :: "ring_hw eth" and ms css Q lcore
  assume io: "ring_io txq rxq cap K e (ms # css) Q"
  then obtain nic where nic: "rings_hold cap K (fst (wld e)) nic" "held_frames (store e) (ms # css @ concat (map nic K))"
    "\<forall>k\<in>set K. Q k = map (pkt_data (store e)) (nic k)" by (auto simp: ring_io_def)
  obtain h' where h': "rte_pktmbuf_free 32767 lcore (Some (hd ms)) (store e) = Inr h'" "held_frames h' (css @ concat (map nic K))"
    "\<forall>zs\<in>set (css @ concat (map nic K)). seg_list h' zs = seg_list (store e) zs"
    using held_frames_free [OF nic(2)] by blast
  have "\<forall>k\<in>set K. Q k = map (pkt_data h') (nic k)" using queues_same_data [OF nic(3)] h'(3) by blast
  then have "ring_io txq rxq cap K (set_store h' e) css Q"
    by (rule ring_io_store [OF io nic(1) h'(2)])
  then show "\<exists>h'. rte_pktmbuf_free 32767 lcore (Some (hd ms)) (store e) = Inr h' \<and> ring_io txq rxq cap K (set_store h' e) css Q
      \<and> (\<forall>zs\<in>set css. seg_list h' zs = seg_list (store e) zs)"
    using h'(1,3) by auto
next
  fix e :: "ring_hw eth" and ms css Q b off bs h'
  assume io: "ring_io txq rxq cap K e (ms # css) Q" and b: "mbufs (store e) (hd ms) = Some b" "off + length bs \<le> unat (data_len b)"
    and h': "h' = (store e)\<lparr>mem_bytes := bytes_put (mem_bytes (store e)) (rte_pktmbuf_mtod_offset b off) bs\<rparr>"
  then obtain nic where nic: "rings_hold cap K (fst (wld e)) nic" "held_frames (store e) (ms # css @ concat (map nic K))"
    "\<forall>k\<in>set K. Q k = map (pkt_data (store e)) (nic k)" by (auto simp: ring_io_def)
  note w = held_frames_write [OF nic(2) b h']
  have "\<forall>k\<in>set K. Q k = map (pkt_data h') (nic k)" using queues_same_data [OF nic(3)] w(2) by blast
  then have "ring_io txq rxq cap K (set_store h' e) (ms # css) Q"
    using ring_io_store [OF io nic(1), of h' "ms # css"] w(1) by simp
  then show "ring_io txq rxq cap K (set_store h' e) (ms # css) Q \<and> (\<forall>zs\<in>set css. seg_list h' zs = seg_list (store e) zs)
      \<and> seg_list h' ms = overwrite off bs (seg_data (store e) (hd ms)) # seg_list (store e) (tl ms)"
    using w(2,3) by auto
qed (fact ring_io_tx ring_io_rx)+

end
