(* ===== verification/Mempool_Props.thy ===== *)
theory Mempool_Props
  imports Mempool_Correct
begin

text \<open>
  What the pools promise: a pool that was created conserves its objects under every sequence of
  gets and puts (through the interface \<open>object_pool\<close>), the objects of a chunk do not overlap,
  objects have the size asked for, and what happens to a pool that is too large for its ring.
\<close>

section \<open>Clients of a pool\<close>

datatype pool_op = Get nat uint32 | Put nat "addr list"

text \<open>
  A client on any lcores that only puts back what it holds; \<open>held\<close> are the objects it has got
  and not put back.
\<close>

fun pool_client ::
  "(nat \<Rightarrow> 'p \<Rightarrow> uint32 \<Rightarrow> (int \<times> addr list \<times> 'p) cres) \<Rightarrow> (nat \<Rightarrow> 'p \<Rightarrow> addr list \<Rightarrow> uint32 \<Rightarrow> 'p cres)
   \<Rightarrow> 'p \<Rightarrow> addr multiset \<Rightarrow> pool_op list \<Rightarrow> ('p \<times> addr multiset) cres" where
  "pool_client get put p held [] = Inr (p, held)"
| "pool_client get put p held (Get lcore n # ops) =
     cbind (get lcore p n) (\<lambda>(ret, objs, p). pool_client get put p (held + mset objs) ops)"
| "pool_client get put p held (Put lcore objs # ops) =
     (if mset objs \<subseteq># held
      then cbind (put lcore p objs (of_nat (length objs))) (\<lambda>p. pool_client get put p (held - mset objs) ops)
      else pool_client get put p held ops)"

locale object_pool =
  fixes holds :: "'p \<Rightarrow> addr multiset \<Rightarrow> bool"
    and limit :: "'p \<Rightarrow> nat"
    and get :: "nat \<Rightarrow> 'p \<Rightarrow> uint32 \<Rightarrow> (int \<times> addr list \<times> 'p) cres"
    and put :: "nat \<Rightarrow> 'p \<Rightarrow> addr list \<Rightarrow> uint32 \<Rightarrow> 'p cres"
  assumes limit_lt: "limit p < 2 ^ 32"
    and get_law: "holds p F \<Longrightarrow> \<exists>ret objs p' F'. get lcore p n = Inr (ret, objs, p') \<and> holds p' F'
      \<and> mset objs + F' = F \<and> limit p' = limit p"
    and put_law: "holds p F \<Longrightarrow> unat n \<le> length objs \<Longrightarrow> size F + unat n \<le> limit p \<Longrightarrow>
      \<exists>p'. put lcore p objs n = Inr p' \<and> holds p' (F + mset (take (unat n) objs)) \<and> limit p' = limit p"
begin

lemma client_conserves:
  "holds p F \<Longrightarrow> size F + size held \<le> limit p \<Longrightarrow>
   \<exists>p' held' F'. pool_client get put p held ops = Inr (p', held') \<and> holds p' F' \<and> F' + held' = F + held"
proof (induction ops arbitrary: p held F)
  case Nil
  then show ?case by auto
next
  case (Cons op ops)
  show ?case
  proof (cases op)
    case (Get lcore n)
    obtain ret objs p1 F1 where g: "get lcore p n = Inr (ret, objs, p1)" "holds p1 F1" "mset objs + F1 = F" "limit p1 = limit p"
      using get_law [OF Cons.prems(1)] by blast
    have "size F1 + size (held + mset objs) = size F + size held" using g(3) by auto
    then have "size F1 + size (held + mset objs) \<le> limit p1" using Cons.prems(2) g(4) by simp
    then obtain p' held' F' where "pool_client get put p1 (held + mset objs) ops = Inr (p', held')" "holds p' F'"
      "F' + held' = F1 + (held + mset objs)"
      using Cons.IH [OF g(2)] by blast
    then show ?thesis using Get g by (auto simp: ac_simps)
  next
    case (Put lcore objs)
    show ?thesis
    proof (cases "mset objs \<subseteq># held")
      case False
      then show ?thesis using Put Cons.IH [OF Cons.prems] by simp
    next
      case True
      then have le: "length objs \<le> size held" using size_mset_mono by fastforce
      then have "unat (of_nat (length objs) :: uint32) = length objs"
        using Cons.prems(2) limit_lt [of p] by (intro unat_of_nat_eq) simp
      then obtain p1 where p1: "put lcore p objs (of_nat (length objs)) = Inr p1" "holds p1 (F + mset objs)" "limit p1 = limit p"
        using put_law [OF Cons.prems(1), of "of_nat (length objs)" objs lcore] Cons.prems(2) le by auto
      have split: "held - mset objs + mset objs = held" using True by simp
      then have "size (F + mset objs) + size (held - mset objs) = size F + size held"
        by (metis add.assoc add.commute size_union)
      then have "size (F + mset objs) + size (held - mset objs) \<le> limit p1" using Cons.prems(2) p1(3) by simp
      then obtain p' held' F' where "pool_client get put p1 (held - mset objs) ops = Inr (p', held')" "holds p' F'"
        "F' + held' = F + mset objs + (held - mset objs)"
        using Cons.IH [OF p1(2)] by blast
      moreover have "F + mset objs + (held - mset objs) = F + held" using True by simp
      ultimately show ?thesis using Put True p1(1) by auto
    qed
  qed
qed

end

interpretation mpl: object_pool pool_holds "\<lambda>mp. unat (mp_size mp)" rte_mempool_get_bulk rte_mempool_put_bulk
proof unfold_locales
  fix mp :: rte_mempool
  show "unat (mp_size mp) < 2 ^ 32" using unat_lt2p [of "mp_size mp"] by simp
next
  fix mp F lcore n
  assume "pool_holds mp F"
  then show "\<exists>ret objs mp' F'. rte_mempool_get_bulk lcore mp n = Inr (ret, objs, mp') \<and> pool_holds mp' F'
      \<and> mset objs + F' = F \<and> unat (mp_size mp') = unat (mp_size mp)"
    using get_bulk_holds [of mp F lcore n] by fastforce
next
  fix mp F and n :: uint32 and objs :: "addr list" and lcore
  assume "pool_holds mp F" "unat n \<le> length objs" "size F + unat n \<le> unat (mp_size mp)"
  then show "\<exists>mp'. rte_mempool_put_bulk lcore mp objs n = Inr mp' \<and> pool_holds mp' (F + mset (take (unat n) objs))
      \<and> unat (mp_size mp') = unat (mp_size mp)"
    using put_bulk_holds [of mp F n objs lcore] by fastforce
qed


section \<open>Creating a pool\<close>

lemma create_holds:
  assumes c: "rte_mempool_create fuel env name n elt_size cache_size priv mp_init obj_init flags s = Inr (Some (Some mp, s'))"
    and env: "env_ok env" and n: "0 < unat n" "unat n < 2 ^ 27" and f: "flags AND MEMPOOL_F_POOL_CREATED = 0"
    and sz: "unat elt_size < 2 ^ 24" "0 < unat (spread_factor env)" "unat (spread_factor env) < 2 ^ 16" "unat (spread_factor env) \<le> fuel"
  shows "pool_holds mp (mset (pool_objs mp)) \<and> length (pool_objs mp) = unat n \<and> mp_size mp = n"
proof -
  obtain mp0 where e: "rte_mempool_create_empty fuel env name n elt_size cache_size priv flags = Some (Inr mp0)"
    using c by (auto simp: rte_mempool_create_def split: option.splits sum.splits)
  obtain r mp1 where o': "rte_mempool_set_ops_byname mp0 (ops_name_for_flags flags) = (r, mp1)" by fastforce
  have r: "r = 0"
    using c by (cases "r = 0") (auto simp: rte_mempool_create_def e o' cbind_eq_Inr_iff)
  then have o: "rte_mempool_set_ops_byname mp0 (ops_name_for_flags flags) = (0, mp1)" using o' by simp
  obtain res where res: "rte_mempool_populate_default fuel env mp1 = Inr res"
    using c by (auto simp: rte_mempool_create_def e o cbind_eq_Inr_iff)
  obtain ret mp2 where res': "res = Some (ret, mp2)"
    using c res by (cases res) (auto simp: rte_mempool_create_def e o cbind_eq_Inr_iff)
  then have p: "rte_mempool_populate_default fuel env mp1 = Inr (Some (ret, mp))" "0 \<le> ret"
    using c res by (auto simp: rte_mempool_create_def e o cbind_eq_Inr_iff split: if_splits)
  show ?thesis by (rule populated_holds [OF e o p env n f sz])
qed

text \<open>
  C6. A pool that \<open>rte_mempool_create\<close> returns, for more than 0 and fewer than \<open>2\<^sup>2\<^sup>7\<close> objects of less than
  \<open>2\<^sup>2\<^sup>4\<close> bytes, holds exactly the number of objects asked for, and
  whatever gets and puts follow, on whichever lcores and with or without caches, no object is ever
  lost or handed out twice and no cache or ring overflows: the free objects together with those
  handed out are always the objects the pool was created with.
\<close>

theorem pool_conserves_objects:
  assumes "rte_mempool_create fuel env name n elt_size cache_size priv mp_init obj_init flags s = Inr (Some (Some mp, s'))"
    and "env_ok env" and "0 < unat n" and "unat n < 2 ^ 27" and "flags AND MEMPOOL_F_POOL_CREATED = 0"
    and "unat elt_size < 2 ^ 24" and "0 < unat (spread_factor env)" and "unat (spread_factor env) < 2 ^ 16" and "unat (spread_factor env) \<le> fuel"
  shows "length (pool_objs mp) = unat n \<and>
    (\<exists>mp' held F. pool_client rte_mempool_get_bulk rte_mempool_put_bulk mp {#} ops = Inr (mp', held)
       \<and> pool_holds mp' F \<and> F + held = mset (pool_objs mp))"
proof -
  have h: "pool_holds mp (mset (pool_objs mp))" "length (pool_objs mp) = unat n" "mp_size mp = n"
    using create_holds [OF assms] by simp_all
  then have "size (mset (pool_objs mp)) + size {#} \<le> unat (mp_size mp)" by simp
  from mpl.client_conserves [OF h(1) this, of ops] show ?thesis using h(2) by simp
qed

lemma demo_pool:
  "(case rte_mempool_create 4 demo_env ''p'' 1 128 0 0 (\<lambda>_ s. Inr s) (\<lambda>_ _ _ s. Inr s) 0 () of
      Inr (Some (Some mp, u)) \<Rightarrow> True | _ \<Rightarrow> False)"
  by code_simp

theorem pool_conserves_objects_witness:
  "\<exists>mp. rte_mempool_create 4 demo_env ''p'' 1 128 0 0 (\<lambda>_ s. Inr s) (\<lambda>_ _ _ s. Inr s) 0 () = Inr (Some (Some mp, ()))
     \<and> length (pool_objs mp) = 1
     \<and> (\<exists>mp' held F. pool_client rte_mempool_get_bulk rte_mempool_put_bulk mp {#} [Get 0 1, Get 1 1] = Inr (mp', held)
         \<and> pool_holds mp' F \<and> F + held = mset (pool_objs mp))"
proof -
  obtain mp where "rte_mempool_create 4 demo_env ''p'' 1 128 0 0 (\<lambda>_ s. Inr s) (\<lambda>_ _ _ s. Inr s) 0 () = Inr (Some (Some mp, ()))"
    using demo_pool by (auto split: sum.splits option.splits)
  then show ?thesis
    using pool_conserves_objects [of 4 demo_env "''p''" 1 128 0 0 "\<lambda>_ s. Inr s" "\<lambda>_ _ _ s. Inr s" 0 "()" mp "()" "[Get 0 1, Get 1 1]"]
    by (simp add: demo_env_ok)
qed

section \<open>Layout of the objects\<close>

text \<open>
  C28. The objects that \<open>rte_mempool_populate_phys\<close> cuts out of a chunk of memory, as many as it
  returns, lie inside the chunk with their headers and trailers, and no two of them overlap.
\<close>

theorem chunk_objects_disjoint:
  assumes "rte_mempool_populate_phys env mp vaddr paddr len free_cb = Inr (ret, mp')" and "0 \<le> ret"
    and "env_ok env" and "fill_inv mp" and "sizes_ok mp"
  shows "\<exists>objs. pool_objs mp' = pool_objs mp @ objs \<and> ret = int (length objs)
    \<and> (\<forall>i<length objs. vaddr + unat (mp_header_size mp) \<le> objs ! i
         \<and> objs ! i + unat (mp_elt_size mp) + unat (mp_trailer_size mp) \<le> vaddr + len)
    \<and> (\<forall>i j. i < j \<and> j < length objs \<longrightarrow>
         objs ! i + unat (mp_elt_size mp) + unat (mp_trailer_size mp) + unat (mp_header_size mp) \<le> objs ! j)"
proof -
  let ?t = "pool_total_elt_sz mp" and ?h = "unat (mp_header_size mp)"
  have t: "?t = ?h + unat (mp_elt_size mp) + unat (mp_trailer_size mp)"
    using assms(5) by (simp add: sizes_ok_def pool_total_elt_sz_def unat_word_ariths)
  obtain objs off where objs: "pool_objs mp' = pool_objs mp @ objs" "ret = int (length objs)"
    "objs = chunk_objs mp vaddr off (length objs)" "off + length objs * ?t \<le> len"
    using populate_phys_places [OF assms(3-5), of vaddr paddr len free_cb] assms(1,2) by auto
  have nth: "objs ! i = vaddr + off + i * ?t + ?h" if "i < length objs" for i
    using that by (subst objs(3)) (simp add: chunk_objs_def)
  have bound: "Suc i * ?t \<le> j * ?t" if "i < j" for i j
    using that by (intro mult_le_mono1) simp
  have "vaddr + ?h \<le> objs ! i \<and> objs ! i + unat (mp_elt_size mp) + unat (mp_trailer_size mp) \<le> vaddr + len"
    if i: "i < length objs" for i
    using bound [OF i] objs(4) nth [OF i] t by simp
  moreover have "objs ! i + unat (mp_elt_size mp) + unat (mp_trailer_size mp) + ?h \<le> objs ! j"
    if ij: "i < j" "j < length objs" for i j
    using bound [OF ij(1)] nth [of i] nth [of j] ij t by simp
  ultimately show ?thesis using objs(1,2) by blast
qed

definition demo_mp :: rte_mempool where
  "demo_mp = \<lparr>mp_name = ''p'', pool_data = None, mp_flags = 0, mp_size = 2, mp_cache_size = 0, mp_elt_size = 64,
     mp_header_size = 64, mp_trailer_size = 0, private_data_size = 0, ops_index = 0, local_cache = [],
     populated_size = 0, elt_list = [], nb_mem_chunks = 0, mem_list = []\<rparr>"

lemma demo_mp_inv: "fill_inv demo_mp" "sizes_ok demo_mp"
  by (simp_all add: fill_inv_def sizes_ok_def demo_mp_def)

lemma demo_populates:
  "(case rte_mempool_populate_phys demo_env demo_mp 4096 None 300 True of Inr (ret, mp') \<Rightarrow> ret = 2 | _ \<Rightarrow> False)"
  by code_simp

theorem chunk_objects_disjoint_witness:
  "\<exists>mp'. rte_mempool_populate_phys demo_env demo_mp 4096 None 300 True = Inr (2, mp')
     \<and> (\<exists>objs. pool_objs mp' = objs \<and> length objs = 2 \<and> objs ! 0 + 64 + 64 \<le> objs ! 1)"
proof -
  obtain mp' where p: "rte_mempool_populate_phys demo_env demo_mp 4096 None 300 True = Inr (2, mp')"
    using demo_populates by (auto split: sum.splits)
  obtain objs where objs: "pool_objs mp' = pool_objs demo_mp @ objs" "(2 :: int) = int (length objs)"
    "\<forall>i j. i < j \<and> j < length objs \<longrightarrow>
       objs ! i + unat (mp_elt_size demo_mp) + unat (mp_trailer_size demo_mp) + unat (mp_header_size demo_mp) \<le> objs ! j"
    using chunk_objects_disjoint [OF p _ demo_env_ok(1) demo_mp_inv] by auto
  have "length objs = 2" using objs(2) by simp
  moreover have "objs ! 0 + 64 + 64 \<le> objs ! 1"
    using objs(3) [rule_format, of 0 1] \<open>length objs = 2\<close> by (simp add: demo_mp_def)
  moreover have "pool_objs mp' = objs" using objs(1) by (simp add: demo_mp_def)
  ultimately show ?thesis using p by blast
qed

text \<open>
  C29. The size of an object, for an element of less than \<open>2\<^sup>2\<^sup>4\<close> bytes and a product of memory channels and
  ranks, \<open>spread_factor\<close>, from 1 to \<open>2\<^sup>1\<^sup>6 - 1\<close>. The element is at least as large as asked for and a multiple
  of 8 bytes, a header for the pool's own data goes in front, and nothing wraps around.  Without the flag
  \<open>MEMPOOL_F_NO_CACHE_ALIGN\<close>, header and total are multiples of the cache line; without the flag
  \<open>MEMPOOL_F_NO_SPREAD\<close>, the total in cache lines is coprime to \<open>spread_factor\<close>. The search for such a size
  ends after at most \<open>spread_factor\<close> steps.
\<close>

theorem object_size_fits:
  assumes "0 < unat (spread_factor env)" and "unat (spread_factor env) < 2 ^ 16"
    and "unat (spread_factor env) \<le> fuel" and "unat elt_size < 2 ^ 24"
  shows "\<exists>sz. rte_mempool_calc_obj_size env fuel elt_size flags = Some sz
    \<and> unat elt_size \<le> unat (objsz_elt sz) \<and> 8 dvd unat (objsz_elt sz) \<and> SIZEOF_OBJHDR \<le> unat (objsz_header sz)
    \<and> unat (objsz_header sz) + unat (objsz_elt sz) + unat (objsz_trailer sz) = unat (objsz_total sz)
    \<and> unat (objsz_total sz) < 2 ^ 26
    \<and> (flags AND MEMPOOL_F_NO_CACHE_ALIGN = 0 \<longrightarrow> 64 dvd unat (objsz_header sz) \<and> 64 dvd unat (objsz_total sz))
    \<and> (flags AND MEMPOOL_F_NO_SPREAD = 0 \<longrightarrow> coprime (unat (objsz_total sz) div 64) (unat (spread_factor env)))"
  using calc_obj_size_spec [of env fuel elt_size flags] assms unfolding spread_factor_def by blast

theorem object_size_fits_witness:
  "\<exists>sz. rte_mempool_calc_obj_size demo_env 4 100 0 = Some sz
    \<and> 100 \<le> unat (objsz_elt sz) \<and> 64 dvd unat (objsz_total sz) \<and> coprime (unat (objsz_total sz) div 64) 4"
  using object_size_fits [of demo_env 4 100 0] by (auto simp: demo_env_ok)

text \<open>
  C30. For a pool of at least \<open>2\<^sup>2\<^sup>7\<close> and fewer than \<open>2\<^sup>3\<^sup>1\<close> objects that has no ring yet, and whose name of
  at most 25 characters fits the name of a ring, the ring is too large. \<open>rte_ring_create\<close> then leaves a negative value in \<open>rte_errno\<close>, the ring driver negates it, and \<open>rte_mempool_populate_phys\<close>
  returns 22, its code for 22 objects added, although the pool has neither a ring nor an object.
\<close>

theorem pool_too_big_reports_objects:
  assumes "2 ^ 27 \<le> unat (mp_size mp)" and "unat (mp_size mp) < 2 ^ 31" and "ops_index mp < 4"
    and "mp_flags mp AND MEMPOOL_F_POOL_CREATED = 0" and "length (mp_name mp) < 26"
  shows "rte_mempool_populate_phys env mp vaddr paddr len free_cb = Inr (22, mp)"
proof -
  define cnt where "cnt = rte_align32pow2 (mp_size mp + 1)"
  have u: "unat (mp_size mp + 1) = unat (mp_size mp) + 1" using assms(2) by (simp add: unat_word_ariths)
  have "0 < mp_size mp + 1" "mp_size mp + 1 \<le> 2 ^ 31"
    using assms(2) u by (simp_all add: word_less_nat_alt word_le_nat_alt)
  then obtain k where k: "k \<le> 31" "cnt = 2 ^ k" "unat (mp_size mp + 1) \<le> 2 ^ k"
    using rte_align32pow2_pow2 unfolding cnt_def by blast
  have "27 < k"
  proof (rule ccontr)
    assume "\<not> 27 < k"
    then have "(2 :: nat) ^ k \<le> 2 ^ 27" by (intro power_increasing) auto
    then show False using k(3) u assms(1) by simp
  qed
  then have "(2 :: nat) ^ 28 \<le> 2 ^ k" by (intro power_increasing) auto
  then have "2 ^ 28 \<le> unat cnt" using k unat_2p [of k] by simp
  then have sz: "rte_ring_get_memsize cnt = - 22"
    by (simp add: rte_ring_get_memsize_def RTE_RING_SZ_MASK_def EINVAL_def word_less_nat_alt)
  have f: "(fl :: uint32) AND RING_F_EXACT_SZ = 0"
    if "fl = (if a then RING_F_SP_ENQ else 0) OR (if b then RING_F_SC_DEQ else 0)" for fl a b
    using that by (simp add: c_defs)
  have "common_ring_alloc env mp = (22, mp)"
    using assms(5) sz unfolding common_ring_alloc_def Let_def cnt_def [symmetric] rte_ring_create_def
    by (simp add: f [OF refl] c_defs)
  moreover obtain ops where "rte_mempool_get_ops (ops_index mp) = Inr ops" "alloc_fn ops = common_ring_alloc"
    using get_ops_cases [OF assms(3)] by blast
  ultimately show ?thesis
    using assms(4) by (simp add: rte_mempool_populate_phys_def rte_mempool_ops_alloc_def)
qed

theorem pool_too_big_reports_objects_witness:
  "rte_mempool_populate_phys demo_env (demo_mp\<lparr>mp_size := 2 ^ 27\<rparr>) 4096 None 300 True
   = Inr (22, demo_mp\<lparr>mp_size := 2 ^ 27\<rparr>)"
  using pool_too_big_reports_objects [of "demo_mp\<lparr>mp_size := 2 ^ 27\<rparr>" demo_env 4096 None 300 True]
  by (simp add: demo_mp_def)

end
