(* ===== verification/Mbuf_Props.thy ===== *)
theory Mbuf_Props
  imports Mbuf_Data Mempool_Props
begin

text \<open>
  What the operations on packet buffers guarantee to the programs that use them: no buffer is lost
  and none is handed out twice, clones share the data, and reading, chaining, linearizing,
  checksumming and tagging a packet of several segments work on its data as one byte sequence.
\<close>

section \<open>Checksum over segments\<close>

lemma cksum_seek_read:
  "read_seek fuel h m off = Inr (seg, off') \<Longrightarrow>
   \<exists>b. mbufs h seg = Some b \<and> cksum_seek fuel h (Some m) off sl = Inr (Some seg, off', ucast (data_len b))"
proof (induction fuel arbitrary: m off sl)
  case (Suc fuel)
  then obtain b where b: "mbufs h m = Some b" by (auto simp: mbuf_at_def split: option.splits)
  show ?case
  proof (cases "ucast (data_len b) \<le> off")
    case True
    then have "\<not> off < ucast (data_len b)" by (simp add: not_less)
    then show ?thesis using Suc b True by (auto simp: Let_def split: option.splits)
  next
    case False
    then have "off < ucast (data_len b)" by (simp add: not_le)
    then show ?thesis using Suc.prems b False by simp
  qed
qed simp

lemma even_and_one:
  assumes "even (unat w)"
  shows "w AND 1 = (0 :: uint32)"
proof -
  have "unat (w AND mask 1) = unat w mod 2" using unat_mask_mod [of w 1] by simp
  then show ?thesis using assms by (simp add: unat_eq_0)
qed

lemma cksum_segs_sum:
  assumes "seg_chain h (Some seg) (seg # ms)" and "segs_ok h (seg # ms)" and "mbufs h seg = Some b"
    and "unat off \<le> unat (data_len b)" and "unat dn \<le> unat len"
    and "unat seglen = min (unat (data_len b) - unat off) (unat len - unat dn)"
    and "unat len - unat dn \<le> length (drop (unat off) (pkt_data h (seg # ms)))"
    and "even (unat off)" and "even (unat dn)" and "\<forall>x\<in>set (seg # ms). even (length (seg_data h x))"
    and "length (seg # ms) \<le> fuel" and "unat dn < unat len"
  shows "cksum_segs fuel h seg off seglen len acc dn
    = Inr (acc + of_nat (word_sum (take (unat len - unat dn) (drop (unat off) (pkt_data h (seg # ms))))))"
  using assms
proof (induction ms arbitrary: seg b off seglen acc dn fuel)
  case base: Nil
  obtain f where f: "fuel = Suc f" using base.prems(11) by (cases fuel) auto
  have b: "seg_ok b" using base.prems(2,3) by simp
  have sl: "unat seglen = unat len - unat dn" using base.prems(3,6,7) by simp
  have rd: "data_read h b (unat off) (unat seglen) = Inr (take (unat seglen) (drop (unat off) (seg_data h seg)))"
    by (rule data_read_seg [OF base.prems(3) b]) (use base.prems(4,6) in simp)
  define bs where "bs = take (unat seglen) (drop (unat off) (seg_data h seg))"
  have bl: "length bs = unat seglen" using base.prems(3,4,6) by (simp add: bs_def)
  have ck: "raw_cksum_sum bs (unat seglen) 0 = Inr (of_nat (word_sum bs))"
    using raw_cksum_sum_eq [of bs "[]" 0] bl by simp
  have dn1: "dn AND 1 = 0" using base.prems(9) by (rule even_and_one) 
  have "dn + seglen = len" using sl base.prems(5) unat_lt2p [of len] by (intro word_unat_eq_iff [THEN iffD2]) (simp add: unat_word_ariths)
  then show ?case
    using f base.prems(3) rd ck dn1 by (simp add: bs_def sl)
next
  case (Cons m ms)
  obtain f where f: "fuel = Suc f" "length (m # ms) \<le> f" using Cons.prems(11) by (cases fuel) auto
  have b: "seg_ok b" using Cons.prems(2,3) by simp
  define bs where "bs = take (unat seglen) (drop (unat off) (seg_data h seg))"
  have rd: "data_read h b (unat off) (unat seglen) = Inr bs"
    unfolding bs_def by (rule data_read_seg [OF Cons.prems(3) b]) (use Cons.prems(4,6) in simp)
  have bl: "length bs = unat seglen" using Cons.prems(3,4,6) by (simp add: bs_def)
  have ck: "raw_cksum_sum bs (unat seglen) 0 = Inr (of_nat (word_sum bs))"
    using raw_cksum_sum_eq [of bs "[]" 0] bl by simp
  have dn1: "dn AND 1 = 0" using Cons.prems(9) by (rule even_and_one)
  have udn: "unat (dn + seglen) = unat dn + unat seglen"
    using Cons.prems(5,6) unat_lt2p [of len] by (simp add: unat_word_ariths)
  obtain b2 where b2: "mbufs h m = Some b2" "next_seg b = Some m" "seg_chain h (Some m) (m # ms)"
    using Cons.prems(1,3) by auto
  show ?case
  proof (cases "dn + seglen = len")
    case True
    then have sl: "unat seglen = unat len - unat dn" using udn by simp
    have t: "take (unat len - unat dn) (drop (unat off) (pkt_data h (seg # m # ms))) = bs"
      using bl Cons.prems(3,6) sl by (simp add: bs_def)
    show ?thesis
      unfolding t using f True Cons.prems(3) rd ck dn1 by simp
  next
    case False
    have "unat dn + unat seglen \<noteq> unat len" using False udn by (metis word_unat_eq_iff)
    then have sl: "unat seglen = unat (data_len b) - unat off" "unat dn + unat seglen < unat len"
      using Cons.prems(5,6) by auto
    have ev: "even (unat seglen)" using Cons.prems(8,10) sl(1) Cons.prems(3) by simp
    define sl2 where "sl2 = min (ucast (data_len b2)) (len - (dn + seglen))"
    have ul: "unat (len - (dn + seglen)) = unat len - unat (dn + seglen)"
      using sl(2) udn by (simp add: unat_sub word_le_nat_alt)
    have s2: "unat sl2 = min (unat (data_len b2) - unat (0 :: uint32)) (unat len - unat (dn + seglen))"
      unfolding sl2_def using ul by (simp add: min_def word_le_nat_alt)
    have dr: "drop (unat off) (pkt_data h (seg # m # ms)) = bs @ pkt_data h (m # ms)"
      using Cons.prems(3,4) sl(1) by (simp add: bs_def)
    have rest: "unat len - unat (dn + seglen) \<le> length (drop (unat (0 :: uint32)) (pkt_data h (m # ms)))"
      using Cons.prems(7) unfolding dr udn using bl by simp
    have "cksum_segs f h m 0 sl2 len (acc + of_nat (word_sum bs)) (dn + seglen) =
        Inr (acc + of_nat (word_sum bs) + of_nat (word_sum (take (unat len - unat (dn + seglen)) (drop (unat (0 :: uint32)) (pkt_data h (m # ms))))))"
      by (rule Cons.IH [OF b2(3) _ b2(1) _ _ s2 rest])
         (use Cons.prems(2,9,10) sl udn ev f(2) in auto)
    moreover have "take (unat len - unat dn) (bs @ pkt_data h (m # ms)) = bs @ take (unat len - unat (dn + seglen)) (pkt_data h (m # ms))"
      using bl sl(2) udn by simp
    moreover have "even (length bs)" using ev bl by simp
    ultimately show ?thesis
      unfolding dr using f(1) False Cons.prems(3) b2(1,2) rd ck dn1
      by (simp add: sl2_def [symmetric] word_sum_append add.assoc)
  qed
qed


lemma raw_cksum_take:
  "length bs = n \<Longrightarrow> rte_raw_cksum bs n = Inr (raw_cksum_reduce (of_nat (word_sum bs)))"
  using raw_cksum_sum_eq [of bs "[]" 0] by (simp add: rte_raw_cksum_def)

lemma even_pkt_data: "\<forall>x\<in>set ms. even (length (seg_data h x)) \<Longrightarrow> even (length (pkt_data h ms))"
  by (induction ms) auto

lemma cksum_mbuf_sum:
  assumes ok: "pkt_ok h m ms" and len: "unat off + unat len \<le> length (pkt_data h ms)" and pos: "0 < unat len"
    and even: "even (unat off)" "\<forall>x\<in>set ms. even (length (seg_data h x))" and fuel: "length ms \<le> fuel"
  shows "rte_raw_cksum_mbuf fuel h m off len
    = Inr (Some (raw_cksum_reduce (of_nat (word_sum (take (unat len) (drop (unat off) (pkt_data h ms)))))))"
proof -
  have ch: "seg_chain h (Some m) ms" and so: "segs_ok h ms" using ok by (auto simp: pkt_ok_def)
  then obtain rest where ms: "ms = m # rest" by (cases ms) auto
  obtain b where b: "mbufs h m = Some b" "unat (pkt_len b) = length (pkt_data h ms)" "seg_ok b"
    using ok ms by (auto simp: pkt_ok_def)
  have nw: "unat (off + len) = unat off + unat len"
    using len b(2) unat_lt2p [of "pkt_len b"] by (simp add: unat_word_ariths)
  show ?thesis
  proof (cases "off + len \<le> ucast (data_len b)")
    case True
    then have le: "unat off + unat len \<le> unat (data_len b)" using nw by (simp add: word_le_nat_alt)
    define bs where "bs = take (unat len) (drop (unat off) (seg_data h m))"
    have rd: "data_read h b (unat off) (unat len) = Inr bs" unfolding bs_def by (rule data_read_seg [OF b(1,3) le])
    have bl: "length bs = unat len" using le b(1) by (simp add: bs_def)
    have t: "take (unat len) (drop (unat off) (pkt_data h ms)) = bs" using le b(1) ms by (simp add: bs_def)
    show ?thesis unfolding t using True b(1) rd raw_cksum_take [OF bl] by (simp add: rte_raw_cksum_mbuf_def)
  next
    case False
    have lt: "unat off < length (pkt_data h ms)" using pos len by simp
    obtain seg off' ms1 ms2 where sk: "read_seek fuel h m off = Inr (seg, off')" "ms = ms1 @ seg # ms2"
      "unat off' < length (seg_data h seg)" "seg_chain h (Some seg) (seg # ms2)"
      "drop (unat off) (pkt_data h ms) = drop (unat off') (pkt_data h (seg # ms2))"
      using read_seek_finds [OF ch lt fuel] by blast
    obtain s where s: "mbufs h seg = Some s" "seg_ok s" using so sk(2) by auto
    have cs: "cksum_seek fuel h (Some m) off 0 = Inr (Some seg, off', ucast (data_len s))"
      using cksum_seek_read [OF sk(1), of 0] s(1) by auto
    have o': "unat off' < unat (data_len s)" using sk(3) s(1) by simp
    have dl: "length (drop (unat off) (pkt_data h ms)) = length (drop (unat off') (pkt_data h (seg # ms2)))" by (simp only: sk(5))
    have len': "unat off' + unat len \<le> length (pkt_data h (seg # ms2))" using len sk(3) dl by simp
    have "even (length (pkt_data h ms))" "even (length (pkt_data h (seg # ms2)))"
      using even(2) unfolding sk(2) by (auto intro!: even_pkt_data)
    moreover have "length (pkt_data h ms) - unat off = length (pkt_data h (seg # ms2)) - unat off'"
      using dl by (simp only: length_drop)
    ultimately have ev: "even (unat off')" using even(1) lt len' by presburger
    have "\<not> pkt_len b < off + len" using nw len b(2) by (simp add: word_less_nat_alt)
    then have run: "rte_raw_cksum_mbuf fuel h m off len =
       (let sl = ucast (data_len s) - off' in
        if len \<le> sl then cbind (data_read h s (unat off') (unat len)) (\<lambda>bs. cbind (rte_raw_cksum bs (unat len)) (\<lambda>c. Inr (Some c)))
        else cbind (cksum_segs fuel h seg off' sl len 0 0) (\<lambda>acc. Inr (Some (raw_cksum_reduce acc))))"
      using False b(1) cs s(1) by (simp add: rte_raw_cksum_mbuf_def Let_def)
    define sl where "sl = ucast (data_len s) - off'"
    have usl: "unat sl = unat (data_len s) - unat off'" using o' unfolding sl_def by (subst unat_sub) (simp_all add: word_le_nat_alt)
    define D where "D = take (unat len) (drop (unat off') (pkt_data h (seg # ms2)))"
    have t: "take (unat len) (drop (unat off) (pkt_data h ms)) = D" by (simp only: D_def sk(5))
    show ?thesis
    proof (cases "len \<le> sl")
      case True
      then have le: "unat off' + unat len \<le> unat (data_len s)" using usl o' by (simp add: word_le_nat_alt)
      have "D = take (unat len) (drop (unat off') (seg_data h seg))" using le s(1) by (simp add: D_def)
      then have rd: "data_read h s (unat off') (unat len) = Inr D" using data_read_seg [OF s le] by simp
      have "length D = unat len" using len' by (simp add: D_def)
      then show ?thesis unfolding t using True run rd raw_cksum_take [of D] by (simp add: sl_def)
    next
      case F2: False
      have "cksum_segs fuel h seg off' sl len 0 0 = Inr (0 + of_nat (word_sum (take (unat len - unat (0 :: uint32)) (drop (unat off') (pkt_data h (seg # ms2))))))"
      proof (rule cksum_segs_sum [OF sk(4) _ s(1)])
        show "segs_ok h (seg # ms2)" using so sk(2) by simp
        show "unat sl = min (unat (data_len s) - unat off') (unat len - unat (0 :: uint32))"
          using F2 usl by (simp add: word_le_nat_alt)
        show "\<forall>x\<in>set (seg # ms2). even (length (seg_data h x))" using even(2) sk(2) by simp
        show "length (seg # ms2) \<le> fuel" using fuel sk(2) by simp
      qed (use o' len' ev pos in auto)
      then have "cksum_segs fuel h seg off' sl len 0 0 = Inr (of_nat (word_sum D))" by (simp only: D_def) simp
      then show ?thesis unfolding t using F2 run by (simp add: sl_def)
    qed
  qed
qed

section \<open>Chaining packets\<close>

lemma lastseg_last:
  "seg_chain h (Some m) ms \<Longrightarrow> length ms \<le> fuel \<Longrightarrow> rte_pktmbuf_lastseg fuel h m = Inr (last ms)"
proof (induction ms arbitrary: m fuel)
  case (Cons x ms)
  then show ?case by (cases fuel; cases ms) (auto split: option.splits)
qed simp

text \<open>Only the link fields of the last segment and the lengths in the first segments change.\<close>

lemma chain_appends:
  assumes p1: "pkt_ok h m1 ms1" "mbufs h m1 = Some b1" and p2: "pkt_ok h m2 ms2" "mbufs h m2 = Some b2"
    and d: "distinct (ms1 @ ms2)" and n: "unat (nb_segs b1) + unat (nb_segs b2) < 2 ^ 16"
    and l: "unat (pkt_len b1) + unat (pkt_len b2) < 2 ^ 32" and fuel: "length ms1 \<le> fuel"
  shows "\<exists>h'. rte_pktmbuf_chain fuel m1 m2 h = Inr (0, h') \<and> pkt_ok h' m1 (ms1 @ ms2)
    \<and> pkt_data h' (ms1 @ ms2) = pkt_data h ms1 @ pkt_data h ms2
    \<and> (\<exists>b. mbufs h' m1 = Some b \<and> unat (nb_segs b) = (unat (nb_segs b1) + unat (nb_segs b2)) mod 256)"
proof -
  have c: "seg_chain h (Some m1) ms1" "seg_chain h (Some m2) ms2" and so: "segs_ok h (ms1 @ ms2)"
    and pl: "unat (pkt_len b1) = length (pkt_data h ms1)" "unat (pkt_len b2) = length (pkt_data h ms2)"
    using p1 p2 by (auto simp: pkt_ok_def)
  define t where "t = last ms1"
  obtain r1 where ms1: "ms1 = m1 # r1" using c(1) by (cases ms1) auto
  obtain r2 where ms2: "ms2 = m2 # r2" using c(2) by (cases ms2) auto
  have t: "rte_pktmbuf_lastseg fuel h m1 = Inr t" using lastseg_last [OF c(1) fuel] by (simp add: t_def)
  have bt: "ms1 = butlast ms1 @ [t]" using ms1 by (simp add: t_def)
  then obtain bl where bl: "mbufs h t = Some bl" using so by (metis segs_ok_append segs_ok_simps(2))
  have m: "m1 \<noteq> m2" "m2 \<noteq> t" using d ms1 ms2 bt by (metis Un_iff disjoint_iff distinct_append list.set_intros(1) in_set_conv_decomp)+
  define g where "g x b = (let b = (if x = t then b\<lparr>next_seg := Some m2\<rparr> else b);
       b = (if x = m1 then b\<lparr>nb_segs := ucast (ucast (nb_segs b + nb_segs b2) :: uint8), pkt_len := pkt_len b + pkt_len b2\<rparr> else b)
     in if x = m2 then b\<lparr>pkt_len := ucast (data_len b)\<rparr> else b)" for x and b :: rte_mbuf
  define h' where "h' = h\<lparr>mbufs := \<lambda>x. map_option (g x) (mbufs h x)\<rparr>"
  have g: "map_option (g x) y = y" if "x \<noteq> t" "x \<noteq> m1" "x \<noteq> m2" for x y
    using that by (cases y) (simp_all add: g_def Let_def)
  have run: "rte_pktmbuf_chain fuel m1 m2 h = Inr (0, h')"
  proof (cases "m1 = t")
    case True
    then show ?thesis using p1(2) p2(2) n t bl m
      by (auto simp: rte_pktmbuf_chain_def mbuf_upd_def mbuf_at_def mbuf_set_def h'_def g g_def not_le Let_def
        intro!: arg_cong [of _ _ "\<lambda>f. h\<lparr>mbufs := f\<rparr>"] ext)
  next
    case False
    then show ?thesis using p1(2) p2(2) n t bl m
      by (auto simp: rte_pktmbuf_chain_def mbuf_upd_def mbuf_at_def mbuf_set_def h'_def g g_def not_le Let_def
        intro!: arg_cong [of _ _ "\<lambda>f. h\<lparr>mbufs := f\<rparr>"] ext)
  qed
  have same: "view h' x = view h x" for x
    by (cases "mbufs h x") (simp_all add: view_def h'_def g_def Let_def)
  have mem: "mem_bytes h' = mem_bytes h" by (simp add: h'_def)
  have data: "pkt_data h' xs = pkt_data h xs" for xs by (rule pkt_data_view) (simp_all add: same mem)
  have next': "map_option next_seg (mbufs h' x) = (if x = t then Some (Some m2) else map_option next_seg (mbufs h x))" for x
    using bl by (cases "mbufs h x") (auto simp: h'_def g_def Let_def)
  have "seg_path h' (Some m1) (butlast ms1) (Some t)" 
  proof -
    have bp: "seg_path h (Some m1) (butlast ms1) (Some t)"
      using c(1) by (subst (asm) bt) (auto simp: seg_path_append)
    have "t \<notin> set (butlast ms1)" using d bt by (metis distinct_append not_distinct_conv_prefix append.assoc)
    then show ?thesis by (intro seg_path_cong [OF bp]) (auto simp: next')
  qed
  moreover have "t \<in> set ms1" using ms1 by (simp add: t_def)
  then have "seg_chain h' (Some m2) ms2"
    by (intro seg_path_cong [OF c(2)]) (use d in \<open>auto simp: next'\<close>)
  moreover obtain b' where "mbufs h' t = Some b'" "next_seg b' = Some m2" using next' [of t] by auto
  ultimately have ch: "seg_chain h' (Some m1) (ms1 @ ms2)"
    unfolding seg_path_append by (subst bt) (auto simp: seg_path_append)
  have "seg_ok (g x b) = seg_ok b" for x b by (simp add: g_def seg_ok_def Let_def)
  then have "segs_ok h' (ms1 @ ms2)" using so unfolding segs_ok_def by (fastforce simp: h'_def)
  moreover obtain b' where b': "mbufs h' m1 = Some b'" "pkt_len b' = pkt_len b1 + pkt_len b2"
    "nb_segs b' = ucast (ucast (nb_segs b1 + nb_segs b2) :: uint8)"
    using p1(2) m by (simp add: h'_def g_def Let_def)
  moreover have "unat (pkt_len b1 + pkt_len b2) = length (pkt_data h' (ms1 @ ms2))"
    using l pl unfolding data by (simp add: unat_word_ariths pkt_data_def)
  ultimately have "pkt_ok h' m1 (ms1 @ ms2)" using ch by (simp add: pkt_ok_def)
  moreover have "unat (ucast (ucast (nb_segs b1 + nb_segs b2) :: uint8) :: uint16) = (unat (nb_segs b1) + unat (nb_segs b2)) mod 256"
    using n by (simp add: unat_word_ariths unsigned_ucast_eq take_bit_eq_mod)
  then have "\<exists>b. mbufs h' m1 = Some b \<and> unat (nb_segs b) = (unat (nb_segs b1) + unat (nb_segs b2)) mod 256"
    using b' by simp
  moreover have "pkt_data h' (ms1 @ ms2) = pkt_data h ms1 @ pkt_data h ms2" unfolding data by (simp add: pkt_data_def)
  ultimately show ?thesis using run by blast
qed

section \<open>VLAN tags\<close>

lemma bytes_at_put_front:
  "length bs \<le> n \<Longrightarrow> bytes_at (bytes_put f a bs) a n = bs @ bytes_at f (a + length bs) (n - length bs)"
  using bytes_at_append [of "bytes_put f a bs" a "length bs" "n - length bs"]
  by (simp add: bytes_at_put_same bytes_at_put_other)

definition vlan_tag :: "uint16 \<Rightarrow> uint8 list" where
  "vlan_tag tci = le16_bytes (rte_cpu_to_be_16 ETHER_TYPE_VLAN) @ le16_bytes (rte_cpu_to_be_16 tci)"

lemma vlan_insert_data:
  assumes b: "mbufs h m = Some b" "refcnt b = 1" "seg_ok b" and room: "4 \<le> unat (data_off b)"
    and n: "12 \<le> unat (data_len b)" "unat (data_len b) + 4 < 2 ^ 16"
  shows "\<exists>h' b'. rte_vlan_insert fuel lcore m h = Inr (0, m, h') \<and> mbufs h' m = Some b' \<and> seg_ok b'
    \<and> vlan_tci b' = vlan_tci b \<and> data_len b' = data_len b + 4 \<and> buf_addr b' = buf_addr b \<and> data_off b' = data_off b - 4
    \<and> seg_data h' m = take 12 (seg_data h m) @ vlan_tag (vlan_tci b) @ drop 12 (seg_data h m)"
proof -
  define a where "a = rte_pktmbuf_mtod b"
  define D where "D = take 12 (seg_data h m)"
  define b1 where "b1 = b\<lparr>data_off := data_off b - 4, data_len := data_len b + 4, pkt_len := pkt_len b + 4\<rparr>"
  define b2 where "b2 = b1\<lparr>ol_flags := ol_flags b AND NOT PKT_RX_VLAN_STRIPPED\<rparr>"
  define f where "f = bytes_put (mem_bytes h) (a - 4) (D @ vlan_tag (vlan_tci b))"
  have off: "unat (data_off b - 4) = unat (data_off b) - 4" using room by (simp add: unat_sub word_le_nat_alt)
  have dl: "unat (data_len b + 4) = unat (data_len b) + 4" using n(2) by (simp add: unat_word_ariths)
  have D: "length D = 12" using b(1) n(1) by (simp add: D_def)
  have rd: "data_read h b 0 12 = Inr D" using data_read_seg [OF b(1,3), of 0 12] n(1) by (simp add: D_def)
  have rd': "data_read (mbuf_set m b1 h) b 0 12 = Inr D" using rd by (simp add: data_read_def mbuf_set_def split: if_splits)
  have mt: "rte_pktmbuf_mtod_offset b1 x = a - 4 + x" for x
    using room off by (simp add: a_def b1_def rte_pktmbuf_mtod_def rte_pktmbuf_mtod_offset_def)
  have "data_write b1 0 D (mbuf_set m b1 h) = Inr ((mbuf_set m b1 h)\<lparr>mem_bytes := bytes_put (mem_bytes h) (a - 4) D\<rparr>)"
    using D off room n b(3) by (simp add: data_write_def mt mbuf_set_def seg_ok_def) (simp add: b1_def)
  moreover have "data_write b1 12 (le16_bytes v) h1 = Inr (h1\<lparr>mem_bytes := bytes_put (mem_bytes h1) (a - 4 + 12) (le16_bytes v)\<rparr>)" for v h1
    using off room n b(3) by (simp add: data_write_def mt seg_ok_def) (simp add: b1_def le16_bytes_def)
  moreover have "data_write b1 14 (le16_bytes v) h1 = Inr (h1\<lparr>mem_bytes := bytes_put (mem_bytes h1) (a - 4 + 14) (le16_bytes v)\<rparr>)" for v h1
    using off room n b(3) by (simp add: data_write_def mt seg_ok_def) (simp add: b1_def le16_bytes_def)
  moreover have "bytes_put (bytes_put (bytes_put (mem_bytes h) (a - 4) D) (a - 4 + 12) (le16_bytes v)) (a - 4 + 14) (le16_bytes w)
     = bytes_put (mem_bytes h) (a - 4) (D @ le16_bytes v @ le16_bytes w)" for v w
    using bytes_put_append [of "mem_bytes h" "a - 4" D "le16_bytes v"] bytes_put_append [of "mem_bytes h" "a - 4" "D @ le16_bytes v" "le16_bytes w"] D
    by (simp add: le16_bytes_def)
  moreover have "vlan_tci b1 = vlan_tci b" "ol_flags b1 = ol_flags b" by (simp_all add: b1_def)
  moreover have "h1\<lparr>mem_bytes := y, mbufs := x\<rparr> = h1\<lparr>mbufs := x, mem_bytes := y\<rparr>" for h1 :: mbuf_mem and x y by simp
  ultimately have run: "rte_vlan_insert fuel lcore m h = Inr (0, m, (mbuf_set m b2 h)\<lparr>mem_bytes := f\<rparr>)"
    using b(1,2) room rd'
    by (simp add: rte_vlan_insert_def rte_pktmbuf_prepend_def rte_pktmbuf_headroom_def word_less_nat_alt not_less b1_def [symmetric]
        mbuf_upd_def mbuf_at_def mbuf_set_def ETHER_ADDR_LEN_def f_def vlan_tag_def b2_def)
  have "seg_data ((mbuf_set m b2 h)\<lparr>mem_bytes := f\<rparr>) m = bytes_at f (a - 4) (unat (data_len b) + 4)"
    using mt [of 0] dl by (simp add: mbuf_set_def b2_def rte_pktmbuf_mtod_def rte_pktmbuf_mtod_offset_def b1_def)
  also have "\<dots> = (D @ vlan_tag (vlan_tci b)) @ bytes_at (mem_bytes h) (a - 4 + 16) (unat (data_len b) - 12)"
    using bytes_at_put_front [of "D @ vlan_tag (vlan_tci b)" "unat (data_len b) + 4" "mem_bytes h" "a - 4"] D n(1)
    by (simp add: f_def vlan_tag_def le16_bytes_def)
  also have "bytes_at (mem_bytes h) (a - 4 + 16) (unat (data_len b) - 12) = drop 12 (seg_data h m)"
  proof -
    have "4 \<le> a" using room by (simp add: a_def rte_pktmbuf_mtod_def rte_pktmbuf_mtod_offset_def)
    then have e: "a - 4 + 16 = a + 12" by simp
    have "take (unat (data_len b) - 12) (drop 12 (seg_data h m)) = drop 12 (seg_data h m)" using b(1) by simp
    then show ?thesis unfolding e using b(1) n(1) bytes_at_take_drop [of 12 "unat (data_len b) - 12" "unat (data_len b)"] by (simp add: a_def)
  qed
  finally have "seg_data ((mbuf_set m b2 h)\<lparr>mem_bytes := f\<rparr>) m = D @ vlan_tag (vlan_tci b) @ drop 12 (seg_data h m)" by simp
  then show ?thesis unfolding D_def using run off dl b(3) n room
    by (intro exI [of _ "(mbuf_set m b2 h)\<lparr>mem_bytes := f\<rparr>"] exI [of _ b2]) (simp add: mbuf_set_def b2_def b1_def seg_ok_def)
qed

lemma vlan_strip_data:
  assumes b: "mbufs h m = Some b" "seg_ok b" and D: "seg_data h m = ads @ vlan_tag tci @ rest" "length ads = 12"
  shows "\<exists>h' b'. rte_vlan_strip m h = Inr (0, h') \<and> mbufs h' m = Some b' \<and> vlan_tci b' = tci
    \<and> data_off b' = data_off b + 4 \<and> data_len b' = data_len b - 4 \<and> seg_data h' m = ads @ rest"
proof -
  have "length (seg_data h m) = 16 + length rest" using D by (simp add: vlan_tag_def le16_bytes_def)
  then have n: "unat (data_len b) = 16 + length rest" using b(1) by simp
  have rd: "data_read h b off k = Inr (take k (drop off (ads @ vlan_tag tci @ rest)))" if "off + k \<le> 16" for off k
    using data_read_seg [OF b, of off k] that n D(1) by simp
  have rty: "data_read h b 12 2 = Inr (le16_bytes (rte_cpu_to_be_16 ETHER_TYPE_VLAN))"
    and rtci: "data_read h b 14 2 = Inr (le16_bytes (rte_cpu_to_be_16 tci))" and rad: "data_read h b 0 12 = Inr ads"
    using rd [of 12 2] rd [of 14 2] rd [of 0 12] D(2) by (simp_all add: vlan_tag_def le16_bytes_def)
  define a where "a = rte_pktmbuf_mtod b"
  define b1 where "b1 = b\<lparr>ol_flags := ol_flags b OR PKT_RX_VLAN_PKT OR PKT_RX_VLAN_STRIPPED, vlan_tci := tci,
    data_len := data_len b - 4, data_off := data_off b + 4, pkt_len := pkt_len b - 4\<rparr>"
  have off: "unat (data_off b + 4) = unat (data_off b) + 4"
    using b(2) n unat_lt2p [of "buf_len b"] by (simp add: seg_ok_def unat_word_ariths)
  have dl: "unat (data_len b - 4) = 12 + length rest" using n by (simp add: unat_sub word_le_nat_alt)
  have mt: "rte_pktmbuf_mtod_offset b1 0 = a + 4"
    using off by (simp add: a_def b1_def rte_pktmbuf_mtod_def rte_pktmbuf_mtod_offset_def)
  have wr: "data_write b1 0 ads (mbuf_set m b1 h) = Inr ((mbuf_set m b1 h)\<lparr>mem_bytes := bytes_put (mem_bytes h) (a + 4) ads\<rparr>)"
    using D(2) off n b(2) by (simp add: data_write_def mt mbuf_set_def seg_ok_def) (simp add: b1_def)
  have tci: "le16 (le16_bytes w ! 0) (le16_bytes w ! Suc 0) = w" "rte_be_to_cpu_16 (rte_cpu_to_be_16 w) = w" for w
    by (simp_all add: le16_bytes_def rte_be_to_cpu_16_def rte_cpu_to_be_16_def)
  have adj: "rte_pktmbuf_adj m 4 (mbuf_set m (b\<lparr>ol_flags := ol_flags b OR PKT_RX_VLAN_PKT OR PKT_RX_VLAN_STRIPPED, vlan_tci := tci\<rparr>) h)
    = Inr (Some (rte_pktmbuf_mtod b1), mbuf_set m b1 h)"
    using n by (simp add: rte_pktmbuf_adj_def mbuf_set_def mbuf_at_def b1_def word_less_nat_alt Let_def)
  have run: "rte_vlan_strip m h = Inr (0, (mbuf_set m b1 h)\<lparr>mem_bytes := bytes_put (mem_bytes h) (a + 4) ads\<rparr>)"
  proof -
    have "mbuf_at (mbuf_set m b1 h) m = Inr b1" by (simp add: mbuf_at_def mbuf_set_def)
    then show ?thesis using rty rtci rad wr adj b(1) by (simp add: rte_vlan_strip_def tci ETHER_ADDR_LEN_def)
  qed
  have "seg_data ((mbuf_set m b1 h)\<lparr>mem_bytes := bytes_put (mem_bytes h) (a + 4) ads\<rparr>) m
    = bytes_at (bytes_put (mem_bytes h) (a + 4) ads) (a + 4) (12 + length rest)"
    using mt dl by (simp add: mbuf_set_def rte_pktmbuf_mtod_def) (simp add: b1_def)
  also have "\<dots> = ads @ bytes_at (mem_bytes h) (a + 16) (length rest)"
    using bytes_at_put_front [of ads "12 + length rest" "mem_bytes h" "a + 4"] D(2) by (simp add: add.assoc)
  also have "bytes_at (mem_bytes h) (a + 16) (length rest) = rest"
    using bytes_at_take_drop [of 16 "length rest" "unat (data_len b)" "mem_bytes h" a] D b(1) n
    by (simp add: a_def vlan_tag_def le16_bytes_def)
  finally show ?thesis using run
    by (intro exI [of _ "(mbuf_set m b1 h)\<lparr>mem_bytes := bytes_put (mem_bytes h) (a + 4) ads\<rparr>"] exI [of _ b1])
      (simp add: mbuf_set_def b1_def)
qed

lemma read_seek_end:
  assumes "seg_chain h (Some m) ms" and "unat off = length (pkt_data h ms)" and "length ms \<le> fuel"
  shows "read_seek fuel h m off = Inl Null_deref"
  using assms
proof (induction ms arbitrary: m off fuel)
  case (Cons x ms)
  obtain b where b: "m = x" "mbufs h x = Some b" "seg_chain h (next_seg b) ms" using Cons.prems(1) by auto
  obtain f where f: "fuel = Suc f" "length ms \<le> f" using Cons.prems(3) by (cases fuel) auto
  have o: "unat off = unat (data_len b) + length (pkt_data h ms)" using Cons.prems(2) b by simp
  then have le: "ucast (data_len b) \<le> off" by (simp add: word_le_nat_alt)
  then have "unat (off - ucast (data_len b)) = length (pkt_data h ms)" using o by (simp add: unat_sub)
  then show ?case using Cons.IH [of _ "off - ucast (data_len b)" f] b f le by (cases ms) auto
qed simp

lemma store_kept_data:
  assumes "kept (set (concat css)) h h'" and "store_owns h css" and "xs \<in> set css"
  shows "pkt_data h' xs = pkt_data h xs"
proof (rule pkt_data_view)
  have "view h' x = view h x" if "x \<in> set xs" for x
  proof -
    have x: "x \<in> set (concat css)" using that assms(3) by auto
    then have "x \<in># mset (concat css)" by simp
    moreover have "minv h (mset (concat css))" using assms(2) by (simp only: store_owns_def)
    ultimately obtain b where "mbufs h x = Some b" using minvD(2) by blast
    then show ?thesis using kept_view [OF assms(1) x] by simp
  qed
  then show "map (view h') xs = map (view h) xs" by simp
  show "mem_bytes h' = mem_bytes h" using assms(1) by (simp add: kept_def)
qed

section \<open>A store to compute with\<close>

text \<open>A pool of four buffers: the packet \<open>[1000, 2000]\<close> is held, \<open>3000\<close> and \<open>4000\<close> are free.\<close>

definition demo_buf :: "addr \<Rightarrow> addr option \<Rightarrow> uint16 \<Rightarrow> uint16 \<Rightarrow> uint32 \<Rightarrow> rte_mbuf" where
  "demo_buf m nxt segs dlen plen =
     \<lparr>buf_addr = m + 128, buf_physaddr = of_nat m, data_off = 16, refcnt = 1, nb_segs = segs, in_port = 0xff,
      ol_flags = 0, packet_type = 0, pkt_len = plen, data_len = dlen, vlan_tci = 0, hash_info = 0,
      vlan_tci_outer = 0, buf_len = 64, timestamp = 0, udata64 = 0, mb_pool = 1, next_seg = nxt, tx_offload = 0,
      priv_size = 0, timesync = 0, seqn = 0\<rparr>"

definition demo_pktpool :: rte_mempool where
  "demo_pktpool = \<lparr>mp_name = ''p'',
     pool_data = Some \<lparr>ring_name = ''r'', ring_flags = 0, ring_size = 8, ring_mask = 7, ring_capacity = 7,
       prod = \<lparr>head = 2, tail = 2, single = False\<rparr>, cons = \<lparr>head = 0, tail = 0, single = False\<rparr>,
       ring_cells = [Some 3000, Some 4000, None, None, None, None, None, None]\<rparr>,
     mp_flags = 0, mp_size = 4, mp_cache_size = 0, mp_elt_size = 192, mp_header_size = 64, mp_trailer_size = 0,
     private_data_size = 64, ops_index = 0, local_cache = [], populated_size = 4,
     elt_list = map (\<lambda>a. \<lparr>hdr_obj = a, hdr_physaddr = None\<rparr>) [1000, 2000, 3000, 4000], nb_mem_chunks = 1, mem_list = []\<rparr>"

definition demo_store :: mbuf_mem where
  "demo_store =
     \<lparr>mbufs = [1000 \<mapsto> demo_buf 1000 (Some 2000) 2 4 6, 2000 \<mapsto> demo_buf 2000 None 1 2 2,
        3000 \<mapsto> demo_buf 3000 None 1 0 0, 4000 \<mapsto> demo_buf 4000 None 1 0 0],
      mem_bytes = of_nat,
      pools = [1 \<mapsto> \<lparr>pool_mp = demo_pktpool, pool_priv = \<lparr>mbuf_data_room_size = 64, mbuf_priv_size = 0\<rparr>\<rparr>]\<rparr>"

lemma demo_pool_holds: "pool_holds demo_pktpool {#3000, 4000#}"
proof -
  have "ring_holds demo_pktpool [3000, 4000]"
    by (auto simp: ring_holds_def demo_pktpool_def ring_rep_def ring_wf_def slot_def All_less_Suc mask_eq_exp_minus_1
          intro!: exI [of _ "3 :: nat"])
  then show ?thesis by (auto simp: pool_holds_def demo_pktpool_def)
qed

lemma demo_buf_simps [simp]:
  "mbufs demo_store 1000 = Some (demo_buf 1000 (Some 2000) 2 4 6)" "mbufs demo_store 2000 = Some (demo_buf 2000 None 1 2 2)"
  "pools demo_store 1 = Some \<lparr>pool_mp = demo_pktpool, pool_priv = \<lparr>mbuf_data_room_size = 64, mbuf_priv_size = 0\<rparr>\<rparr>"
  "mem_bytes demo_store = of_nat"
  by (simp_all add: demo_store_def)

lemma demo_store_owns: "store_owns demo_store [[1000, 2000]]"
proof -
  have ind: "\<not> RTE_MBUF_INDIRECT b" if "mbufs demo_store m = Some b" for m b
    using that by (auto simp: demo_store_def demo_buf_def RTE_MBUF_INDIRECT_def split: if_splits)
  then have a: "attached demo_store m = {}" for m by (auto simp: attached_def)
  have d: "dom (mbufs demo_store) = {1000, 2000, 3000, 4000}" by (auto simp: demo_store_def)
  have o: "objs_of demo_store p = (if p = 1 then {1000, 2000, 3000, 4000} else {})" for p
    by (auto simp: objs_of_def demo_store_def demo_buf_def split: if_splits)
  have u: "used demo_store {#1000, 2000#} 1 = {1000, 2000}" by (auto simp: used_def o refs_def a)
  have "mbuf_ok demo_store {#1000, 2000#} m b" if m: "mbufs demo_store m = Some b" for m b
    using m ind [OF m] unfolding mbuf_ok_def refs_def a
    by (auto simp: demo_store_def demo_buf_def SIZEOF_RTE_MBUF_def demo_pktpool_def max_def split: if_splits)
  moreover have "pool_ok demo_store {#1000, 2000#} p pp" if p: "pools demo_store p = Some pp" for p pp
  proof -
    have "p = 1" "pool_mp pp = demo_pktpool" using p by (auto simp: demo_store_def split: if_splits)
    moreover have "{#3000, 4000#} + mset_set {1000, 2000} = mset_set {1000, 2000, 3000, 4000 :: nat}" by simp
    ultimately show ?thesis using demo_pool_holds u unfolding pool_ok_def o by (fastforce simp: demo_pktpool_def)
  qed
  ultimately have "minv demo_store {#1000, 2000#}" using d by (simp add: minv_def)
  then show ?thesis using d by (simp add: store_owns_def demo_buf_def)
qed

lemma demo_pkt_ok: "pkt_ok demo_store 1000 [1000, 2000]"
  by (simp add: pkt_ok_def seg_ok_def demo_buf_def)

lemma demo_data: "pkt_data demo_store [1000, 2000] = [0x78, 0x79, 0x7a, 0x7b, 0x60, 0x61]"
  by (simp add: demo_buf_def bytes_at_def rte_pktmbuf_mtod_def rte_pktmbuf_mtod_offset_def upt_rec)

section \<open>Properties\<close>

lemma no_refs:
  assumes "minv h {#}"
  shows "refs h {#} m = 0" and "mbufs h m = Some b \<Longrightarrow> \<not> RTE_MBUF_INDIRECT b"
proof -
  have d: "\<not> RTE_MBUF_INDIRECT b" if "mbufs h m = Some b" for m b
    using minvD(3) [OF assms that] by (auto simp: mbuf_ok_def)
  then show "mbufs h m = Some b \<Longrightarrow> \<not> RTE_MBUF_INDIRECT b" by blast
  have "attached h m = {}" using d by (auto simp: attached_def)
  then show "refs h {#} m = 0" by (simp add: refs_def)
qed

lemma all_free:
  assumes "store_owns h []" and "mbufs h m = Some b"
  shows "\<exists>pp F. pools h (mb_pool b) = Some pp \<and> pool_holds (pool_mp pp) F \<and> m \<in># F"
proof -
  have inv: "minv h {#}" using assms(1) by (simp add: store_owns_def)
  obtain pp where pp: "pools h (mb_pool b) = Some pp" using minvD(3) [OF inv assms(2)] by (auto simp: mbuf_ok_def)
  have "used h {#} (mb_pool b) = {}" using no_refs(1) [OF inv] by (simp add: used_def)
  then obtain F where F: "pool_holds (pool_mp pp) F" "F = mset_set (objs_of h (mb_pool b))"
    using minvD(4) [OF inv pp] by (auto simp: pool_ok_def)
  have "finite (objs_of h (mb_pool b))"
    by (rule finite_subset [OF _ minvD(1) [OF inv]]) (auto simp: objs_of_def)
  moreover have "m \<in> objs_of h (mb_pool b)" using assms(2) by (auto simp: objs_of_def)
  ultimately show ?thesis using pp F by auto
qed

text \<open>
  C5. A pool that \<open>rte_pktmbuf_pool_create\<close> makes has the number of buffers asked for. Whatever
  sequence of \<open>rte_pktmbuf_alloc\<close>, \<open>rte_pktmbuf_clone\<close> and \<open>rte_pktmbuf_free\<close> a program then
  runs, freeing and cloning packets it holds, every call returns, the segments of the packets it
  holds stay pairwise different with reference counts that match, and when it holds no packet
  any more every buffer is back in its pool.
\<close>

theorem packets_conserved:
  assumes "rte_pktmbuf_pool_create fuel env p name n cache_size psize room (empty_store mem) = Inr (Some (True, h))"
    and "env_ok env" and "0 < unat n" and "unat n \<le> 32767"
    and "0 < unat (spread_factor env)" and "unat (spread_factor env) < 2 ^ 16" and "unat (spread_factor env) \<le> fuel"
    and "\<And>pp. pools h p = Some pp \<Longrightarrow> distinct (pool_objs (pool_mp pp))"
  shows "\<exists>h' css. packet_client store_has_pool rte_pktmbuf_alloc (rte_pktmbuf_free 32767) (rte_pktmbuf_clone 32767) h [] ops
      = Inr (map hd css, h') \<and> store_owns h' css \<and> card (dom (mbufs h')) = unat n
    \<and> (css = [] \<longrightarrow> (\<forall>m b. mbufs h' m = Some b \<longrightarrow>
         (\<exists>pp F. pools h' (mb_pool b) = Some pp \<and> pool_holds (pool_mp pp) F \<and> m \<in># F)))"
proof -
  have "store_owns h []" "card (dom (mbufs h)) = unat n"
    using pool_create_owns [OF assms] by blast+
  then have "store_holds (dom (mbufs h)) h []" by (simp add: store_holds_def)
  from pkts.client_owns [OF this, of ops] obtain h' css where
    c: "packet_client store_has_pool rte_pktmbuf_alloc (rte_pktmbuf_free 32767) (rte_pktmbuf_clone 32767) h [] ops = Inr (map hd css, h')"
    "store_owns h' css" "dom (mbufs h') = dom (mbufs h)"
    by (auto simp: store_holds_def)
  then show ?thesis using \<open>card (dom (mbufs h)) = unat n\<close> all_free [of h'] by metis
qed

lemma demo_pktpool_created:
  "(case rte_pktmbuf_pool_create 4 demo_env 1 ''p'' 1 0 0 64 (empty_store (\<lambda>_. 0)) of
      Inr (Some (True, h)) \<Rightarrow> (case pools h 1 of Some pp \<Rightarrow> distinct (pool_objs (pool_mp pp)) | None \<Rightarrow> False) | _ \<Rightarrow> False)"
  by code_simp

theorem packets_conserved_witness:
  "\<exists>h h' css. rte_pktmbuf_pool_create 4 demo_env 1 ''p'' 1 0 0 64 (empty_store (\<lambda>_. 0)) = Inr (Some (True, h))
     \<and> packet_client store_has_pool rte_pktmbuf_alloc (rte_pktmbuf_free 32767) (rte_pktmbuf_clone 32767) h []
         [Pkt_alloc 0 1, Pkt_clone 0 0 1, Pkt_free 1 0] = Inr (map hd css, h') \<and> store_owns h' css \<and> card (dom (mbufs h')) = 1"
proof -
  obtain h where h: "rte_pktmbuf_pool_create 4 demo_env 1 ''p'' 1 0 0 64 (empty_store (\<lambda>_. 0)) = Inr (Some (True, h))"
    "\<And>pp. pools h 1 = Some pp \<Longrightarrow> distinct (pool_objs (pool_mp pp))"
    using demo_pktpool_created by (auto split: sum.splits option.splits bool.splits)
  show ?thesis
    using packets_conserved [OF h(1) demo_env_ok(1) _ _ _ _ _ h(2), of "[Pkt_alloc 0 1, Pkt_clone 0 0 1, Pkt_free 1 0]"] h(1)
    by (auto simp: demo_env_ok)
qed

text \<open>
  C31. \<open>rte_pktmbuf_clone\<close> of a packet that is held either reports that there are not enough
  buffers, and then has given back those it took, or returns a new packet with the same data,
  in the same number of segments, all of them different from the segments of every packet held
  before; the packets held before are as they were.
\<close>

theorem clone_same_data:
  assumes "store_owns h css" and "ms \<in> set css" and "store_has_pool h p" and "32767 \<le> fuel"
  shows "\<exists>r h'. rte_pktmbuf_clone fuel lcore (hd ms) p h = Inr (r, h') \<and> (\<forall>xs\<in>set css. pkt_data h' xs = pkt_data h xs)
    \<and> (case r of None \<Rightarrow> store_owns h' css
       | Some m \<Rightarrow> \<exists>cs. hd cs = m \<and> store_owns h' (cs # css) \<and> pkt_data h' cs = pkt_data h ms \<and> length cs = length ms)"
proof -
  obtain r h' where c: "rte_pktmbuf_clone fuel lcore (hd ms) p h = Inr (r, h')" "kept (set (concat css)) h h'"
    "case r of None \<Rightarrow> store_owns h' css
       | Some m \<Rightarrow> \<exists>cs. hd cs = m \<and> store_owns h' (cs # css) \<and> pkt_data h' cs = pkt_data h ms \<and> length cs = length ms"
    using store_clone [OF assms] by blast
  have "pkt_data h' xs = pkt_data h xs" if "xs \<in> set css" for xs
    using that c(2) assms(1) by (intro store_kept_data)
  then show ?thesis using c(1,3) by blast
qed

theorem clone_same_data_witness:
  "\<exists>r h'. rte_pktmbuf_clone 32767 0 1000 1 demo_store = Inr (r, h') \<and> pkt_data h' [1000, 2000] = [0x78, 0x79, 0x7a, 0x7b, 0x60, 0x61]
    \<and> (case r of None \<Rightarrow> store_owns h' [[1000, 2000]]
       | Some m \<Rightarrow> \<exists>cs. hd cs = m \<and> store_owns h' [cs, [1000, 2000]] \<and> pkt_data h' cs = [0x78, 0x79, 0x7a, 0x7b, 0x60, 0x61])"
proof -
  have hyps: "[1000, 2000] \<in> set [[1000, 2000 :: nat]]" "store_has_pool demo_store 1" "32767 \<le> (32767 :: nat)"
    by (simp_all add: store_has_pool_def demo_store_def)
  from clone_same_data [OF demo_store_owns hyps, of 0] obtain r h' where
    c: "rte_pktmbuf_clone 32767 0 1000 1 demo_store = Inr (r, h')" "pkt_data h' [1000, 2000] = pkt_data demo_store [1000, 2000]"
    "case r of None \<Rightarrow> store_owns h' [[1000, 2000]]
     | Some m \<Rightarrow> \<exists>cs. hd cs = m \<and> store_owns h' [cs, [1000, 2000]] \<and> pkt_data h' cs = pkt_data demo_store [1000, 2000] \<and> length cs = length [1000, 2000 :: nat]"
    unfolding list.sel by auto
  show ?thesis
    by (rule exI [of _ r], rule exI [of _ h']) (use c in \<open>unfold demo_data, cases r; auto\<close>)
qed

text \<open>
  C32. \<open>rte_pktmbuf_read\<close> finds the bytes asked for: when the range lies in the packet and is not
  the empty range at its end, the pointer it returns, into a segment or to the caller's buffer,
  leads to exactly those bytes of the packet, across however many segments.
\<close>

theorem read_finds_data:
  assumes "pkt_ok h m ms" and "unat off + unat len \<le> length (pkt_data h ms)"
    and "0 < unat len \<or> unat off < length (seg_data h m)" and "length ms \<le> fuel"
  shows "\<exists>p. rte_pktmbuf_read fuel h m off len = Inr (Some p)
    \<and> read_result h p (unat len) = Inr (take (unat len) (drop (unat off) (pkt_data h ms)))"
  by (rule pktmbuf_read_data [OF assms])

theorem read_finds_data_witness:
  "\<exists>p. rte_pktmbuf_read 2 demo_store 1000 3 2 = Inr (Some p) \<and> read_result demo_store p 2 = Inr [0x7b, 0x60]"
  using read_finds_data [OF demo_pkt_ok, of 3 2 2] unfolding demo_data by simp

text \<open>
  C33. A read of no bytes at the end of a packet of several segments passes the length checks of
  \<open>rte_pktmbuf_read\<close>, and the search for the segment then follows the null pointer of the last one.
\<close>

theorem read_at_end_null:
  assumes "pkt_ok h m ms" and "mbufs h m = Some b" and "0 < length (pkt_data h (tl ms))" and "length ms \<le> fuel"
  shows "rte_pktmbuf_read fuel h m (pkt_len b) 0 = Inl Null_deref"
proof -
  have ch: "seg_chain h (Some m) ms" and pl: "unat (pkt_len b) = length (pkt_data h ms)"
    using assms(1,2) by (auto simp: pkt_ok_def)
  have "read_seek fuel h m (pkt_len b) = Inl Null_deref" by (rule read_seek_end [OF ch pl assms(4)])
  moreover obtain rest where "ms = m # rest" using ch by (cases ms) auto
  then have "\<not> pkt_len b \<le> ucast (data_len b)" using assms(2,3) pl by (simp add: word_le_nat_alt)
  ultimately show ?thesis using assms(2) by (simp add: rte_pktmbuf_read_def pktmbuf_read_slow_def)
qed

theorem read_at_end_null_witness: "rte_pktmbuf_read 2 demo_store 1000 6 0 = Inl Null_deref"
  using read_at_end_null [OF demo_pkt_ok demo_buf_simps(1), of 2] by (simp add: demo_buf_def)

text \<open>
  C34. \<open>rte_pktmbuf_chain\<close> makes one packet of two: its data is the data of the first followed by
  that of the second. The number of segments in its head is kept in eight bits, so that 257
  segments count as one and the packet passes for a contiguous one.
\<close>

theorem chain_joins_data:
  assumes "pkt_ok h m1 ms1" and "mbufs h m1 = Some b1" and "pkt_ok h m2 ms2" and "mbufs h m2 = Some b2"
    and "distinct (ms1 @ ms2)" and "unat (nb_segs b1) + unat (nb_segs b2) < 2 ^ 16"
    and "unat (pkt_len b1) + unat (pkt_len b2) < 2 ^ 32" and "length ms1 \<le> fuel"
  shows "\<exists>h'. rte_pktmbuf_chain fuel m1 m2 h = Inr (0, h') \<and> pkt_ok h' m1 (ms1 @ ms2)
    \<and> pkt_data h' (ms1 @ ms2) = pkt_data h ms1 @ pkt_data h ms2
    \<and> (\<exists>b. mbufs h' m1 = Some b \<and> unat (nb_segs b) = (unat (nb_segs b1) + unat (nb_segs b2)) mod 256
         \<and> (unat (nb_segs b1) + unat (nb_segs b2) = 257 \<longrightarrow> rte_pktmbuf_is_contiguous b))"
proof -
  obtain h' b where c: "rte_pktmbuf_chain fuel m1 m2 h = Inr (0, h')" "pkt_ok h' m1 (ms1 @ ms2)"
    "pkt_data h' (ms1 @ ms2) = pkt_data h ms1 @ pkt_data h ms2"
    "mbufs h' m1 = Some b" "unat (nb_segs b) = (unat (nb_segs b1) + unat (nb_segs b2)) mod 256"
    using chain_appends [OF assms] by blast
  have "rte_pktmbuf_is_contiguous b" if "unat (nb_segs b1) + unat (nb_segs b2) = 257"
    using c(5) that by (simp add: rte_pktmbuf_is_contiguous_def word_unat_eq_iff)
  then show ?thesis using c by blast
qed

theorem chain_joins_data_witness:
  "\<exists>h'. rte_pktmbuf_chain 2 1000 3000 demo_store = Inr (0, h') \<and> pkt_ok h' 1000 [1000, 2000, 3000]
     \<and> pkt_data h' [1000, 2000, 3000] = [0x78, 0x79, 0x7a, 0x7b, 0x60, 0x61]"
proof -
  have "mbufs demo_store 3000 = Some (demo_buf 3000 None 1 0 0)" by (simp add: demo_store_def)
  moreover from this have "pkt_ok demo_store 3000 [3000]" "pkt_data demo_store [3000] = []"
    by (simp_all add: pkt_ok_def seg_ok_def demo_buf_def bytes_at_def)
  ultimately show ?thesis
    using chain_joins_data [OF demo_pkt_ok demo_buf_simps(1), of 3000 "[3000]" "demo_buf 3000 None 1 0 0" 2]
    unfolding demo_data by (auto simp: demo_buf_def)
qed

text \<open>
  C35. \<open>rte_pktmbuf_linearize\<close> of a packet whose data fits in the buffer of its first segment, and
  does not overlap it, leaves a packet of one segment with the same data and gives the other
  segments back.
\<close>

theorem linearize_same_data:
  assumes "store_owns h (xs @ ms # ys)" and "pkt_ok h (hd ms) ms" and "mbufs h (hd ms) = Some b"
    and "nb_segs b \<noteq> 1 \<or> length ms = 1" and "unat (data_off b) + unat (pkt_len b) \<le> unat (buf_len b)"
    and "\<forall>s\<in>set (tl ms). apart b h s" and "32767 \<le> fuel"
  shows "\<exists>h'. rte_pktmbuf_linearize fuel lcore (hd ms) h = Inr (0, h') \<and> store_owns h' (xs @ [hd ms] # ys)
    \<and> pkt_ok h' (hd ms) [hd ms] \<and> pkt_data h' [hd ms] = pkt_data h ms"
  by (rule linearize_data [OF assms])

theorem linearize_same_data_witness:
  "\<exists>h'. rte_pktmbuf_linearize 32767 0 1000 demo_store = Inr (0, h') \<and> store_owns h' [[1000]]
     \<and> pkt_data h' [1000] = [0x78, 0x79, 0x7a, 0x7b, 0x60, 0x61]"
proof -
  have "apart (demo_buf 1000 (Some 2000) 2 4 6) demo_store 2000"
    by (simp add: apart_def demo_buf_def rte_pktmbuf_mtod_def rte_pktmbuf_mtod_offset_def)
  then show ?thesis
    using linearize_same_data [of demo_store "[]" "[1000, 2000]" "[]" _ 32767 0] demo_store_owns demo_pkt_ok
    unfolding demo_data by (auto simp: demo_buf_def)
qed

text \<open>
  C36. \<open>rte_raw_cksum_mbuf\<close> of a range that is not empty, at an even offset of a packet whose segments have
  even lengths, returns what \<open>rte_raw_cksum\<close> returns for those bytes in one buffer.
\<close>

theorem cksum_mbuf_equiv:
  assumes "pkt_ok h m ms" and "unat off + unat len \<le> length (pkt_data h ms)" and "0 < unat len"
    and "even (unat off)" and "\<forall>x\<in>set ms. even (length (seg_data h x))" and "length ms \<le> fuel"
  shows "\<exists>c. rte_raw_cksum_mbuf fuel h m off len = Inr (Some c)
    \<and> rte_raw_cksum (take (unat len) (drop (unat off) (pkt_data h ms))) (unat len) = Inr c"
  using cksum_mbuf_sum [OF assms] raw_cksum_take [of "take (unat len) (drop (unat off) (pkt_data h ms))" "unat len"] assms(2) by simp

theorem cksum_mbuf_equiv_witness:
  "\<exists>c. rte_raw_cksum_mbuf 2 demo_store 1000 2 4 = Inr (Some c) \<and> rte_raw_cksum [0x7a, 0x7b, 0x60, 0x61] 4 = Inr c"
  using cksum_mbuf_equiv [OF demo_pkt_ok, of 2 4 2] unfolding demo_data by (simp add: demo_buf_def)

text \<open>
  C37. \<open>rte_vlan_insert\<close> on a packet buffer with no other reference puts the tag behind the two
  Ethernet addresses, and \<open>rte_vlan_strip\<close> takes it out again: the frame is the one before, and
  the tag control information is in the buffer structure.
\<close>

theorem vlan_roundtrip:
  assumes "mbufs h m = Some b" and "refcnt b = 1" and "seg_ok b" and "4 \<le> unat (data_off b)"
    and "12 \<le> unat (data_len b)" and "unat (data_len b) + 4 < 2 ^ 16"
  shows "\<exists>h' h'' b''. rte_vlan_insert fuel lcore m h = Inr (0, m, h')
    \<and> seg_data h' m = take 12 (seg_data h m) @ vlan_tag (vlan_tci b) @ drop 12 (seg_data h m)
    \<and> rte_vlan_strip m h' = Inr (0, h'') \<and> seg_data h'' m = seg_data h m
    \<and> mbufs h'' m = Some b'' \<and> vlan_tci b'' = vlan_tci b"
proof -
  obtain h' b' where i: "rte_vlan_insert fuel lcore m h = Inr (0, m, h')" "mbufs h' m = Some b'" "seg_ok b'"
    "seg_data h' m = take 12 (seg_data h m) @ vlan_tag (vlan_tci b) @ drop 12 (seg_data h m)"
    using vlan_insert_data [OF assms] by blast
  have "length (take 12 (seg_data h m)) = 12" using assms(1,5) by simp
  from vlan_strip_data [OF i(2,3,4) this] show ?thesis using i(1,4) by auto
qed

theorem vlan_roundtrip_witness:
  "\<exists>h' h''. rte_vlan_insert 1 0 5 \<lparr>mbufs = [5 \<mapsto> demo_buf 5 None 1 14 14], mem_bytes = of_nat, pools = Map.empty\<rparr> = Inr (0, 5, h')
     \<and> rte_vlan_strip 5 h' = Inr (0, h'') \<and> seg_data h'' 5 = bytes_at of_nat 149 14"
  using vlan_roundtrip [of "\<lparr>mbufs = [5 \<mapsto> demo_buf 5 None 1 14 14], mem_bytes = of_nat, pools = Map.empty\<rparr>" 5 "demo_buf 5 None 1 14 14" 1 0]
  by (auto simp: seg_ok_def demo_buf_def rte_pktmbuf_mtod_def rte_pktmbuf_mtod_offset_def)

end
