(* ===== verification/Router_Props.thy ===== *)
theory Router_Props
  imports Router_Ring Mbuf_Props
begin

text \<open>
  The properties of the packet processing of \<^verbatim>\<open>router.c\<close> on ports of the ring driver, and a small
  system to compute with.
\<close>

section \<open>A router with two ports\<close>

text \<open>
  Port 0 and port 1 have one queue each. There is one packet, with the bytes \<open>D\<close>; it waits at port 0
  or is held by the thread. The routes are those of \<open>test_state\<close>, which send a packet for 10.0.10.10
  to port 1.
\<close>

definition small_ring :: "addr list \<Rightarrow> addr rte_ring" where
  "small_ring q =
     \<lparr>ring_name = ''r'', ring_flags = 0, ring_size = 8, ring_mask = 7, ring_capacity = 7,
      prod = \<lparr>head = of_nat (length q), tail = of_nat (length q), single = False\<rparr>,
      cons = \<lparr>head = 0, tail = 0, single = False\<rparr>,
      ring_cells = map Some q @ replicate (8 - length q) None\<rparr>"

lemma small_ring_rep: "length q \<le> 7 \<Longrightarrow> ring_rep (small_ring q) q"
  by (auto simp: small_ring_def ring_rep_def ring_wf_def slot_def nth_append mask_eq_exp_minus_1
      intro!: exI [of _ "3 :: nat"])

definition two_mac :: "uint8 \<Rightarrow> ether_addr" where
  "two_mac i = \<lparr>addr_bytes = [2, 0, 0, 0, 0, i]\<rparr>"

definition two_frame :: "uint8 list" where
  "two_frame =
     [2, 0, 0, 0, 0, 1, 2, 0, 0, 0, 0, 9, 0x08, 0x00,
      0x45, 0, 0, 20, 0, 0, 0, 0, 64, 17, 0x5c, 0xc7, 10, 0, 0, 9, 10, 0, 10, 10]"

definition two_pool :: rte_mempool where
  "two_pool = demo_pktpool\<lparr>pool_data := Some (small_ring [2000, 3000, 4000])\<rparr>"

definition two_store :: "uint8 list \<Rightarrow> mbuf_mem" where
  "two_store D =
     \<lparr>mbufs = [1000 \<mapsto> demo_buf 1000 None 1 (of_nat (length D)) (of_nat (length D)), 2000 \<mapsto> demo_buf 2000 None 1 0 0,
        3000 \<mapsto> demo_buf 3000 None 1 0 0, 4000 \<mapsto> demo_buf 4000 None 1 0 0],
      mem_bytes = bytes_put (\<lambda>_. 0) 1144 D,
      pools = [1 \<mapsto> \<lparr>pool_mp = two_pool, pool_priv = \<lparr>mbuf_data_room_size = 64, mbuf_priv_size = 0\<rparr>\<rparr>]\<rparr>"

definition two_data :: "uint8 \<Rightarrow> addr \<Rightarrow> addr \<Rightarrow> rte_eth_dev_data" where
  "two_data i rx tx =
     \<lparr>rx_queues = Some [Some rx], tx_queues = Some [Some tx], nb_rx_queues = 1, nb_tx_queues = 1, dev_private = 0,
      link_up = True, dev_conf = port_conf, min_rx_buf_size = 0, mac_addrs = [two_mac i], mac_pool_sel = [],
      promiscuous = False, all_multicast = False, dev_started = True, rx_queue_started = [True], tx_queue_started = [True],
      dev_flags = 0\<rparr>"

definition two_dev :: "uint8 \<Rightarrow> addr \<Rightarrow> addr \<Rightarrow> ring_hw rte_eth_dev" where
  "two_dev i rx tx =
     \<lparr>rx_pkt_burst = Some eth_ring_rx, tx_pkt_burst = Some eth_ring_tx, dev_data = two_data i rx tx, dev_ops = ring_ops,
      post_rx_burst_cbs = [[]], pre_tx_burst_cbs = [[]], dev_state = RTE_ETH_DEV_ATTACHED\<rparr>"

definition two_hw :: "addr list \<Rightarrow> ring_hw" where
  "two_hw waiting =
     \<lparr>rings = [100 \<mapsto> small_ring waiting, 101 \<mapsto> small_ring [], 102 \<mapsto> small_ring [], 103 \<mapsto> small_ring []],
      ring_queues = (\<lambda>a. if a < 4 then Some \<lparr>rng = 100 + a, rx_pkts = 0, tx_pkts = 0, err_pkts = 0\<rparr> else None),
      pmds = (\<lambda>_. None)\<rparr>"

definition two_eth :: "uint8 list \<Rightarrow> addr list \<Rightarrow> ring_hw eth" where
  "two_eth D waiting = \<lparr>devices = [two_dev 1 0 1, two_dev 2 2 3], wld = (two_hw waiting, two_store D)\<rparr>"

definition two_txq :: "uint8 \<times> uint16 \<Rightarrow> addr option" where
  "two_txq = [(0, 0) \<mapsto> 101, (1, 0) \<mapsto> 103]"

definition two_rxq :: "uint8 \<times> uint16 \<Rightarrow> addr option" where
  "two_rxq = [(0, 0) \<mapsto> 100, (1, 0) \<mapsto> 102]"

definition two_ifs :: "interface_config list" where
  "two_ifs = [\<lparr>int_id = 0, if_addr = 0x0A000001, if_mac = two_mac 1\<rparr>, \<lparr>int_id = 1, if_addr = 0x0A000A01, if_mac = two_mac 2\<rparr>]"

definition two_list :: "interface_config pointer_list" where
  "two_list = \<lparr>pl_list = Some (map (Some \<circ> Some) two_ifs), pl_len = 2, pl_cap = 2\<rparr>"

definition two_thr :: thread_config where
  "two_thr = \<lparr>thr_int_confs = two_list, worker_count = 1, q_id = 0\<rparr>"

definition two_ctx :: "rt_state \<Rightarrow> router_ctx" where
  "two_ctx rt = \<lparr>ctx_rt = rt, int_confs = two_list, ctx_lcore = 0, ctx_fuel = 32767\<rparr>"

lemma two_store_owns: "store_owns (two_store D) [[1000]]"
proof -
  have ind: "\<not> RTE_MBUF_INDIRECT b" if "mbufs (two_store D) m = Some b" for m b
    using that by (auto simp: two_store_def demo_buf_def RTE_MBUF_INDIRECT_def split: if_splits)
  then have a: "attached (two_store D) m = {}" for m by (auto simp: attached_def)
  have d: "dom (mbufs (two_store D)) = {1000, 2000, 3000, 4000}" by (auto simp: two_store_def)
  have o: "objs_of (two_store D) p = (if p = 1 then {1000, 2000, 3000, 4000} else {})" for p
    by (auto simp: objs_of_def two_store_def demo_buf_def split: if_splits)
  have u: "used (two_store D) {#1000#} 1 = {1000}" by (auto simp: used_def o refs_def a)
  have "ring_rep (small_ring [2000, 3000, 4000]) [2000, 3000, 4000]" by (rule small_ring_rep) simp
  then have r: "ring_holds two_pool [2000, 3000, 4000]"
    by (auto simp: ring_holds_def two_pool_def demo_pktpool_def small_ring_def)
  then have holds: "pool_holds two_pool {#2000, 3000, 4000#}" by (auto simp: pool_holds_def two_pool_def demo_pktpool_def)
  have "mbuf_ok (two_store D) {#1000#} m b" if m: "mbufs (two_store D) m = Some b" for m b
    using m ind [OF m] unfolding mbuf_ok_def refs_def a
    by (auto simp: two_store_def demo_buf_def SIZEOF_RTE_MBUF_def two_pool_def demo_pktpool_def max_def split: if_splits)
  moreover have "pool_ok (two_store D) {#1000#} p pp" if p: "pools (two_store D) p = Some pp" for p pp
  proof -
    have "p = 1" "pool_mp pp = two_pool" using p by (auto simp: two_store_def split: if_splits)
    moreover have "{#2000, 3000, 4000#} + mset_set {1000} = mset_set {1000, 2000, 3000, 4000 :: nat}" by simp
    ultimately show ?thesis using holds u unfolding pool_ok_def o by (fastforce simp: two_pool_def demo_pktpool_def)
  qed
  ultimately have "minv (two_store D) {#1000#}" using d by (simp add: minv_def)
  then show ?thesis using d by (simp add: store_owns_def two_store_def demo_buf_def)
qed

lemma two_seg:
  assumes "length D \<le> 48"
  shows "seg_data (two_store D) 1000 = D" "pkt_data (two_store D) [1000] = D"
proof -
  have "unat (of_nat (length D) :: uint16) = length D" using assms by (simp add: unat_of_nat_eq)
  then show s: "seg_data (two_store D) 1000 = D"
    using bytes_at_put_same [of "\<lambda>_. 0" 1144 D]
    by (simp add: seg_data_def two_store_def demo_buf_def rte_pktmbuf_mtod_def rte_pktmbuf_mtod_offset_def)
  then show "pkt_data (two_store D) [1000] = D" by (simp only: pkt_data_Cons pkt_data_Nil append_Nil2)
qed

lemma two_held:
  assumes "length D \<le> 48"
  shows "held_frames (two_store D) [[1000]]"
proof -
  let ?b = "demo_buf 1000 None 1 (of_nat (length D)) (of_nat (length D))"
  have b: "mbufs (two_store D) 1000 = Some ?b" by (simp add: two_store_def)
  have "unat (of_nat (length D) :: uint16) = length D" "unat (of_nat (length D) :: uint32) = length D"
    using assms by (simp_all add: unat_of_nat_eq)
  then have "seg_ok ?b" "unat (pkt_len ?b) = length D" using assms by (simp_all add: seg_ok_def demo_buf_def)
  moreover have "next_seg ?b = None" by (simp add: demo_buf_def)
  ultimately show ?thesis
    using two_store_owns two_seg [OF assms] b
    by (auto simp: held_frames_def pkt_ok_def segs_ok_def hdr_room_def simp del: seg_data_some pkt_data_Cons)
qed

abbreviation two_io :: "ring_hw eth \<Rightarrow> addr list list \<Rightarrow> (addr \<Rightarrow> uint8 list list) \<Rightarrow> bool" where
  "two_io \<equiv> ring_io two_txq two_rxq (\<lambda>_. 7) [100, 101, 102, 103]"

lemma two_io_start:
  assumes D: "length D \<le> 48"
  shows "two_io (two_eth D [1000]) [] ((\<lambda>_. [])(100 := [D]))" "two_io (two_eth D []) [[1000]] (\<lambda>_. [])"
proof -
  let ?K = "[100, 101, 102, 103 :: nat]"
  have w: "ring_wired two_txq two_rxq ?K (two_eth D waiting)" for waiting
    by (auto simp: ring_wired_def two_txq_def two_rxq_def two_eth_def two_dev_def two_data_def two_hw_def dev_at_def
        queue_ptr_def queue_at_def cbs_at_def split: if_splits)
  have cap: "unat (ring_capacity (small_ring q)) = 7" for q by (simp add: small_ring_def)
  note rep = small_ring_rep [of "[1000]", simplified] small_ring_rep [of "[]", simplified]
  have held: "held_frames (store (two_eth D waiting)) [[1000]]" for waiting using two_held [OF D] by (simp add: two_eth_def)
  show "two_io (two_eth D [1000]) [] ((\<lambda>_. [])(100 := [D]))"
    unfolding ring_io_def
  proof (intro conjI exI [of _ "(\<lambda>_. [])(100 := [[1000]])"])
    show "rings_hold (\<lambda>_. 7) ?K (fst (wld (two_eth D [1000]))) ((\<lambda>_. [])(100 := [[1000]]))"
      using rep by (simp add: rings_hold_def two_eth_def two_hw_def cap)
    show "\<forall>k\<in>set ?K. ((\<lambda>_. [])(100 := [D])) k = map (pkt_data (store (two_eth D [1000]))) (((\<lambda>_. [])(100 := [[1000]])) k)"
      by (simp add: two_eth_def two_seg [OF D] del: pkt_data_Cons)
  qed (use w held in simp_all)
  show "two_io (two_eth D []) [[1000]] (\<lambda>_. [])"
    unfolding ring_io_def
  proof (intro conjI exI [of _ "\<lambda>_. []"])
    show "rings_hold (\<lambda>_. 7) ?K (fst (wld (two_eth D []))) (\<lambda>_. [])"
      using rep by (simp add: rings_hold_def two_eth_def two_hw_def cap)
  qed (use w held in simp_all)
qed

lemma two_doms: "dom two_txq = {(0, 0), (1, 0)}" "dom two_rxq = {(0, 0), (1, 0)}"
  by (auto simp: two_txq_def two_rxq_def split: if_splits)

lemma two_list_rep: "pl_rep two_list (map Some two_ifs)"
  by (simp add: pl_rep_def two_list_def two_ifs_def)

lemma two_thread_ok: "thread_ok (dom two_txq) (dom two_rxq) two_thr two_ifs"
  using two_list_rep
  by (simp add: thread_ok_def two_thr_def two_doms port_ok_def two_ifs_def two_mac_def ether_addr_wf_def c_defs)

lemma two_table:
  "\<exists>rt. build_routing_table ISO_C test_state = Inr rt
     \<and> (\<forall>D waiting. router_ok (dom two_txq) (two_eth D waiting) (two_ctx rt) two_thr two_ifs 2)
     \<and> lpm_hop rt 2 0x0A000A0A = Some \<lparr>dst_mac = test_mac 1, dst_port = 1\<rparr>"
proof -
  have "rt_wf test_state" by (rule reachable_wf [OF test_state_reachable])
  then obtain rt where rt: "build_routing_table ISO_C test_state = Inr rt" "rt_built rt 2" "nh_id_to_info rt = nh_id_to_info test_state"
    using build_routing_table_built [of test_state ISO_C] test_routes_ok unfolding rt_wf_def by auto
  have infos: "infos_of rt = test_infos" using rt(3) by (simp add: fun_eq_iff)
  have hop: "next_hop (test_infos 0) = \<lparr>dst_mac = test_mac 0, dst_port = 0\<rparr>" "next_hop (test_infos (Suc 0)) = \<lparr>dst_mac = test_mac 1, dst_port = 1\<rparr>"
    by (simp_all add: test_infos_def new_info_def)
  have "routes_of rt = routes_of test_state" using rt(3) by (simp add: routes_of_def fun_eq_iff)
  then have lpm: "lpm_hop rt 2 0x0A000A0A = Some \<lparr>dst_mac = test_mac 1, dst_port = 1\<rparr>"
    using hop by (simp add: lpm_hop_def test_lpm infos)
  have mac: "rte_eth_macaddr_get p old (two_eth D waiting) = Inr (port_mac (two_eth D waiting) p)" "ether_addr_wf (port_mac (two_eth D waiting) p)"
    if "p = 0 \<or> p = 1" for p old D waiting
    using that by (auto simp: rte_eth_macaddr_get_def rte_eth_dev_is_valid_port_def dev_at_def port_mac_def two_eth_def two_dev_def
        two_data_def c_defs two_mac_def ether_addr_wf_def)
  have "i = 0 \<or> i = Suc 0" if "i < 2" for i :: nat using that by arith
  then have "router_ok (dom two_txq) (two_eth D waiting) (two_ctx rt) two_thr two_ifs 2" for D waiting
    using rt(2) two_list_rep mac hop unfolding router_ok_def two_ctx_def two_thr_def two_doms infos
    by (fastforce simp: infos test_mac_def ether_addr_wf_def c_defs)
  then show ?thesis using rt(1) lpm by blast
qed

section \<open>Properties\<close>

text \<open>
  C2. A round of a router thread does what routing means. On ports of the ring driver, with the table
  built from the routes, a round over the interfaces of a thread returns; from each interface it takes the first
  frames waiting there, at most 32, and at least one if there are any, and does with each
  in turn what \<open>frame_action\<close> says: drop it, forward it to the next hop of the longest matching
  prefix, or answer it. A frame to send is lost only when the queue is full. No other packet is
  touched, and no packet is lost: the packets that are held stay the same.
\<close>

theorem router_round_routes:
  assumes "ring_io txq rxq cap K e css Q" and "router_ok (dom txq) e c thr ifs n" and "thread_ok (dom txq) (dom rxq) thr mes"
  shows "\<exists>b e' Q'. router_round c thr e = Inr (b, e') \<and> ring_io txq rxq cap K e' css Q' \<and> devices e' = devices e
    \<and> (\<forall>ps\<in>set css. pkt_data (store e') ps = pkt_data (store e) ps)
    \<and> routed cap (\<lambda>p. the (txq (p, q_id thr))) (\<lambda>p. map (\<lambda>j. the (rxq (p, of_nat j))) [0..<unat (worker_count thr)])
        (frame_action (lpm_hop (ctx_rt c) n) (port_mac e) (map if_addr ifs)) 32 mes Q Q'"
proof -
  obtain b e' Q' where r: "router_round c thr e = Inr (b, e')" "ring_io txq rxq cap K e' css Q'"
    "\<forall>zs\<in>set css. seg_list (store e') zs = seg_list (store e) zs" "devices e' = devices e"
    "routed cap (\<lambda>p. the (txq (p, q_id thr))) (\<lambda>p. map (\<lambda>j. the (rxq (p, of_nat j))) [0..<unat (worker_count thr)])
        (act_of e c ifs n) 32 mes Q Q'"
    using ring_ports.router_round_ok [OF assms(2,3,1)] by blast
  then show ?thesis by (auto simp: pkt_data_seg_list act_of_def)
qed

definition two_forwarded :: "uint8 list" where
  "two_forwarded =
     [1, 1, 1, 1, 1, 1, 2, 0, 0, 0, 0, 2, 0x08, 0x00,
      0x45, 0, 0, 20, 0, 0, 0, 0, 63, 17, 0x5d, 0xc7, 10, 0, 0, 9, 10, 0, 10, 10]"

definition two_hdr :: "uint8 \<Rightarrow> uint16 \<Rightarrow> ipv4_hdr" where
  "two_hdr ttl ck =
     \<lparr>version_ihl = 0x45, type_of_service = 0, total_length = 0x1400, packet_id = 0, fragment_offset = 0,
      time_to_live = ttl, next_proto_id = 17, hdr_checksum = ck, src_addr = 0x0900000A, dst_addr = 0x0A0A000A\<rparr>"

lemma two_frame_length: "length two_frame = 34" "length two_frame \<le> 48"
  by (simp_all add: two_frame_def)

lemma two_frame_hdrs:
  "frame_eth two_frame = \<lparr>d_addr = two_mac 1, s_addr = two_mac 9, ether_type = 8\<rparr>" "frame_ipv4 two_frame = two_hdr 64 0xc75c"
  "ipv4_ok (two_hdr 64 0xc75c) 20" "ipv4_bytes (ipv4_forwarded (two_hdr 64 0xc75c)) = drop 14 two_forwarded"
proof -
  show "frame_eth two_frame = \<lparr>d_addr = two_mac 1, s_addr = two_mac 9, ether_type = 8\<rparr>" by code_simp
  show "frame_ipv4 two_frame = two_hdr 64 0xc75c" by code_simp
  have "rte_ipv4_cksum ((two_hdr 64 0xc75c)\<lparr>hdr_checksum := 0\<rparr>) = Inr 0xc75c" by code_simp
  then have ck: "hdr_cksum (two_hdr 64 0xc75c) = 0xc75c" using hdr_cksum_eq [of "two_hdr 64 0xc75c"] by simp
  have "rte_ipv4_cksum ((two_hdr 63 0xc75c)\<lparr>hdr_checksum := 0\<rparr>) = Inr 0xc75d" by code_simp
  then have ck2: "hdr_cksum (two_hdr 63 0xc75c) = 0xc75d" using hdr_cksum_eq [of "two_hdr 63 0xc75c"] by simp
  have len: "rte_be_to_cpu_16 0x1400 = 20" by code_simp
  show "ipv4_ok (two_hdr 64 0xc75c) 20" unfolding ipv4_ok_def ck by (simp add: two_hdr_def len)
  have "ipv4_forwarded (two_hdr 64 0xc75c) = two_hdr 63 0xc75d"
    using ck2 by (simp add: ipv4_forwarded_def two_hdr_def)
  moreover have "ipv4_bytes (two_hdr 63 0xc75d) = drop 14 two_forwarded" by code_simp
  ultimately show "ipv4_bytes (ipv4_forwarded (two_hdr 64 0xc75c)) = drop 14 two_forwarded" by simp
qed

lemma two_dst: "rte_be_to_cpu_32 (dst_addr (two_hdr ttl ck)) = 0x0A000A0A"
proof -
  have "rte_be_to_cpu_32 0x0A0A000A = 0x0A000A0A" by code_simp
  then show ?thesis by (simp add: two_hdr_def)
qed

lemma two_action:
  assumes "lpm_hop rt 2 0x0A000A0A = Some \<lparr>dst_mac = test_mac 1, dst_port = 1\<rparr>"
  shows "frame_action (lpm_hop rt 2) (port_mac (two_eth two_frame waiting)) (map if_addr two_ifs) \<lparr>int_id = 0, if_addr = 0x0A000001, if_mac = two_mac 1\<rparr> two_frame
     = Send 1 two_forwarded"
proof -
  have ty: "rte_be_to_cpu_16 8 = ETHER_TYPE_IPv4" by code_simp
  have mac: "port_mac (two_eth two_frame waiting) 1 = two_mac 2" by (simp add: port_mac_def two_eth_def two_dev_def two_data_def)
  have hdr: "ether_bytes \<lparr>d_addr = test_mac 1, s_addr = two_mac 2, ether_type = 8\<rparr> = take 14 two_forwarded" by code_simp
  have me: "for_me \<lparr>int_id = 0, if_addr = 0x0A000001, if_mac = two_mac 1\<rparr> two_frame" by (simp add: for_me_def two_frame_hdrs)
  have "ipv4_action (lpm_hop rt 2) (port_mac (two_eth two_frame waiting)) two_frame = Send 1 two_forwarded"
    using two_frame_hdrs(3,4) assms hdr two_frame_length
    by (simp add: ipv4_action_def two_frame_hdrs(1,2) two_dst mac Let_def) (simp add: two_hdr_def)
  then show ?thesis using me two_frame_length by (simp add: frame_action_def two_frame_hdrs(1) ty Let_def)
qed

theorem router_round_routes_witness:
  "\<exists>rt b e' Q'. build_routing_table ISO_C test_state = Inr rt \<and> router_round (two_ctx rt) two_thr (two_eth two_frame [1000]) = Inr (b, e')
     \<and> two_io e' [] Q' \<and> Q' 103 = [two_forwarded] \<and> Q' 100 = []"
proof -
  obtain rt where rt: "build_routing_table ISO_C test_state = Inr rt" "\<And>D waiting. router_ok (dom two_txq) (two_eth D waiting) (two_ctx rt) two_thr two_ifs 2"
    "lpm_hop rt 2 0x0A000A0A = Some \<lparr>dst_mac = test_mac 1, dst_port = 1\<rparr>" using two_table by blast
  obtain b e' Q' where r: "router_round (two_ctx rt) two_thr (two_eth two_frame [1000]) = Inr (b, e')" "two_io e' [] Q'"
    "routed (\<lambda>_. 7) (\<lambda>p. the (two_txq (p, 0))) (\<lambda>p. [the (two_rxq (p, 0))])
        (frame_action (lpm_hop rt 2) (port_mac (two_eth two_frame [1000])) (map if_addr two_ifs)) 32 two_ifs ((\<lambda>_. [])(100 := [two_frame])) Q'"
    using router_round_routes [OF two_io_start(1) [OF two_frame_length(2)] rt(2) two_thread_ok] by (auto simp: two_thr_def two_ctx_def)
  have q: "the (two_rxq (0, 0)) = 100" "the (two_rxq (1, 0)) = 102" "the (two_txq (1, 0)) = 103"
    by (simp_all add: two_rxq_def two_txq_def)
  define act where "act = frame_action (lpm_hop rt 2) (port_mac (two_eth two_frame [1000])) (map if_addr two_ifs)"
  have act: "act \<lparr>int_id = 0, if_addr = 0x0A000001, if_mac = two_mac 1\<rparr> two_frame = Send 1 two_forwarded"
    using two_action [OF rt(3)] by (simp add: act_def)
  have one: "received [100] 32 Ds ((\<lambda>_. [])(100 := [two_frame])) Q1 \<Longrightarrow> Ds = [two_frame] \<and> Q1 = (\<lambda>_. [])" for Ds Q1
    by (auto simp: le_Suc_eq)
  have none: "received [k] 32 Ds Q Q1 \<Longrightarrow> Q k = [] \<Longrightarrow> Ds = [] \<and> Q1 = Q" for k :: nat and Ds Q Q1
    by (auto simp: fun_upd_idem)
  have "Q' = (\<lambda>_. [])(103 := [two_forwarded])"
    using r(3) [folded act_def] unfolding two_ifs_def
    by (auto dest!: one none simp: q outcome_def act simp del: received.simps)
  then have "Q' 103 = [two_forwarded] \<and> Q' 100 = []" by simp
  then show ?thesis using rt(1) r(1,2) by blast
qed

lemma frame_parts:
  assumes "ether_hdr_wf eth" and "length h = n"
  shows "take 14 (ether_bytes eth @ h @ r) = ether_bytes eth" "take n (drop 14 (ether_bytes eth @ h @ r)) = h"
    "drop (14 + n) (ether_bytes eth @ h @ r) = r"
  using assms by simp_all

text \<open>
  C3. A forwarded packet is valid again. When an IPv4 packet is valid, its route is known, its
  time to live is left and the queue of the port has room, the handler queues one packet there:
  the Ethernet header goes from the port's address to the next hop, the IPv4 header differs in the
  time to live, lower by one, and the checksum, is valid again, and what follows is unchanged.
\<close>

theorem forwarded_packet_valid:
  assumes io: "ring_io txq rxq cap K e (ms # css) Q" and ok: "router_ok (dom txq) e c thr ifs n"
    and D: "pkt_data (store e) ms = D" "34 \<le> length D"
    and valid: "is_ipv4_hdr_valid (frame_ipv4 D) (of_nat (length D - 14)) = Inr (True, hdr)"
    and nh: "lpm_hop (ctx_rt c) n (rte_be_to_cpu_32 (dst_addr (frame_ipv4 D))) = Some nh" and ttl: "time_to_live (frame_ipv4 D) \<noteq> 1"
    and room: "txq (dst_port nh, q_id thr) = Some k" "length (Q k) < cap k"
  shows "\<exists>e' D' hdr'. thread_handle_ether_ipv4 c thr me (hd ms) e = Inr e' \<and> ring_io txq rxq cap K e' css (Q(k := Q k @ [D']))
    \<and> length D' = length D \<and> drop 34 D' = drop 34 D
    \<and> is_ipv4_hdr_valid (frame_ipv4 D') (of_nat (length D' - 14)) = Inr (True, hdr')
    \<and> frame_ipv4 D' = (frame_ipv4 D)\<lparr>time_to_live := time_to_live (frame_ipv4 D) - 1, hdr_checksum := hdr_checksum (frame_ipv4 D')\<rparr>
    \<and> frame_eth D' = \<lparr>d_addr = dst_mac nh, s_addr = port_mac e (dst_port nh), ether_type = ether_type (frame_eth D)\<rparr>"
proof -
  let ?h = "frame_ipv4 D" and ?eth = "\<lparr>d_addr = dst_mac nh, s_addr = port_mac e (dst_port nh), ether_type = ether_type (frame_eth D)\<rparr>"
  let ?len = "of_nat (length D - 14) :: uint32"
  obtain b :: rte_mbuf where "unat (pkt_len b) = length D" using ring_ports.packetD(2) [OF io, of ms] D(1) by auto
  then have "length D < 2 ^ 32" using unat_lt2p [of "pkt_len b"] by simp
  then have len: "unat ?len = length D - 14" by (simp add: unat_of_nat_eq)
  have okh: "ipv4_ok ?h (length D - 14)" using valid by (simp add: is_ipv4_hdr_valid_eq len)
  obtain i where "lpm (routes_of (ctx_rt c)) n (rte_be_to_cpu_32 (dst_addr ?h)) = Some i" "nh = next_hop (infos_of (ctx_rt c) i)"
    using nh by (auto simp: lpm_hop_def)
  then have wf: "ether_hdr_wf ?eth"
    using router_okD(5,6) [OF ok lpm_hop_cases(1)] router_okD(7) [OF ok] by (auto simp: ether_hdr_wf_def)
  define D' where "D' = ether_bytes ?eth @ ipv4_bytes (ipv4_forwarded ?h) @ drop 34 D"
  note parts = frame_parts [OF wf length_ipv4_bytes, of "ipv4_forwarded ?h" "drop 34 D", folded D'_def]
  have l: "length D' = length D" using wf D(2) by (simp add: D'_def)
  have ip: "frame_ipv4 D' = ipv4_forwarded ?h" by (simp add: frame_ipv4_def [of D'] parts(2))
  have "ipv4_action (lpm_hop (ctx_rt c) n) (port_mac e) D = Send (dst_port nh) D'"
    using okh nh ttl by (simp add: ipv4_action_def D'_def Let_def)
  moreover have "Q' = Q(k := Q k @ [D'])" if "outcome cap (\<lambda>p. the (txq (p, q_id thr))) (Send (dst_port nh) D') Q Q'" for Q'
    using that room by (simp add: outcome_def)
  ultimately obtain e' where "thread_handle_ether_ipv4 c thr me (hd ms) e = Inr e'" "ring_io txq rxq cap K e' css (Q(k := Q k @ [D']))"
    using ring_ports.handle_ipv4_ok [OF ok io D, of me] by metis
  moreover have "ipv4_ok (ipv4_forwarded ?h) (length D - 14)"
    using okh ttl by (auto simp: ipv4_ok_def ipv4_forwarded_def hdr_cksum_def Let_def)
  then have "is_ipv4_hdr_valid (frame_ipv4 D') (of_nat (length D' - 14)) = Inr (True, (ipv4_forwarded ?h)\<lparr>hdr_checksum := 0\<rparr>)"
    by (simp add: is_ipv4_hdr_valid_eq ip l len)
  moreover have "frame_ipv4 D' = ?h\<lparr>time_to_live := time_to_live ?h - 1, hdr_checksum := hdr_checksum (frame_ipv4 D')\<rparr>"
    by (simp add: ip ipv4_forwarded_def Let_def)
  moreover have "frame_eth D' = ?eth" using wf by (simp add: frame_eth_def [of D'] parts(1))
  moreover have "drop 34 D' = drop 34 D" using parts(3) by simp
  ultimately show ?thesis using l by blast
qed

theorem forwarded_packet_valid_witness:
  "\<exists>rt e' D'. build_routing_table ISO_C test_state = Inr rt
     \<and> thread_handle_ether_ipv4 (two_ctx rt) two_thr (hd two_ifs) 1000 (two_eth two_frame []) = Inr e'
     \<and> two_io e' [] ((\<lambda>_. [])(103 := [D'])) \<and> time_to_live (frame_ipv4 D') = 63 \<and> d_addr (frame_eth D') = test_mac 1"
proof -
  obtain rt where rt: "build_routing_table ISO_C test_state = Inr rt" "\<And>D waiting. router_ok (dom two_txq) (two_eth D waiting) (two_ctx rt) two_thr two_ifs 2"
    "lpm_hop rt 2 0x0A000A0A = Some \<lparr>dst_mac = test_mac 1, dst_port = 1\<rparr>" using two_table by blast
  let ?nh = "\<lparr>dst_mac = test_mac 1, dst_port = 1\<rparr>"
  have data: "pkt_data (store (two_eth two_frame [])) [1000] = two_frame" "34 \<le> length two_frame"
    using two_seg(2) [OF two_frame_length(2)] two_frame_length by (simp_all add: two_eth_def del: pkt_data_Cons)
  have valid: "is_ipv4_hdr_valid (frame_ipv4 two_frame) (of_nat (length two_frame - 14)) = Inr (True, (two_hdr 64 0xc75c)\<lparr>hdr_checksum := 0\<rparr>)"
    using two_frame_hdrs(3) by (simp add: is_ipv4_hdr_valid_eq two_frame_length(1) two_frame_hdrs(2))
  have nh: "lpm_hop (ctx_rt (two_ctx rt)) 2 (rte_be_to_cpu_32 (dst_addr (frame_ipv4 two_frame))) = Some ?nh"
    "time_to_live (frame_ipv4 two_frame) \<noteq> 1" using rt(3) two_dst by (simp_all add: two_frame_hdrs(2) two_ctx_def) (simp add: two_hdr_def)
  have room: "two_txq (dst_port ?nh, q_id two_thr) = Some 103" "length ((\<lambda>_. [] :: uint8 list list) (103 :: nat)) < 7"
    by (simp_all add: two_txq_def two_thr_def)
  obtain e' D' where r: "thread_handle_ether_ipv4 (two_ctx rt) two_thr (hd two_ifs) (hd [1000]) (two_eth two_frame []) = Inr e'"
    "two_io e' [] ((\<lambda>_. [])(103 := (\<lambda>_. []) 103 @ [D']))"
    "frame_ipv4 D' = (frame_ipv4 two_frame)\<lparr>time_to_live := time_to_live (frame_ipv4 two_frame) - 1, hdr_checksum := hdr_checksum (frame_ipv4 D')\<rparr>"
    "frame_eth D' = \<lparr>d_addr = dst_mac ?nh, s_addr = port_mac (two_eth two_frame []) (dst_port ?nh), ether_type = ether_type (frame_eth two_frame)\<rparr>"
    using forwarded_packet_valid [OF two_io_start(2) [OF two_frame_length(2)] rt(2) data valid nh room, of "hd two_ifs"] by blast
  have "time_to_live (frame_ipv4 D') = 63" using arg_cong [OF r(3), of time_to_live] by (simp add: two_frame_hdrs(2)) (simp add: two_hdr_def)
  then show ?thesis using r(1,2,4) rt(1) by auto
qed

text \<open>
  C8. Who asks for an address of the router gets an answer, and nobody else does. With room in the queue of the
  interface an ARP message came from, the handler answers exactly the requests, for Ethernet and IPv4 with
  their address lengths, whose target is the address of any of the router's interfaces: it queues the reply
  at the interface the request came from. The reply gives the hardware address of that interface, also
  when the address asked for belongs to another one. Every other message is dropped and no queue changes.
\<close>

theorem arp_request_answered:
  assumes io: "ring_io txq rxq cap K e (ms # css) Q" and ok: "router_ok (dom txq) e c thr ifs n" and me: "port_ok (dom txq) thr me"
    and D: "pkt_data (store e) ms = D" "42 \<le> length D" and a: "frame_arp D = a"
    and room: "txq (int_id me, q_id thr) = Some k" "length (Q k) < cap k"
  shows "if rte_be_to_cpu_16 (arp_hrd a) = ARP_HRD_ETHER \<and> arp_hln a = 6 \<and> rte_be_to_cpu_16 (arp_pro a) = ETHER_TYPE_IPv4 \<and> arp_pln a = 4
      \<and> rte_be_to_cpu_16 (arp_op a) = ARP_OP_REQUEST \<and> rte_be_to_cpu_32 (arp_tip (arp_data a)) \<in> if_addr ` set ifs
    then \<exists>e' D'. thread_handle_ether_arp c thr me (hd ms) e = Inr e' \<and> ring_io txq rxq cap K e' css (Q(k := Q k @ [D']))
      \<and> frame_eth D' = \<lparr>d_addr = s_addr (frame_eth D), s_addr = if_mac me, ether_type = ether_type (frame_eth D)\<rparr>
      \<and> frame_arp D' = a\<lparr>arp_op := rte_cpu_to_be_16 ARP_OP_REPLY,
          arp_data := \<lparr>arp_sha = if_mac me, arp_sip = arp_tip (arp_data a), arp_tha = arp_sha (arp_data a), arp_tip = arp_sip (arp_data a)\<rparr>\<rparr>
      \<and> drop 42 D' = drop 42 D
    else \<exists>e'. thread_handle_ether_arp c thr me (hd ms) e = Inr e' \<and> ring_io txq rxq cap K e' css Q"
    (is "if ?ok then ?answered else ?dropped")
proof (cases ?ok)
  case True
  let ?eth = "\<lparr>d_addr = s_addr (frame_eth D), s_addr = if_mac me, ether_type = ether_type (frame_eth D)\<rparr>"
  let ?arp = "arp_reply (if_mac me) a"
  have mac: "ether_addr_wf (if_mac me)" using me by (simp add: port_ok_def)
  have wf: "ether_hdr_wf ?eth" using mac ether_addr_wf_frame [of D] D(2) by (simp add: ether_hdr_wf_def)
  have "arp_wf a" using D(2) a by (auto simp: frame_arp_def)
  then have wfa: "arp_wf ?arp" using mac by (simp add: arp_reply_def arp_wf_def)
  define D' where "D' = ether_bytes ?eth @ arp_bytes ?arp @ drop 42 D"
  note parts = frame_parts [OF wf length_arp_bytes [OF wfa], of "drop 42 D", folded D'_def]
  have "arp_ok (map if_addr ifs) a" using True by (simp add: arp_ok_def)
  then have "arp_action (map if_addr ifs) me D = Send (int_id me) D'" by (simp add: arp_action_def a D'_def)
  moreover have "Q' = Q(k := Q k @ [D'])" if "outcome cap (\<lambda>p. the (txq (p, q_id thr))) (Send (int_id me) D') Q Q'" for Q'
    using that room by (simp add: outcome_def)
  ultimately obtain e' where "thread_handle_ether_arp c thr me (hd ms) e = Inr e'" "ring_io txq rxq cap K e' css (Q(k := Q k @ [D']))"
    using ring_ports.handle_arp_ok [OF ok me io D] by metis
  moreover have "frame_eth D' = ?eth" using wf by (simp add: frame_eth_def [of D'] parts(1))
  moreover have "frame_arp D' = ?arp" using wfa by (simp add: frame_arp_def [of D'] parts(2))
  moreover have "drop 42 D' = drop 42 D" using parts(3) by simp
  ultimately have ?answered unfolding arp_reply_def by blast
  then show ?thesis using True by (simp only: if_True simp_thms)
next
  case False
  then have "arp_action (map if_addr ifs) me D = Drop" using a by (auto simp: arp_action_def arp_ok_def)
  then have ?dropped using ring_ports.handle_arp_ok [OF ok me io D] by (auto simp: outcome_def)
  then show ?thesis using False by (simp only: if_False simp_thms)
qed

definition two_arp :: "uint8 list" where
  "two_arp =
     replicate 6 0xff @ [2, 0, 0, 0, 0, 9, 0x08, 0x06, 0, 1, 0x08, 0x00, 6, 4, 0, 1,
       2, 0, 0, 0, 0, 9, 10, 0, 0, 9, 0, 0, 0, 0, 0, 0, 10, 0, 10, 1]"

theorem arp_request_answered_witness:
  "\<exists>rt e' D'. build_routing_table ISO_C test_state = Inr rt
     \<and> thread_handle_ether_arp (two_ctx rt) two_thr (hd two_ifs) 1000 (two_eth two_arp []) = Inr e'
     \<and> two_io e' [] ((\<lambda>_. [])(101 := [D']))
     \<and> arp_sip (arp_data (frame_arp D')) = rte_cpu_to_be_32 (if_addr (two_ifs ! 1)) \<and> arp_sha (arp_data (frame_arp D')) = if_mac (two_ifs ! 0)
     \<and> if_mac (two_ifs ! 0) \<noteq> if_mac (two_ifs ! 1)"
proof -
  obtain rt where rt: "build_routing_table ISO_C test_state = Inr rt" "\<And>D waiting. router_ok (dom two_txq) (two_eth D waiting) (two_ctx rt) two_thr two_ifs 2"
    using two_table by blast
  have len: "length two_arp = 42" "length two_arp \<le> 48" by (simp_all add: two_arp_def)
  have data: "pkt_data (store (two_eth two_arp [])) [1000] = two_arp" "42 \<le> length two_arp"
    using two_seg(2) [OF len(2)] len by (simp_all add: two_eth_def del: pkt_data_Cons)
  let ?a = "\<lparr>arp_hrd = 0x100, arp_pro = 8, arp_hln = 6, arp_pln = 4, arp_op = 0x100,
      arp_data = \<lparr>arp_sha = two_mac 9, arp_sip = 0x0900000A, arp_tha = \<lparr>addr_bytes = replicate 6 0\<rparr>, arp_tip = 0x010A000A\<rparr>\<rparr>"
  have a: "frame_arp two_arp = ?a" by code_simp
  have sw: "rte_be_to_cpu_16 0x100 = 1" "rte_be_to_cpu_16 8 = 0x800" "rte_be_to_cpu_32 0x010A000A = 0x0A000A01"
    "rte_cpu_to_be_32 0x0A000A01 = 0x010A000A" by code_simp+
  have valid: "rte_be_to_cpu_16 (arp_hrd ?a) = ARP_HRD_ETHER \<and> arp_hln ?a = 6 \<and> rte_be_to_cpu_16 (arp_pro ?a) = ETHER_TYPE_IPv4
      \<and> arp_pln ?a = 4 \<and> rte_be_to_cpu_16 (arp_op ?a) = ARP_OP_REQUEST \<and> rte_be_to_cpu_32 (arp_tip (arp_data ?a)) \<in> if_addr ` set two_ifs"
    by (simp add: sw c_defs) (simp add: two_ifs_def)
  have me: "port_ok (dom two_txq) two_thr (hd two_ifs)" using two_thread_ok by (simp add: thread_ok_def two_ifs_def)
  have room: "two_txq (int_id (hd two_ifs), q_id two_thr) = Some 101" "length ((\<lambda>_. [] :: uint8 list list) (101 :: nat)) < 7"
    by (simp_all add: two_txq_def two_thr_def two_ifs_def)
  have ifs: "if_addr (two_ifs ! 1) = 0x0A000A01" "hd two_ifs = two_ifs ! 0" "if_mac (two_ifs ! 0) \<noteq> if_mac (two_ifs ! 1)"
    by (simp_all add: two_ifs_def two_mac_def)
  obtain e' D' where r: "thread_handle_ether_arp (two_ctx rt) two_thr (hd two_ifs) (hd [1000]) (two_eth two_arp []) = Inr e'"
    "two_io e' [] ((\<lambda>_. [])(101 := (\<lambda>_. []) 101 @ [D']))"
    "frame_arp D' = ?a\<lparr>arp_op := rte_cpu_to_be_16 ARP_OP_REPLY,
        arp_data := \<lparr>arp_sha = if_mac (hd two_ifs), arp_sip = arp_tip (arp_data ?a), arp_tha = arp_sha (arp_data ?a), arp_tip = arp_sip (arp_data ?a)\<rparr>\<rparr>"
    using arp_request_answered [OF two_io_start(2) [OF len(2)] rt(2) me data a room, unfolded if_P [OF valid]] by blast
  have "arp_sip (arp_data (frame_arp D')) = 0x010A000A" "arp_sha (arp_data (frame_arp D')) = if_mac (two_ifs ! 0)"
    unfolding r(3) by (simp_all add: ifs(2))
  then show ?thesis using r(1,2) rt(1) ifs sw(4) by auto
qed

text \<open>
  C7. A router thread never crashes and returns when it is told to. In every run among signals,
  rounds of other threads and whatever else keeps the held packets, no round stops with an error;
  and once SIGINT or SIGTERM has been handled the thread returns 1 after finitely many steps, with
  every packet it received sent or given back.
\<close>

theorem router_thread_returns:
  assumes "ring_io txq rxq cap K e0 css Q0" and "router_ok (dom txq) e0 c thr ifs n" and "thread_ok (dom txq) (dom rxq) thr mes"
    and "\<And>e e' Q. hardware e e' \<Longrightarrow> ring_io txq rxq cap K e css Q \<Longrightarrow> devices e = devices e0 \<Longrightarrow>
           devices e' = devices e \<and> (\<exists>Q'. ring_io txq rxq cap K e' css Q')"
    and "thread_run hardware c thr run" and "run 0 = (False, Running e0)"
  shows "(\<forall>i err. snd (run i) \<noteq> Crashed err)
    \<and> (\<forall>i. fst (run i) \<longrightarrow> (\<exists>j\<ge>i. \<exists>e Q. run j = (True, Returned 1 e) \<and> ring_io txq rxq cap K e css Q))"
proof -
  have hw: "devices e' = devices e0 \<and> (\<exists>Q. ring_io txq rxq cap K e' css Q)"
    if "hardware e e'" "devices e = devices e0 \<and> (\<exists>Q. ring_io txq rxq cap K e css Q)" for e e'
    using assms(4) that by metis
  show ?thesis
    using ring_ports.thread_returns [OF assms(2,3,1) _ assms(5,6)] hw by blast
qed

definition two_run :: "'w eth \<Rightarrow> nat \<Rightarrow> bool \<times> 'w thread_state" where
  "two_run e i = (if i = 0 then (False, Running e) else if i = 1 then (True, Running e) else (True, Returned 1 e))"

lemma two_run_ok: "thread_run hardware c thr (two_run e)"
proof -
  have sig: "signal_handler SIGINT fq = True" "signal_handler 0 True = True" for fq by (simp_all add: signal_handler_def)
  have "router_thread hardware c thr (two_run e i) (two_run e (Suc i))" for i
  proof -
    consider "i = 0" | "i = 1" | "2 \<le> i" by linarith
    then show ?thesis
    proof cases
      case 1
      then show ?thesis using router_thread.signal [of hardware c thr False "Running e" SIGINT] by (simp add: two_run_def sig)
    next
      case 2
      then show ?thesis using router_thread.quit [of hardware c thr e] by (simp add: two_run_def)
    next
      case 3
      then show ?thesis using router_thread.signal [of hardware c thr True "Returned 1 e" 0] by (simp add: two_run_def sig)
    qed
  qed
  moreover have "\<exists>j\<ge>i. own_step c thr (two_run e j) (two_run e (Suc j))" if "snd (two_run e i) = Running e1" for i e1
    using that by (intro exI [of _ 1]) (auto simp: two_run_def own_step_def split: if_splits)
  ultimately show ?thesis by (simp add: thread_run_def)
qed

theorem router_thread_returns_witness:
  "\<exists>rt j e Q. build_routing_table ISO_C test_state = Inr rt \<and> two_run (two_eth two_frame [1000]) j = (True, Returned 1 e) \<and> two_io e [] Q
     \<and> thread_run (\<lambda>e e'. \<exists>b. router_round (two_ctx rt) two_thr e = Inr (b, e')) (two_ctx rt) two_thr (two_run (two_eth two_frame [1000]))"
proof -
  obtain rt where rt: "build_routing_table ISO_C test_state = Inr rt" "\<And>D waiting. router_ok (dom two_txq) (two_eth D waiting) (two_ctx rt) two_thr two_ifs 2"
    using two_table by blast
  let ?e = "two_eth two_frame [1000]" and ?hw = "\<lambda>e e'. \<exists>b. router_round (two_ctx rt) two_thr e = Inr (b, e')"
  have hw: "devices e' = devices e \<and> (\<exists>Q'. two_io e' [] Q')" if "?hw e e'" "two_io e [] Q" "devices e = devices ?e" for e e' Q
    using ring_ports.router_round_ok [OF router_ok_devices [OF that(3) rt(2)] two_thread_ok that(2)] that(1) by auto
  have r: "two_run ?e 0 = (False, Running ?e)" "fst (two_run ?e 1)" by (simp_all add: two_run_def)
  have "\<forall>i. fst (two_run ?e i) \<longrightarrow> (\<exists>j\<ge>i. \<exists>e Q. two_run ?e j = (True, Returned 1 e) \<and> two_io e [] Q)"
    by (rule conjunct2 [OF router_thread_returns [where hardware = ?hw,
          OF two_io_start(1) [OF two_frame_length(2)] rt(2) two_thread_ok _ two_run_ok r(1)]]) (rule hw)
  then obtain j e Q where "two_run ?e j = (True, Returned 1 e)" "two_io e [] Q" using r(2) by blast
  moreover have "thread_run ?hw (two_ctx rt) two_thr (two_run ?e)" by (rule two_run_ok)
  ultimately show ?thesis using rt(1) by (intro exI [of _ rt] exI [of _ j] exI [of _ e] exI [of _ Q]) simp
qed

end
