(* ===== verification/RouterMain.thy ===== *)
theory RouterMain
  imports RoutingTable_Props Utils Router
begin

text \<open>
  Configuring and starting the router: the option parsers, \<open>parse_args\<close>, \<open>start_router\<close> and
  \<open>router_finalize\<close> of \<^verbatim>\<open>router.c\<close>, \<open>print_routes\<close> of \<^verbatim>\<open>routing_table.c\<close> and \<open>main\<close> of \<^verbatim>\<open>main.c\<close>.

  The static variables of the program are the record \<open>router\<close>. An option is what a call of \<open>getopt\<close>
  returns, the option character and the argument \<open>optarg\<close>, which the parsers change in place. The
  structure that a pointer of \<open>thr_confs\<close> points to is kept in the cell of the pointer: each is allocated
  for one cell and reached through it only, and a store through the pointer is a write to the cell.
  What the allocator, the EAL and uninitialised memory contribute is the record \<open>main_env\<close>. Launching
  \<open>router_thread\<close> on the lcores and waiting for them is the parameter \<open>run\<close>, which gets the lcores with the
  arguments the threads are launched with, and the argument of the thread on the master lcore.
\<close>

section \<open>Definitions\<close>

definition MAX_DEC_DIGIT_LEN :: int where [c_defs]: "MAX_DEC_DIGIT_LEN = 10"
definition DPDK_MIN_WORKER_ID :: uint32 where [c_defs]: "DPDK_MIN_WORKER_ID = 0"
definition DPDK_MIN_SLAVE_ID :: uint32 where [c_defs]: "DPDK_MIN_SLAVE_ID = 1"
definition SIZEOF_INTERFACE_CONFIG :: nat where [c_defs]: "SIZEOF_INTERFACE_CONFIG = 16"
definition SIZEOF_THREAD_CONFIG :: nat where [c_defs]: "SIZEOF_THREAD_CONFIG = 24"

record main_env =
  env_grants :: "nat \<Rightarrow> bool"
  env_heap_mac :: ether_addr
  env_shift :: shift_model
  env_init :: init_env
  env_lcore_count :: uint32

record 'w router =
  g_rt :: rt_state
  g_int_confs :: "interface_config pointer_list"
  g_thr_confs :: "thread_config pointer_list"
  g_force_quit :: bool
  g_sys :: "'w sys"

subsection \<open>Printing\<close>

text \<open>
  The texts have fewer than \<open>MAX_STR_LEN\<close> characters and no percent sign, so that \<open>snprintf\<close> keeps and
  \<open>printf\<close> prints all of them; \<open>ether_text\<close> is what \<open>ether_format_addr\<close> writes.
\<close>

definition interface_config_print :: "interface_config gptr \<Rightarrow> string" where
  "interface_config_print ptr =
     (case ptr of
        None \<Rightarrow> []
      | Some int_conf \<Rightarrow>
          ''-p argument: interface id '' @ fmt_u (unat (int_id int_conf)) @ '', ipv4 addr 0x''
          @ fmt_x 8 (unat (if_addr int_conf)) @ '', MAC '' @ ether_text (if_mac int_conf) @ [CHR 0x0A])"

definition route_text :: "next_hop_info \<Rightarrow> string" where
  "route_text nh =
     ''-r argument: ipv4 addr 0x'' @ fmt_x 8 (unat (ip_addr nh)) @ '', cidr '' @ fmt_u (unat (prefix nh))
     @ '', MAC '' @ ether_text (dst_mac (next_hop nh)) @ '', interface id ''
     @ fmt_u (unat (dst_port (next_hop nh))) @ [CHR 0x0A]"

function print_routes_from :: "rt_state \<Rightarrow> nat \<Rightarrow> string cres" where
  "print_routes_from st nh_id =
     cbind (aread (nh_id_to_info st) nh_id) (\<lambda>nh.
     if \<not> in_use nh then Inr []
     else cbind (print_routes_from st (nh_id + 1)) (\<lambda>out. Inr (route_text nh @ out)))"
  by pat_completeness auto
termination
  by (relation "measure (\<lambda>(st, nh_id). alen (nh_id_to_info st) - nh_id)") (auto simp: aread_def split: if_splits)

declare print_routes_from.simps [simp del]

definition print_routes :: "rt_state \<Rightarrow> string cres" where
  "print_routes st = print_routes_from st 0"

subsection \<open>Options\<close>

text \<open>The values that the local variables \<open>addr\<close> and \<open>mac\<close> have before they are parsed are never used.\<close>

definition parse_option_p ::
  "main_env \<Rightarrow> 'w eth \<Rightarrow> char list \<Rightarrow> (char list \<times> interface_config gptr) cres" where
  "parse_option_p env e arg =
     cbind (index_of_first_char arg CHR '','' MAX_DEC_DIGIT_LEN) (\<lambda>i.
     if i = -1 then Inr (arg, None) else
     cbind (put_char arg (nat i) NUL) (\<lambda>arg.
     cbind (are_all_char_decimal arg) (\<lambda>dec.
     if \<not> dec then Inr (arg, None) else
     cbind (atoi arg) (\<lambda>id.
     cbind (put_char arg (nat i) CHR '','') (\<lambda>arg.
     if \<not> (DPDK_MIN_INTERFACE_VAL \<le> id \<and> id \<le> DPDK_MAX_INTERFACE_VAL) then Inr (arg, None) else
     cbind (ipv4_addr_from_str (drop (nat i + 1) arg) 0) (\<lambda>(rest, status, addr).
     let arg = take (nat i + 1) arg @ rest
     in if status = -1 then Inr (arg, None)
        else if \<not> env_grants env SIZEOF_INTERFACE_CONFIG then Inl Null_deref
        else cbind (rte_eth_macaddr_get (of_int id) (env_heap_mac env) e) (\<lambda>mac.
             Inr (arg, Some \<lparr>int_id = of_int id, if_addr = addr, if_mac = mac\<rparr>))))))))"

text \<open>The steps of \<open>parse_option_r\<close> after the address, after the prefix length and after the MAC address.\<close>

definition parse_r_interface ::
  "uint32 \<Rightarrow> int \<Rightarrow> ether_addr \<Rightarrow> nat \<Rightarrow> char list \<Rightarrow> rt_state \<Rightarrow> (char list \<times> bool \<times> rt_state) cres" where
  "parse_r_interface addr cidr mac begin_idx arg st =
     cbind (strlen (drop begin_idx arg)) (\<lambda>n.
     if MAX_DEC_DIGIT_LEN \<le> int n then Inr (arg, False, st) else
     cbind (are_all_char_decimal (drop begin_idx arg)) (\<lambda>dec.
     if \<not> dec then Inr (arg, False, st) else
     cbind (atoi (drop begin_idx arg)) (\<lambda>id.
     if \<not> (DPDK_MIN_INTERFACE_VAL \<le> id \<and> id \<le> DPDK_MAX_INTERFACE_VAL) then Inr (arg, False, st)
     else cbind (add_route addr (of_int cidr) mac (of_int id) st) (\<lambda>st. Inr (arg, True, st)))))"

definition parse_r_mac ::
  "uint32 \<Rightarrow> int \<Rightarrow> nat \<Rightarrow> char list \<Rightarrow> rt_state \<Rightarrow> (char list \<times> bool \<times> rt_state) cres" where
  "parse_r_mac addr cidr begin_idx arg st =
     cbind (index_of_first_char (drop begin_idx arg) CHR '','' MAC_ADDR_LEN) (\<lambda>offset.
     if offset = -1 then Inr (arg, False, st) else
     let end_idx = begin_idx + nat offset in
     cbind (put_char arg end_idx NUL) (\<lambda>arg.
     cbind (mac_addr_from_str (drop begin_idx arg) zero_ether_addr) (\<lambda>(rest, status, mac).
     cbind (put_char (take begin_idx arg @ rest) end_idx CHR '','') (\<lambda>arg.
     if status = -1 then Inr (arg, False, st)
     else parse_r_interface addr cidr mac (end_idx + 1) arg st))))"

definition parse_r_cidr ::
  "uint32 \<Rightarrow> nat \<Rightarrow> char list \<Rightarrow> rt_state \<Rightarrow> (char list \<times> bool \<times> rt_state) cres" where
  "parse_r_cidr addr begin_idx arg st =
     cbind (index_of_first_char (drop begin_idx arg) CHR '','' MAX_DEC_DIGIT_LEN) (\<lambda>offset.
     if offset = -1 then Inr (arg, False, st) else
     let end_idx = begin_idx + nat offset in
     cbind (put_char arg end_idx NUL) (\<lambda>arg.
     cbind (atoi (drop begin_idx arg)) (\<lambda>cidr.
     cbind (put_char arg end_idx CHR '','') (\<lambda>arg.
     if \<not> (IPV4_MIN_CIDR_VAL \<le> cidr \<and> cidr \<le> IPV4_MAX_CIDR_VAL) then Inr (arg, False, st)
     else parse_r_mac addr cidr (end_idx + 1) arg st))))"

definition parse_option_r :: "char list \<Rightarrow> rt_state \<Rightarrow> (char list \<times> bool \<times> rt_state) cres" where
  "parse_option_r arg st =
     cbind (index_of_first_char arg CHR ''/'' IPV4_MAX_ADDR_LEN) (\<lambda>offset.
     if offset = -1 then Inr (arg, False, st) else
     let end_idx = nat offset in
     cbind (put_char arg end_idx NUL) (\<lambda>arg.
     cbind (ipv4_addr_from_str arg 0) (\<lambda>(arg, status, addr).
     cbind (put_char arg end_idx CHR ''/'') (\<lambda>arg.
     if status = -1 then Inr (arg, False, st)
     else parse_r_cidr addr (end_idx + 1) arg st))))"

subsection \<open>Initialising and finalising\<close>

definition router_init :: "main_env \<Rightarrow> 'w router \<Rightarrow> 'w router" where
  "router_init env r = r\<lparr>g_int_confs := pointer_list_init (env_grants env),
     g_thr_confs := pointer_list_init (env_grants env), g_force_quit := False\<rparr>"

text \<open>The structure a pointer of \<open>thr_confs\<close> points to, and a store to it.\<close>

definition thr_conf_at :: "thread_config pointer_list \<Rightarrow> nat \<Rightarrow> thread_config cres" where
  "thr_conf_at l i =
     cbind (pointer_list_get l (of_nat i)) (\<lambda>p. case p of None \<Rightarrow> Inl Null_deref | Some thr_conf \<Rightarrow> Inr thr_conf)"

definition thr_conf_put :: "nat \<Rightarrow> thread_config \<Rightarrow> thread_config pointer_list \<Rightarrow> thread_config pointer_list cres" where
  "thr_conf_put i thr_conf l = pl_write l i (Some thr_conf)"

definition router_finalize :: "'w router \<Rightarrow> 'w router cres" where
  "router_finalize r =
     cbind (pointer_list_deep_clear (g_int_confs r)) (\<lambda>(freed, ints).
     cbind (c_for 0 (unat (pointer_list_len (g_thr_confs r)))
              (\<lambda>i l. cbind (thr_conf_at l i) (\<lambda>thr_conf.
                 thr_conf_put i (thr_conf\<lparr>thr_int_confs := pointer_list_clear (thr_int_confs thr_conf)\<rparr>) l))
              (g_thr_confs r)) (\<lambda>thrs.
     cbind (pointer_list_deep_clear thrs) (\<lambda>(freed, thrs).
     Inr (r\<lparr>g_int_confs := ints, g_thr_confs := thrs\<rparr>))))"

subsection \<open>Arguments\<close>

fun parse_args :: "main_env \<Rightarrow> (char \<times> char list) list \<Rightarrow> 'w router \<Rightarrow> (int \<times> 'w router) cres" where
  "parse_args env [] r =
     cbind (build_routing_table (env_shift env) (g_rt r)) (\<lambda>rt. Inr (1, r\<lparr>g_rt := rt\<rparr>))"
| "parse_args env ((opt, optarg) # opts) r =
     (if opt = CHR ''p'' then
        cbind (parse_option_p env (sys_eth (g_sys r)) optarg) (\<lambda>(optarg, p).
        case p of
          None \<Rightarrow> parse_args env opts r
        | Some int_conf \<Rightarrow>
            if rte_eth_dev_count (sys_eth (g_sys r)) \<le> int_id int_conf then parse_args env opts r
            else cbind (pointer_list_append (env_grants env) (g_int_confs r) (Some int_conf)) (\<lambda>ints.
                 parse_args env opts (r\<lparr>g_int_confs := ints\<rparr>)))
      else if opt = CHR ''r'' then
        cbind (parse_option_r optarg (g_rt r)) (\<lambda>(optarg, ok, rt). parse_args env opts (r\<lparr>g_rt := rt\<rparr>))
      else cbind (router_finalize r) (\<lambda>r. Inr (-1, r)))"

subsection \<open>Starting\<close>

definition thread_config_init :: "(nat \<Rightarrow> bool) \<Rightarrow> uint16 \<Rightarrow> uint16 \<Rightarrow> thread_config" where
  "thread_config_init alloc workers q = \<lparr>thr_int_confs = pointer_list_init alloc, worker_count = workers, q_id = q\<rparr>"

definition add_thread :: "main_env \<Rightarrow> uint32 \<Rightarrow> nat \<Rightarrow> 'w router \<Rightarrow> 'w router cres" where
  "add_thread env thr_count i r =
     (if \<not> env_grants env SIZEOF_THREAD_CONFIG then Inl Null_deref
      else let thr_conf = thread_config_init (env_grants env) (ucast thr_count) (ucast (pointer_list_len (g_thr_confs r)))
           in cbind (pointer_list_append (env_grants env) (g_thr_confs r) (Some thr_conf)) (\<lambda>thrs.
              Inr (r\<lparr>g_thr_confs := thrs\<rparr>)))"

definition assign_interface :: "main_env \<Rightarrow> uint32 \<Rightarrow> nat \<Rightarrow> 'w router \<Rightarrow> 'w router cres" where
  "assign_interface env thr_count i r =
     cbind (int_conf_at (g_int_confs r) i) (\<lambda>int_conf.
     cbind (configure_device (env_init env) (int_id int_conf) (ucast thr_count) (g_sys r)) (\<lambda>s.
     let thr_idx = i mod unat thr_count
     in cbind (thr_conf_at (g_thr_confs r) thr_idx) (\<lambda>thr_conf.
        cbind (pointer_list_append (env_grants env) (thr_int_confs thr_conf) (Some int_conf)) (\<lambda>l.
        cbind (thr_conf_put thr_idx (thr_conf\<lparr>thr_int_confs := l\<rparr>) (g_thr_confs r)) (\<lambda>thrs.
        Inr (r\<lparr>g_sys := s, g_thr_confs := thrs\<rparr>))))))"

text \<open>The lcores that threads are launched on, with the arguments of the threads.\<close>

definition start_thread ::
  "'w router \<Rightarrow> nat \<Rightarrow> (nat \<times> thread_config gptr) list \<Rightarrow> (nat \<times> thread_config gptr) list cres" where
  "start_thread r thr_idx launched =
     cbind (pointer_list_get (g_thr_confs r) (of_nat thr_idx)) (\<lambda>thr_conf.
     Inr (launched @ [(thr_idx + unat DPDK_MIN_WORKER_ID, thr_conf)]))"

definition start_router ::
  "main_env \<Rightarrow> ((nat \<times> thread_config gptr) list \<Rightarrow> thread_config gptr \<Rightarrow> 'w router \<Rightarrow> 'w router cres)
   \<Rightarrow> uint32 \<Rightarrow> 'w router \<Rightarrow> 'w router cres" where
  "start_router env run lcore_count r =
     (let lcore_count = (if lcore_count = 0 then env_lcore_count env else lcore_count)
      in if lcore_count \<le> DPDK_MIN_WORKER_ID then router_finalize r
         else cbind (pointer_list_print (g_int_confs r) interface_config_print) (\<lambda>_.
              cbind (print_routes (g_rt r)) (\<lambda>_.
              let thr_count = lcore_count - DPDK_MIN_WORKER_ID
              in cbind (c_for (unat DPDK_MIN_WORKER_ID) (unat lcore_count) (add_thread env thr_count) r) (\<lambda>r.
                 cbind (c_for 0 (unat (pointer_list_len (g_int_confs r))) (assign_interface env thr_count) r) (\<lambda>r.
                 cbind (c_for (unat (DPDK_MIN_SLAVE_ID - DPDK_MIN_WORKER_ID)) (unat thr_count) (start_thread r) []) (\<lambda>launched.
                 cbind (pointer_list_get (g_thr_confs r) 0) (\<lambda>master.
                 cbind (run launched master r) router_finalize))))))) "

text \<open>\<open>main\<close> from the state \<open>init_dpdk\<close> leaves on; the result of \<open>parse_args\<close> is not looked at.\<close>

definition main ::
  "main_env \<Rightarrow> ((nat \<times> thread_config gptr) list \<Rightarrow> thread_config gptr \<Rightarrow> 'w router \<Rightarrow> 'w router cres)
   \<Rightarrow> (char \<times> char list) list \<Rightarrow> 'w router \<Rightarrow> (int \<times> 'w router) cres" where
  "main env run opts r =
     cbind (parse_args env opts (router_init env r)) (\<lambda>(ret, r).
     cbind (start_router env run 0 r) (\<lambda>r. Inr (0, r)))"

end
