(* ===== verification/RouterMain_Props.thy ===== *)
theory RouterMain_Props
  imports RouterMain Router_Props
begin

text \<open>
  What configuring and starting the router does: the option parsers on the texts of interfaces and routes,
  the lists and the table \<open>parse_args\<close> leaves, the threads \<open>start_router\<close> launches, and what an unknown option
  leads to. The allocator of the pointer lists is one that grants every request here.
\<close>

section \<open>Texts of options\<close>

text \<open>The text of an interface and of a route, as the usage of the program describes them.\<close>

datatype cfg_option = Interface interface_config | Route new_route

definition interface_text :: "interface_config \<Rightarrow> string" where
  "interface_text c = fmt_u (unat (int_id c)) @ CHR '','' # dotted (if_addr c)"

fun new_route_text :: "new_route \<Rightarrow> string" where
  "new_route_text (ip, pfx, mac, port) =
     dotted ip @ CHR ''/'' # fmt_u (unat pfx) @ CHR '','' # ether_text mac @ CHR '','' # fmt_u (unat port)"

fun option_arg :: "cfg_option \<Rightarrow> char \<times> char list" where
  "option_arg (Interface c) = (CHR ''p'', interface_text c @ [NUL])"
| "option_arg (Route r) = (CHR ''r'', new_route_text r @ [NUL])"

text \<open>The interface is one of the devices, with its address; a prefix length is at most 32.\<close>

fun option_ok :: "main_env \<Rightarrow> 'w eth \<Rightarrow> cfg_option \<Rightarrow> bool" where
  "option_ok env e (Interface c) \<longleftrightarrow>
     int_id c < rte_eth_dev_count e \<and> rte_eth_macaddr_get (int_id c) (env_heap_mac env) e = Inr (if_mac c)"
| "option_ok env e (Route (ip, pfx, mac, port)) \<longleftrightarrow> pfx \<le> 32 \<and> ether_addr_wf mac"

fun cfg_interfaces :: "cfg_option list \<Rightarrow> interface_config list" where
  "cfg_interfaces [] = []"
| "cfg_interfaces (Interface c # os) = c # cfg_interfaces os"
| "cfg_interfaces (Route r # os) = cfg_interfaces os"

fun cfg_routes :: "cfg_option list \<Rightarrow> new_route list" where
  "cfg_routes [] = []"
| "cfg_routes (Interface c # os) = cfg_routes os"
| "cfg_routes (Route r # os) = r # cfg_routes os"

lemma fmt_byte:
  "length (fmt_u (unat (b :: uint8))) \<le> 3" "NUL \<notin> set (fmt_u n)" "CHR '','' \<notin> set (fmt_u n)" "CHR ''/'' \<notin> set (fmt_u n)"
  using fmt_u_length [of 3 "unat b"] unat_lt2p [of b] digits_no_sep [OF fmt_u_digits, of n] by simp_all

lemma atoi_byte: "atoi (fmt_u (unat (b :: uint8)) @ NUL # rest) = Inr (int (unat b))"
  using fmt_byte(1) [of b] by (simp add: atoi_digits fmt_u_digits)

lemma uint_byte: "uint (b :: uint8) \<le> 255"
proof -
  have "unat b < 256" using unat_lt2p [of b] by simp
  then have "int (unat b) \<le> 255" by linarith
  then show ?thesis by simp
qed

lemma dotted_chars: "CHR '','' \<notin> set (dotted a)" "CHR ''/'' \<notin> set (dotted a)" "length (dotted a) \<le> 15"
proof -
  show "CHR '','' \<notin> set (dotted a)" "CHR ''/'' \<notin> set (dotted a)" by (simp_all add: dotted_def fmt_byte)
  have "length (fmt_u (ipv4_octet a i)) \<le> 3" for i using fmt_u_length [of 3 "ipv4_octet a i"] ipv4_octet_lt [of a i] by simp
  from this [of 0] this [of 1] this [of 2] this [of 3] show "length (dotted a) \<le> 15" by (simp add: dotted_def)
qed

lemma ether_text_comma: "ether_addr_wf ea \<Longrightarrow> CHR '','' \<notin> set (ether_text ea)"
proof -
  have "CHR '','' \<notin> set (fmt_02X (unat b))" for b :: uint8
    using digits_no_sep(4) [OF fmt_02X_digits [of "unat b"]] unat_lt2p [of b] by simp
  then show "ether_addr_wf ea \<Longrightarrow> ?thesis" by (auto simp: ether_addr_wf_def c_defs ether_text_def elim!: list6_cases)
qed

lemma parse_dotted: "ipv4_addr_from_str (dotted a @ NUL # rest) addr = Inr (dotted a @ NUL # rest, 0, a)"
  using ipv4_addr_from_str_eq [OF dotted_no_nul, of a rest addr] by simp

lemma parse_ether_text:
  assumes "ether_addr_wf ea"
  shows "mac_addr_from_str (ether_text ea @ NUL # rest) zero_ether_addr = Inr (ether_text ea @ NUL # rest, 0, ea)"
proof -
  have "ether_addr_wf zero_ether_addr" by (simp add: ether_addr_wf_def c_defs)
  note p = mac_parse_text [OF assms this]
  show ?thesis using mac_addr_from_str_eq [OF p(2), of rest zero_ether_addr] by (auto simp: p(1))
qed

lemma put_char_mid: "put_char (pre @ g @ c # t) (length pre + length g) d = Inr (pre @ g @ d # t)"
  using put_char_at [of "pre @ g" c t d] by simp

section \<open>The option parsers on these texts\<close>

lemma parse_option_p_text:
  assumes "env_grants env SIZEOF_INTERFACE_CONFIG" and "rte_eth_macaddr_get (int_id c) (env_heap_mac env) e = Inr (if_mac c)"
  shows "parse_option_p env e (interface_text c @ NUL # rest) = Inr (interface_text c @ NUL # rest, Some c)"
proof -
  let ?g = "fmt_u (unat (int_id c))"
  have i: "index_of_first_char (?g @ CHR '','' # t) CHR '','' MAX_DEC_DIGIT_LEN = Inr (int (length ?g))" for t
    by (rule index_found) (use fmt_byte(1) [of "int_id c"] in \<open>simp_all add: fmt_byte(2-4) MAX_DEC_DIGIT_LEN_def\<close>)
  show ?thesis
    using assms i uint_byte [of "int_id c"]
    by (simp add: parse_option_p_def interface_text_def Let_def fmt_byte(2-4) fmt_u_digits atoi_byte parse_dotted
        DPDK_MIN_INTERFACE_VAL_def DPDK_MAX_INTERFACE_VAL_def)
qed

lemma parse_r_interface_text:
  assumes "arg = pre @ fmt_u (unat (port :: uint8)) @ NUL # rest"
  shows "parse_r_interface addr cidr mac (length pre) arg st =
     cbind (add_route addr (of_int cidr) mac port st) (\<lambda>st. Inr (arg, True, st))"
  using fmt_byte(1) [of port] uint_byte [of port] unfolding assms
  by (simp add: parse_r_interface_def fmt_byte(2-4) fmt_u_digits atoi_byte MAX_DEC_DIGIT_LEN_def
      DPDK_MIN_INTERFACE_VAL_def DPDK_MAX_INTERFACE_VAL_def)

lemma parse_r_mac_text:
  assumes "arg = pre @ ether_text mac @ CHR '','' # t" and "ether_addr_wf mac"
  shows "parse_r_mac addr cidr (length pre) arg st = parse_r_interface addr cidr mac (length pre + 18) arg st"
proof -
  have "index_of_first_char (ether_text mac @ CHR '','' # t) CHR '','' MAC_ADDR_LEN = Inr (int (length (ether_text mac)))"
    by (rule index_found)
      (use ether_text_length [OF assms(2)] mac_parse_text(2) [OF assms(2), of mac] assms(2) in \<open>simp_all add: ether_text_comma MAC_ADDR_LEN_def\<close>)
  then show ?thesis
    unfolding assms(1) by (simp add: parse_r_mac_def Let_def put_char_mid parse_ether_text [OF assms(2)])
      (simp add: ether_text_length [OF assms(2)] add.commute)
qed

lemma parse_r_cidr_text:
  assumes "arg = pre @ fmt_u (unat (pfx :: uint8)) @ CHR '','' # t" and "pfx \<le> 32"
  shows "parse_r_cidr addr (length pre) arg st =
     parse_r_mac addr (int (unat pfx)) (length pre + length (fmt_u (unat pfx)) + 1) arg st"
proof -
  have "index_of_first_char (fmt_u (unat pfx) @ CHR '','' # t) CHR '','' MAX_DEC_DIGIT_LEN = Inr (int (length (fmt_u (unat pfx))))"
    by (rule index_found) (use fmt_byte(1) [of pfx] in \<open>simp_all add: fmt_byte(2-4) MAX_DEC_DIGIT_LEN_def\<close>)
  moreover have "uint pfx \<le> 32" using assms(2) by (simp add: word_le_def)
  ultimately show ?thesis
    unfolding assms(1) by (simp add: parse_r_cidr_def Let_def put_char_mid atoi_byte IPV4_MIN_CIDR_VAL_def IPV4_MAX_CIDR_VAL_def)
qed

lemma parse_option_r_text:
  assumes "pfx \<le> 32" and "ether_addr_wf mac" and "arg = new_route_text (ip, pfx, mac, port) @ NUL # rest"
  shows "parse_option_r arg st = cbind (add_route ip pfx mac port st) (\<lambda>st. Inr (arg, True, st))"
proof -
  let ?d = "dotted ip @ [CHR ''/'']"
  let ?p = "?d @ fmt_u (unat pfx) @ [CHR '','']"
  let ?m = "?p @ ether_text mac @ [CHR '','']"
  let ?t = "fmt_u (unat port) @ NUL # rest"
  have i: "index_of_first_char (dotted ip @ CHR ''/'' # t) CHR ''/'' IPV4_MAX_ADDR_LEN = Inr (int (length (dotted ip)))" for t
    by (rule index_found) (use dotted_chars(3) [of ip] in \<open>simp_all add: dotted_chars(1,2) dotted_no_nul IPV4_MAX_ADDR_LEN_def\<close>)
  have "parse_option_r arg st = parse_r_cidr ip (length ?d) arg st"
    using i unfolding assms(3) by (simp add: parse_option_r_def Let_def parse_dotted)
  also have "\<dots> = parse_r_mac ip (int (unat pfx)) (length ?p) arg st"
    using parse_r_cidr_text [of arg ?d pfx "ether_text mac @ CHR '','' # ?t" ip st] assms(1,3) by simp
  also have "\<dots> = parse_r_interface ip (int (unat pfx)) mac (length ?m) arg st"
    using parse_r_mac_text [of arg ?p mac ?t ip "int (unat pfx)" st] assms(2,3) ether_text_length [OF assms(2)] by (simp add: ac_simps)
  also have "\<dots> = cbind (add_route ip pfx mac port st) (\<lambda>st. Inr (arg, True, st))"
    using parse_r_interface_text [of arg ?m port rest ip "int (unat pfx)" mac st] assms(3) by simp
  finally show ?thesis .
qed

section \<open>Lists with an allocator that grants everything\<close>

lemma append_granted:
  assumes "pl_rep self xs" and "\<And>n. g n" and "length xs < 2 ^ 31"
  shows "\<exists>self'. pointer_list_append g self p = Inr self' \<and> pl_rep self' (xs @ [p])"
proof -
  have "length xs < unat (pl_cap self) \<or> can_grow g (pl_cap self)"
    using assms by (auto simp: pl_rep_def can_grow_def)
  then show ?thesis using append_refines [OF assms(1), of g p] by simp
qed

lemma unat_of_nat32: "i < 2 ^ 32 \<Longrightarrow> unat (of_nat i :: uint32) = i"
  using unat_of_nat_eq [where 'a = 32, of i] by simp

lemma pl_rep_length: "pl_rep l xs \<Longrightarrow> length xs < 2 ^ 32"
  using unat_lt2p [of "pl_len l"] by (simp add: pl_rep_def)

lemma get_at: "pl_rep l xs \<Longrightarrow> i < length xs \<Longrightarrow> pointer_list_get l (of_nat i) = Inr (xs ! i)"
  using pl_rep_length [of l xs] by (simp add: get_refines unat_of_nat32)

text \<open>A list of \<open>n\<close> threads.\<close>

definition thr_list :: "thread_config pointer_list \<Rightarrow> nat \<Rightarrow> (nat \<Rightarrow> thread_config) \<Rightarrow> bool" where
  "thr_list l n T \<longleftrightarrow> pl_rep l (map (Some \<circ> T) [0..<n])"

lemma thr_list_get: "thr_list l n T \<Longrightarrow> i < n \<Longrightarrow> pointer_list_get l (of_nat i) = Inr (Some (T i))"
  by (simp add: thr_list_def get_at)

lemma thr_list_len: "thr_list l n T \<Longrightarrow> unat (pointer_list_len l) = n"
  by (simp add: thr_list_def pl_rep_def pointer_list_len_def)

lemma thr_list_append:
  assumes "thr_list l n T" and "\<And>n. g n" and "n < 2 ^ 31"
  shows "\<exists>l'. pointer_list_append g l (Some (T n)) = Inr l' \<and> thr_list l' (Suc n) T"
  using append_granted [where g = g and p = "Some (T n)", OF assms(1) [unfolded thr_list_def]] assms(2,3) by (simp add: thr_list_def)

lemma thr_conf_at_rep: "thr_list l n T \<Longrightarrow> i < n \<Longrightarrow> thr_conf_at l i = Inr (T i)"
  by (simp add: thr_conf_at_def thr_list_get)

lemma thr_conf_put_rep:
  assumes "thr_list l n T" and "i < n"
  shows "\<exists>l'. thr_conf_put i t l = Inr l' \<and> thr_list l' n (T(i := t))"
proof -
  have "(map (Some \<circ> T) [0..<n])[i := Some t] = map (Some \<circ> T(i := t)) [0..<n]"
    using assms(2) by (auto intro!: nth_equalityI simp: nth_list_update)
  then show ?thesis
    using pl_rep_write [OF assms(1) [unfolded thr_list_def], of i "Some t"] assms(2) by (auto simp: thr_conf_put_def thr_list_def)
qed

section \<open>Arguments\<close>

lemma parse_args_texts:
  assumes "list_all (option_ok env (sys_eth (g_sys r))) opts" and "pl_rep (g_int_confs r) xs"
    and "\<And>n. env_grants env n" and "length xs + length opts < 2 ^ 31"
  shows "\<exists>ints. pl_rep ints (xs @ map Some (cfg_interfaces opts)) \<and>
    parse_args env (map option_arg opts) r =
      cbind (add_all (cfg_routes opts) (g_rt r)) (\<lambda>rt. cbind (build_routing_table (env_shift env) rt) (\<lambda>rt.
        Inr (1, r\<lparr>g_rt := rt, g_int_confs := ints\<rparr>)))"
  using assms(1,2,4)
proof (induction opts arbitrary: r xs)
  case Nil
  then show ?case by (intro exI [of _ "g_int_confs r"]) simp
next
  case (Cons opt opts)
  show ?case
  proof (cases opt)
    case (Interface c)
    obtain l where l: "pointer_list_append (env_grants env) (g_int_confs r) (Some c) = Inr l" "pl_rep l (xs @ [Some c])"
      using append_granted [where g = "env_grants env" and p = "Some c", OF Cons.prems(2)] assms(3) Cons.prems(3) by auto
    have p: "parse_option_p env (sys_eth (g_sys r)) (interface_text c @ [NUL]) = Inr (interface_text c @ [NUL], Some c)"
      using Cons.prems(1) assms(3) Interface by (intro parse_option_p_text) simp_all
    have "\<not> rte_eth_dev_count (sys_eth (g_sys r)) \<le> int_id c" using Cons.prems(1) Interface by (simp add: not_le)
    then show ?thesis
      using Cons.IH [of "r\<lparr>g_int_confs := l\<rparr>" "xs @ [Some c]"] Cons.prems l p Interface by simp
  next
    case (Route rt)
    obtain ip pfx mac port where rt: "rt = (ip, pfx, mac, port)" by (cases rt)
    have "pfx \<le> 32" "ether_addr_wf mac" using Cons.prems(1) Route rt by simp_all
    note p = parse_option_r_text [OF this refl, of ip port "[]" "g_rt r"]
    show ?thesis
    proof (cases "add_route ip pfx mac port (g_rt r)")
      case (Inl e)
      then show ?thesis using Cons.IH [of r xs] Cons.prems p Route rt by auto
    next
      case (Inr st)
      then show ?thesis using Cons.IH [of "r\<lparr>g_rt := st\<rparr>" xs] Cons.prems p Route rt by auto
    qed
  qed
qed

text \<open>The table built from collected routes finds the longest matching prefix among them.\<close>

fun new_route_prefix :: "new_route \<Rightarrow> uint32 \<times> nat" where
  "new_route_prefix (ip, pfx, mac, port) = (ip, unat pfx)"

fun new_route_hop :: "new_route \<Rightarrow> routing_table_entry" where
  "new_route_hop (ip, pfx, mac, port) = \<lparr>dst_mac = mac, dst_port = port\<rparr>"

definition routes_lpm :: "new_route list \<Rightarrow> uint32 \<Rightarrow> routing_table_entry option" where
  "routes_lpm rs ip = map_option (\<lambda>i. new_route_hop (rs ! i)) (lpm (\<lambda>i. new_route_prefix (rs ! i)) (length rs) ip)"

lemma added_routes_lpm:
  assumes "length rs \<le> TBLLONG_TABLE_SIZE" and pfx: "\<And>ip pfx mac port. (ip, pfx, mac, port) \<in> set rs \<Longrightarrow> 0 < pfx \<and> pfx \<le> 32"
  shows "\<exists>st rt. add_all rs rt_initial = Inr st \<and> build_routing_table sm st = Inr rt \<and> (\<forall>ip. lookup_hop rt ip = Inr (routes_lpm rs ip))"
proof -
  obtain st where st: "add_all rs rt_initial = Inr st" "rt_reachable sm st" "unat (nh_id_to_info_idx st) = length rs"
    "\<forall>i<length rs. infos_of st i = new_route_info (rs ! i)"
    using add_all_eq [OF assms(1), of sm] by blast
  note wf = reachable_wf [OF st(2)]
  have info: "prefix (new_route_info (rs ! i)) \<noteq> 0" "route_of (new_route_info (rs ! i)) = new_route_prefix (rs ! i)"
    "next_hop (new_route_info (rs ! i)) = new_route_hop (rs ! i)" "plen (new_route_info (rs ! i)) \<le> 32" if "i < length rs" for i
  proof -
    obtain ip p mac port where r: "rs ! i = (ip, p, mac, port)" by (cases "rs ! i")
    then have "0 < p" "p \<le> 32" using pfx nth_mem [OF that] by fastforce+
    then show "prefix (new_route_info (rs ! i)) \<noteq> 0" "route_of (new_route_info (rs ! i)) = new_route_prefix (rs ! i)"
      "next_hop (new_route_info (rs ! i)) = new_route_hop (rs ! i)" "plen (new_route_info (rs ! i)) \<le> 32"
      by (simp_all add: r new_info_def route_of_def word_le_nat_alt)
  qed
  have "routes_ok sm st"
    using st(3,4) wf info(1,4) by (auto simp: routes_ok_def route_ok_def rt_wf_def)
  then obtain rt where rt: "build_routing_table sm st = Inr rt" "rt_built rt (length rs)" "nh_id_to_info rt = nh_id_to_info st"
    using build_routing_table_built [of st sm] wf st(3) unfolding rt_wf_def by metis
  have infos: "infos_of rt i = new_route_info (rs ! i)" if "i < length rs" for i using st(4) rt(3) that by simp
  have "lpm (routes_of rt) (length rs) ip = lpm (\<lambda>i. new_route_prefix (rs ! i)) (length rs) ip" for ip
    by (rule lpm_cong) (simp add: routes_of_def infos info)
  then have "lpm_hop rt (length rs) ip = routes_lpm rs ip" for ip
    using lpm_less [of "\<lambda>i. new_route_prefix (rs ! i)" "length rs" ip]
    by (cases "lpm (\<lambda>i. new_route_prefix (rs ! i)) (length rs) ip") (simp_all add: lpm_hop_def routes_lpm_def infos info)
  then show ?thesis using st(1) rt(1) lookup_hop_lpm [OF rt(2)] by simp
qed

section \<open>Starting the threads\<close>

lemma print_routes_returns:
  assumes "rt_wf st"
  shows "\<exists>out. print_routes st = Inr out"
proof -
  have sz: "alen (nh_id_to_info st) = 256" and last: "\<not> in_use (infos_of st 255)"
    using assms by (simp_all add: rt_wf_def rt_sizes_def rt_size_defs)
  have "\<exists>out. print_routes_from st i = Inr out" if "i \<le> 255" for i
    using that
  proof (induction i rule: inc_induct)
    case base
    then show ?case using sz last by (subst print_routes_from.simps) simp
  next
    case (step i)
    then show ?case using sz by (subst print_routes_from.simps) auto
  qed
  then show ?thesis by (simp add: print_routes_def)
qed

text \<open>The interfaces among the first \<open>m\<close> that thread \<open>k\<close> of \<open>n\<close> gets: every \<open>n\<close>-th one.\<close>

definition share :: "nat \<Rightarrow> nat \<Rightarrow> nat \<Rightarrow> 'a list \<Rightarrow> 'a list" where
  "share n m k xs = map ((!) xs) (filter (\<lambda>i. i mod n = k) [0..<m])"

lemma share_0 [simp]: "share n 0 k xs = []"
  by (simp add: share_def)

lemma share_Suc: "share n (Suc m) k xs = share n m k xs @ (if m mod n = k then [xs ! m] else [])"
  by (simp add: share_def)

lemma length_share: "length (share n m k xs) \<le> m"
  using length_filter_le [of "\<lambda>i. i mod n = k" "[0..<m]"] by (simp add: share_def)

lemma add_threads:
  assumes g: "\<And>n. env_grants env n" and "pl_rep (g_thr_confs r) []" and n: "unat nn < 2 ^ 16"
  shows "\<exists>thrs. c_for 0 (unat nn) (add_thread env nn) r = Inr (r\<lparr>g_thr_confs := thrs\<rparr>)
    \<and> thr_list thrs (unat nn) (\<lambda>k. thread_config_init (env_grants env) (ucast nn) (of_nat k))"
proof -
  let ?T = "\<lambda>k. thread_config_init (env_grants env) (ucast nn) (of_nat k)"
  let ?I = "\<lambda>i s. \<exists>thrs. s = r\<lparr>g_thr_confs := thrs\<rparr> \<and> thr_list thrs i ?T"
  have "\<exists>s'. c_for 0 (unat nn) (add_thread env nn) r = Inr s' \<and> ?I (unat nn) s'"
  proof (rule c_for_rule)
    show "?I 0 r" using assms(2) by (intro exI [of _ "g_thr_confs r"]) (simp add: thr_list_def)
    fix i s
    assume i: "i < unat nn" and "?I i s"
    then obtain thrs where s: "s = r\<lparr>g_thr_confs := thrs\<rparr>" "thr_list thrs i ?T" by blast
    have "unat (pointer_list_len thrs) = i" using thr_list_len [OF s(2)] .
    then have q: "ucast (pointer_list_len thrs) = (of_nat i :: uint16)" by (metis of_nat_unat)
    obtain thrs' where "pointer_list_append (env_grants env) thrs (Some (?T i)) = Inr thrs'" "thr_list thrs' (Suc i) ?T"
      using thr_list_append [where g = "env_grants env", OF s(2)] g i n by auto
    then show "\<exists>s'. add_thread env nn i s = Inr s' \<and> ?I (Suc i) s'"
      using g by (auto simp: add_thread_def s(1) q)
  qed simp
  then show ?thesis by blast
qed

text \<open>Threads with their number of workers and queue, and the interfaces given to them.\<close>

definition threads :: "uint32 \<Rightarrow> (nat \<Rightarrow> interface_config list) \<Rightarrow> (nat \<Rightarrow> thread_config) \<Rightarrow> bool" where
  "threads nn ifs_of T \<longleftrightarrow> (\<forall>k<unat nn. pl_rep (thr_int_confs (T k)) (map Some (ifs_of k))
     \<and> worker_count (T k) = ucast nn \<and> q_id (T k) = of_nat k)"

lemma assign_step:
  assumes g: "\<And>n. env_grants env n" and ints: "pl_rep (g_int_confs r) (map Some ifs)" and j: "j < length ifs" "length ifs < 2 ^ 31"
    and n: "0 < unat nn" and thrs: "thr_list (g_thr_confs r) (unat nn) T"
    and T: "threads nn (\<lambda>k. share (unat nn) j k ifs) T"
  shows "\<exists>thrs T'. assign_interface env nn j r =
      cbind (configure_device (env_init env) (int_id (ifs ! j)) (ucast nn) (g_sys r)) (\<lambda>s. Inr (r\<lparr>g_sys := s, g_thr_confs := thrs\<rparr>))
    \<and> thr_list thrs (unat nn) T' \<and> threads nn (\<lambda>k. share (unat nn) (Suc j) k ifs) T'"
proof -
  let ?k = "j mod unat nn"
  have k: "?k < unat nn" using n by simp
  have c: "int_conf_at (g_int_confs r) j = Inr (ifs ! j)" using get_at [OF ints, of j] j by (simp add: int_conf_at_def)
  have rep: "pl_rep (thr_int_confs (T ?k)) (map Some (share (unat nn) j ?k ifs))" using T k by (simp add: threads_def)
  obtain l where l: "pointer_list_append (env_grants env) (thr_int_confs (T ?k)) (Some (ifs ! j)) = Inr l"
    "pl_rep l (map Some (share (unat nn) (Suc j) ?k ifs))"
    using append_granted [where g = "env_grants env" and p = "Some (ifs ! j)", OF rep] g length_share [of "unat nn" j ?k ifs] j by (auto simp: share_Suc)
  let ?T = "T(?k := (T ?k)\<lparr>thr_int_confs := l\<rparr>)"
  obtain thrs where w: "thr_conf_put ?k ((T ?k)\<lparr>thr_int_confs := l\<rparr>) (g_thr_confs r) = Inr thrs"
    "thr_list thrs (unat nn) ?T"
    using thr_conf_put_rep [OF thrs k] by blast
  have "threads nn (\<lambda>k. share (unat nn) (Suc j) k ifs) ?T" using T l(2) by (auto simp: threads_def share_Suc)
  then show ?thesis
    using w(2) by (intro exI [of _ thrs] exI [of _ ?T])
      (simp add: assign_interface_def c thr_conf_at_rep [OF thrs k] l(1) w(1) Let_def)
qed

lemma assign_all:
  assumes g: "\<And>n. env_grants env n" and "pl_rep (g_int_confs r) (map Some ifs)" and len: "length ifs < 2 ^ 31" "j \<le> length ifs"
    and n: "0 < unat nn" and "thr_list (g_thr_confs r) (unat nn) T"
    and "threads nn (\<lambda>k. share (unat nn) j k ifs) T"
  shows "\<exists>thrs T'. c_for j (length ifs) (assign_interface env nn) r =
      cbind (c_iter (map int_id (drop j ifs)) (\<lambda>port. configure_device (env_init env) port (ucast nn)) (g_sys r))
        (\<lambda>s. Inr (r\<lparr>g_sys := s, g_thr_confs := thrs\<rparr>))
    \<and> thr_list thrs (unat nn) T' \<and> threads nn (\<lambda>k. share (unat nn) (length ifs) k ifs) T'"
  using len(2) assms(2,6,7)
proof (induction j arbitrary: r T rule: inc_induct)
  case base
  then show ?case by (intro exI [of _ "g_thr_confs r"] exI [of _ T]) simp
next
  case (step j)
  obtain thrs1 T1 where a: "assign_interface env nn j r =
      cbind (configure_device (env_init env) (int_id (ifs ! j)) (ucast nn) (g_sys r)) (\<lambda>s. Inr (r\<lparr>g_sys := s, g_thr_confs := thrs1\<rparr>))"
    "thr_list thrs1 (unat nn) T1" "threads nn (\<lambda>k. share (unat nn) (Suc j) k ifs) T1"
    using assign_step [where env = env, OF _ step.prems(1) step.hyps(2) len(1) n step.prems(2,3)] g by blast
  have d: "drop j ifs = ifs ! j # drop (Suc j) ifs" using step.hyps by (simp add: Cons_nth_drop_Suc)
  show ?case
  proof (cases "configure_device (env_init env) (int_id (ifs ! j)) (ucast nn) (g_sys r)")
    case (Inl e)
    then show ?thesis
      using step.IH [of "r\<lparr>g_thr_confs := thrs1\<rparr>" T1] step.prems a step.hyps
      by (auto simp: c_for_step d)
  next
    case (Inr s)
    then show ?thesis
      using step.IH [of "r\<lparr>g_sys := s, g_thr_confs := thrs1\<rparr>" T1] step.prems a step.hyps
      by (auto simp: c_for_step d)
  qed
qed

lemma launch_all:
  assumes "thr_list (g_thr_confs r) n T" and "1 \<le> n"
  shows "c_for 1 n (start_thread r) [] = Inr (map (\<lambda>k. (k, Some (T k))) [1..<n])"
proof -
  let ?I = "\<lambda>i l. l = map (\<lambda>k. (k, Some (T k))) [1..<i]"
  have "\<exists>l. c_for 1 n (start_thread r) [] = Inr l \<and> ?I n l"
    by (rule c_for_rule [OF assms(2)])
      (use thr_list_get [OF assms(1)] in \<open>auto simp: start_thread_def DPDK_MIN_WORKER_ID_def\<close>)
  then show ?thesis by blast
qed

lemma start_router_eq:
  assumes g: "\<And>n. env_grants env n" and ints: "pl_rep (g_int_confs r) (map Some ifs)" and len: "length ifs < 2 ^ 31"
    and thrs: "pl_rep (g_thr_confs r) []" and rt: "rt_wf (g_rt r)"
    and nn: "nn = (if lcore_count = 0 then env_lcore_count env else lcore_count)" "0 < unat nn" "unat nn < 2 ^ 16"
  shows "\<exists>thrs T. start_router env run lcore_count r =
      cbind (c_iter (map int_id ifs) (\<lambda>port. configure_device (env_init env) port (ucast nn)) (g_sys r)) (\<lambda>s.
      cbind (run (map (\<lambda>k. (k, Some (T k))) [1..<unat nn]) (Some (T 0)) (r\<lparr>g_sys := s, g_thr_confs := thrs\<rparr>)) router_finalize)
    \<and> thr_list thrs (unat nn) T \<and> threads nn (\<lambda>k. share (unat nn) (length ifs) k ifs) T"
proof -
  let ?T = "\<lambda>k. thread_config_init (env_grants env) (ucast nn) (of_nat k)"
  obtain out where out: "print_routes (g_rt r) = Inr out" using print_routes_returns [OF rt] by blast
  obtain thrs1 where t1: "c_for 0 (unat nn) (add_thread env nn) r = Inr (r\<lparr>g_thr_confs := thrs1\<rparr>)"
    "thr_list thrs1 (unat nn) ?T"
    using add_threads [where env = env, OF _ thrs nn(3)] g by blast
  have T: "threads nn (\<lambda>k. share (unat nn) 0 k ifs) ?T" by (simp add: threads_def thread_config_init_def pl_rep_init)
  obtain thrs2 T2 where t2: "c_for 0 (length ifs) (assign_interface env nn) (r\<lparr>g_thr_confs := thrs1\<rparr>) =
      cbind (c_iter (map int_id ifs) (\<lambda>port. configure_device (env_init env) port (ucast nn)) (g_sys r))
        (\<lambda>s. Inr (r\<lparr>g_sys := s, g_thr_confs := thrs2\<rparr>))"
    "thr_list thrs2 (unat nn) T2" "threads nn (\<lambda>k. share (unat nn) (length ifs) k ifs) T2"
    using assign_all [where env = env, OF _ _ len _ nn(2), of "r\<lparr>g_thr_confs := thrs1\<rparr>" 0 ?T] g ints t1(2) T by auto
  have l: "unat (pointer_list_len (g_int_confs r)) = length ifs" using ints by (simp add: pl_rep_def pointer_list_len_def)
  have nz: "\<not> nn \<le> 0" using nn(2) by (simp add: word_le_nat_alt)
  have m: "pointer_list_get thrs2 0 = Inr (Some (T2 0))" using thr_list_get [OF t2(2), of 0] nn(2) by simp
  have launch: "c_for 1 (unat nn) (start_thread (r\<lparr>g_sys := s, g_thr_confs := thrs2\<rparr>)) [] = Inr (map (\<lambda>k. (k, Some (T2 k))) [1..<unat nn])" for s
    by (rule launch_all) (use t2(2) nn(2) in simp_all)
  have "start_router env run lcore_count r =
      cbind (c_iter (map int_id ifs) (\<lambda>port. configure_device (env_init env) port (ucast nn)) (g_sys r)) (\<lambda>s.
      cbind (run (map (\<lambda>k. (k, Some (T2 k))) [1..<unat nn]) (Some (T2 0)) (r\<lparr>g_sys := s, g_thr_confs := thrs2\<rparr>)) router_finalize)"
    unfolding start_router_def nn(1) [symmetric] Let_def DPDK_MIN_WORKER_ID_def DPDK_MIN_SLAVE_ID_def
    using nz out t1(1) t2 l m launch nn(2) by (simp add: print_refines [OF ints] cbind_assoc)
  then show ?thesis using t2(2,3) by blast
qed

section \<open>Finalising\<close>


section \<open>Unknown options\<close>




section \<open>An example\<close>

text \<open>A router with two lcores on the two ports of the ring driver, before it is configured.\<close>

definition two_env :: "init_env \<Rightarrow> main_env" where
  "two_env ie = \<lparr>env_grants = (\<lambda>_. True), env_heap_mac = zero_ether_addr, env_shift = ISO_C, env_init = ie, env_lcore_count = 2\<rparr>"

definition two_start :: "interface_config list \<Rightarrow> ring_hw router" where
  "two_start ifs =
     \<lparr>g_rt = rt_initial, g_int_confs = \<lparr>pl_list = Some (map (Some \<circ> Some) ifs), pl_len = of_nat (length ifs), pl_cap = of_nat (length ifs)\<rparr>,
      g_thr_confs = \<lparr>pl_list = None, pl_len = 0, pl_cap = 0\<rparr>, g_force_quit = False,
      g_sys = \<lparr>sys_eth = two_eth two_frame [], pool_id = 0\<rparr>\<rparr>"

definition two_opts :: "cfg_option list" where
  "two_opts = [Interface (two_ifs ! 0), Route (0x0A000A00, 24, two_mac 8, 0), Interface (two_ifs ! 1), Route (0x0A000A0A, 32, two_mac 9, 1)]"

lemma digit_chars:
  "digit_char 0 = CHR ''0''" "digit_char (Suc 0) = CHR ''1''" "digit_char 1 = CHR ''1''" "digit_char 2 = CHR ''2''" "digit_char 3 = CHR ''3''"
  "digit_char 4 = CHR ''4''" "digit_char 8 = CHR ''8''" "digit_char 9 = CHR ''9''"
  by code_simp+

lemma two_env_sel [simp]: "env_grants (two_env ie) n" "env_lcore_count (two_env ie) = 2" "env_init (two_env ie) = ie"
  by (simp_all add: two_env_def)

lemma two_count: "rte_eth_dev_count (two_eth D waiting) = 2"
  by (simp add: rte_eth_dev_count_def rte_eth_find_next_def count_from.simps two_eth_def two_dev_def RTE_MAX_ETHPORTS_def)

lemma two_options_ok: "list_all (option_ok (two_env ie) (sys_eth (g_sys (two_start ifs)))) two_opts"
  by (simp add: two_opts_def two_start_def two_count two_ifs_def) (simp add: two_env_def two_eth_def two_dev_def two_data_def two_mac_def ether_addr_wf_def
      rte_eth_macaddr_get_def rte_eth_dev_is_valid_port_def dev_at_def ether_addr_copy_def c_defs)

lemma two_start_lists: "length ifs < 2 ^ 31 \<Longrightarrow> pl_rep (g_int_confs (two_start ifs)) (map Some ifs)" "pl_rep (g_thr_confs (two_start ifs)) []"
  by (simp_all add: two_start_def pl_rep_def unat_of_nat32)

section \<open>Properties\<close>

text \<open>
  C38. What the options say is what the router gets. For any sequence of \<open>-p\<close> and \<open>-r\<close> options with the
  texts of interfaces that exist and of at most 255 routes with prefix lengths 1 to 32, \<open>parse_args\<close>
  returns 1; the list of interfaces then has those interfaces in their order, each with the address of its
  device, and the routing table, built, gives for every address the next hop of the longest matching prefix
  among those routes. The allocator is one that grants every request.
\<close>

theorem options_configure_router:
  assumes "list_all (option_ok env (sys_eth (g_sys r))) opts" and "\<And>n. env_grants env n" and "length opts < 2 ^ 31"
    and "length (cfg_routes opts) \<le> TBLLONG_TABLE_SIZE"
    and "\<And>ip pfx mac port. (ip, pfx, mac, port) \<in> set (cfg_routes opts) \<Longrightarrow> 0 < pfx" and "g_rt r = rt_initial"
  shows "\<exists>ints rt. parse_args env (map option_arg opts) (router_init env r) = Inr (1, (router_init env r)\<lparr>g_rt := rt, g_int_confs := ints\<rparr>)
    \<and> pl_rep ints (map Some (cfg_interfaces opts)) \<and> (\<forall>ip. lookup_hop rt ip = Inr (routes_lpm (cfg_routes opts) ip))"
proof -
  have "pfx \<le> 32" if "(ip, pfx, mac, port) \<in> set (cfg_routes opts)" for ip pfx mac port
    using assms(1) that by (induction opts rule: cfg_routes.induct) auto
  then obtain st rt where rt: "add_all (cfg_routes opts) rt_initial = Inr st" "build_routing_table (env_shift env) st = Inr rt"
    "\<forall>ip. lookup_hop rt ip = Inr (routes_lpm (cfg_routes opts) ip)"
    using added_routes_lpm [OF assms(4), of "env_shift env"] assms(5) by blast
  obtain ints where "pl_rep ints (map Some (cfg_interfaces opts))"
    "parse_args env (map option_arg opts) (router_init env r) =
      cbind (add_all (cfg_routes opts) rt_initial) (\<lambda>rt. cbind (build_routing_table (env_shift env) rt) (\<lambda>rt.
        Inr (1, (router_init env r)\<lparr>g_rt := rt, g_int_confs := ints\<rparr>)))"
    using parse_args_texts [of env "router_init env r" opts "[]"] assms(1-3,6) by (auto simp: router_init_def pl_rep_init)
  then show ?thesis using rt by auto
qed

theorem options_configure_router_witness:
  "\<forall>ie. \<exists>ints rt. parse_args (two_env ie)
       [(CHR ''p'', ''0,10.0.0.1'' @ [NUL]), (CHR ''r'', ''10.0.10.0/24,02:00:00:00:00:08,0'' @ [NUL]),
        (CHR ''p'', ''1,10.0.10.1'' @ [NUL]), (CHR ''r'', ''10.0.10.10/32,02:00:00:00:00:09,1'' @ [NUL])]
       (router_init (two_env ie) (two_start [])) = Inr (1, (router_init (two_env ie) (two_start []))\<lparr>g_rt := rt, g_int_confs := ints\<rparr>)
     \<and> pl_rep ints (map Some two_ifs)
     \<and> lookup_hop rt 0x0A000A0A = Inr (Some \<lparr>dst_mac = two_mac 9, dst_port = 1\<rparr>)
     \<and> lookup_hop rt 0x0A000A0B = Inr (Some \<lparr>dst_mac = two_mac 8, dst_port = 0\<rparr>) \<and> lookup_hop rt 0x0B000A0B = Inr None"
    (is "\<forall>ie. ?P ie")
proof
  fix ie
  have t: "map option_arg two_opts = [(CHR ''p'', ''0,10.0.0.1'' @ [NUL]), (CHR ''r'', ''10.0.10.0/24,02:00:00:00:00:08,0'' @ [NUL]),
        (CHR ''p'', ''1,10.0.10.1'' @ [NUL]), (CHR ''r'', ''10.0.10.10/32,02:00:00:00:00:09,1'' @ [NUL])]"
    by (simp add: two_opts_def two_ifs_def interface_text_def dotted_def ipv4_octet_def fmt_u.simps fmt_02X_def ether_text_def two_mac_def digit_chars)
  have c: "cfg_interfaces two_opts = two_ifs" "cfg_routes two_opts = [(0x0A000A00, 24, two_mac 8, 0), (0x0A000A0A, 32, two_mac 9, 1)]"
    by (simp_all add: two_opts_def two_ifs_def)
  have look: "routes_lpm (cfg_routes two_opts) 0x0A000A0A = Some \<lparr>dst_mac = two_mac 9, dst_port = 1\<rparr>"
    "routes_lpm (cfg_routes two_opts) 0x0A000A0B = Some \<lparr>dst_mac = two_mac 8, dst_port = 0\<rparr>"
    "routes_lpm (cfg_routes two_opts) 0x0B000A0B = None"
    by (simp_all add: c routes_lpm_def lpm_better_def prefix_matches_def)
  have "\<exists>ints rt. parse_args (two_env ie) (map option_arg two_opts) (router_init (two_env ie) (two_start []))
      = Inr (1, (router_init (two_env ie) (two_start []))\<lparr>g_rt := rt, g_int_confs := ints\<rparr>)
    \<and> pl_rep ints (map Some (cfg_interfaces two_opts)) \<and> (\<forall>ip. lookup_hop rt ip = Inr (routes_lpm (cfg_routes two_opts) ip))"
    by (rule options_configure_router [OF two_options_ok])
      (auto simp: c two_opts_def two_env_def two_start_def TBLLONG_TABLE_SIZE_def)
  then show "?P ie" unfolding t c(1) look [symmetric] by blast
qed

text \<open>
  C39. \<open>start_router\<close> spreads the interfaces evenly. With \<open>n\<close> lcores, from 1 to 65535, it configures the
  device of every interface with \<open>n\<close> queues, and, when none of them fails, launches \<open>n\<close> threads, one on each
  lcore and the one of the master lcore last. Thread \<open>k\<close> sends on queue \<open>k\<close> and receives from \<open>n\<close> queues, and
  has the interfaces whose number is \<open>k\<close> modulo \<open>n\<close>, in their order. When the threads have returned
  the router is finalised. The allocator is one that grants every request.
\<close>

theorem start_router_round_robin:
  assumes "\<And>n. env_grants env n" and "pl_rep (g_int_confs r) (map Some ifs)" and "length ifs < 2 ^ 31"
    and "pl_rep (g_thr_confs r) []" and "rt_wf (g_rt r)"
    and "nn = (if lcore_count = 0 then env_lcore_count env else lcore_count)" and "0 < unat nn" and "unat nn < 2 ^ 16"
  shows "\<exists>thrs T. start_router env run lcore_count r =
      cbind (c_iter (map int_id ifs) (\<lambda>port. configure_device (env_init env) port (ucast nn)) (g_sys r)) (\<lambda>s.
      cbind (run (map (\<lambda>k. (k, Some (T k))) [1..<unat nn]) (Some (T 0)) (r\<lparr>g_sys := s, g_thr_confs := thrs\<rparr>)) router_finalize)
    \<and> pl_rep thrs (map (Some \<circ> T) [0..<unat nn])
    \<and> (\<forall>k. k < unat nn \<longrightarrow> worker_count (T k) = ucast nn \<and> q_id (T k) = of_nat k
         \<and> pl_rep (thr_int_confs (T k)) (map (\<lambda>i. Some (ifs ! i)) (filter (\<lambda>i. i mod unat nn = k) [0..<length ifs])))"
proof -
  obtain thrs T where *: "start_router env run lcore_count r =
      cbind (c_iter (map int_id ifs) (\<lambda>port. configure_device (env_init env) port (ucast nn)) (g_sys r)) (\<lambda>s.
      cbind (run (map (\<lambda>k. (k, Some (T k))) [1..<unat nn]) (Some (T 0)) (r\<lparr>g_sys := s, g_thr_confs := thrs\<rparr>)) router_finalize)"
    "thr_list thrs (unat nn) T" "threads nn (\<lambda>k. share (unat nn) (length ifs) k ifs) T"
    using start_router_eq [where env = env, OF _ assms(2-8)] assms(1) by blast
  have "Some \<circ> (!) ifs = (\<lambda>i. Some (ifs ! i))" by auto
  then show ?thesis
    using * unfolding thr_list_def threads_def share_def by (intro exI [of _ thrs] exI [of _ T]) simp
qed

theorem start_router_round_robin_witness:
  "\<forall>ie run. let ifs = two_ifs @ [hd two_ifs] in \<exists>thrs (T :: nat \<Rightarrow> thread_config). start_router (two_env ie) run 0 (two_start ifs) =
      cbind (c_iter [0, 1, 0] (\<lambda>port. configure_device ie port 2) (g_sys (two_start ifs))) (\<lambda>s.
      cbind (run [(1, Some (T 1))] (Some (T 0)) ((two_start ifs)\<lparr>g_sys := s, g_thr_confs := thrs\<rparr>)) router_finalize)
    \<and> pl_rep (thr_int_confs (T 0)) [Some (ifs ! 0), Some (ifs ! 2)] \<and> pl_rep (thr_int_confs (T 1)) [Some (ifs ! 1)]
    \<and> q_id (T 0) = 0 \<and> q_id (T 1) = 1"
    (is "\<forall>ie run. ?P ie run")
proof (intro allI)
  fix ie run
  let ?ifs = "two_ifs @ [hd two_ifs]"
  have len: "length ?ifs = 3" "map int_id ?ifs = [0, 1, 0]" by (simp_all add: two_ifs_def)
  have f: "filter (\<lambda>i. i mod 2 = 0) [0..<3] = [0, 2 :: nat]" "filter (\<lambda>i. i mod 2 = 1) [0..<3] = [1 :: nat]" "[1..<2] = [1 :: nat]"
    by (simp_all add: upt_rec)
  have wf: "rt_wf (g_rt (two_start ?ifs))" using rt_wf_initial by (simp add: two_start_def)
  obtain thrs T where r: "start_router (two_env ie) run 0 (two_start ?ifs) =
      cbind (c_iter (map int_id ?ifs) (\<lambda>port. configure_device (env_init (two_env ie)) port (ucast (2 :: uint32))) (g_sys (two_start ?ifs))) (\<lambda>s.
      cbind (run (map (\<lambda>k. (k, Some (T k))) [1..<unat (2 :: uint32)]) (Some (T 0)) ((two_start ?ifs)\<lparr>g_sys := s, g_thr_confs := thrs\<rparr>)) router_finalize)"
    and T: "\<And>k. k < unat (2 :: uint32) \<Longrightarrow> q_id (T k) = of_nat k
         \<and> pl_rep (thr_int_confs (T k)) (map (\<lambda>i. Some (?ifs ! i)) (filter (\<lambda>i. i mod unat (2 :: uint32) = k) [0..<length ?ifs]))"
    using start_router_round_robin [where env = "two_env ie" and nn = 2 and lcore_count = 0 and run = run,
        OF _ two_start_lists(1) [of ?ifs] _ two_start_lists(2) wf] len(1) by auto
  have "ucast (2 :: uint32) = (2 :: uint16)" "unat (2 :: uint32) = 2" by simp_all
  note r = r [unfolded len(2) this f(3) two_env_sel(3) list.map] and T = T [unfolded this len(1)]
  have "pl_rep (thr_int_confs (T 0)) [Some (?ifs ! 0), Some (?ifs ! 2)] \<and> q_id (T 0) = 0"
    "pl_rep (thr_int_confs (T 1)) [Some (?ifs ! 1)] \<and> q_id (T 1) = 1"
    using T [of 0] T [of 1] f(1,2) by simp_all
  then show "?P ie run" unfolding Let_def using r by blast
qed



end
