(* ===== verification/Spec2Isabelle.thy ===== *)
theory Spec2Isabelle
  imports RoutingTable_Props Tables Utils Ip Router_Props RouterMain_Props
begin

text \<open>
  \<^bold>\<open>A verification development for the DPDK router.\<close>

  The program is a software router on top of DPDK: it reads routes from its command line, builds a
  two-level lookup table from them, receives Ethernet frames from the ports it is attached to, and
  forwards IPv4 packets to the next hop of the longest matching route. The DPDK sources it is built
  with are part of the repository; the parts of them that the router calls are modelled too.

  \<^bold>\<open>How C is modelled.\<close> \<open>CPrelude\<close> gives machine integers as words, results that may stop the program
  (\<open>c_error\<close>: an exit, an access out of bounds or through a null pointer, an undefined shift, an
  uninitialised read, a failed allocation, a division by zero, a loop that has not ended within its
  fuel), counted loops over an explicit state, and arrays with checked accesses. That an operation
  returns \<open>Inr\<close> is therefore also a statement that none of these happen. \<open>CString\<close> has character arrays,
  \<open>atoi\<close>, \<open>strtol\<close> and the formats of \<open>printf\<close> that are used; \<open>Bytes\<close> has byte order.

  \<^bold>\<open>The parts.\<close>
  \<^item> \<^verbatim>\<open>routing_table.c\<close>: \<open>RoutingTable\<close> (state, collecting routes, building, lookup), \<open>RoutingTable_Correct\<close>
    (what building does to every cell), \<open>LPM\<close> (longest prefix match as a specification),
    \<open>RoutingTable_Props\<close> (lookup is longest prefix match; what is undefined; bounds; invariants).
  \<^item> \<^verbatim>\<open>dummy_routing_table.c\<close> and \<^verbatim>\<open>utils/pointer_list.c\<close>: \<open>DummyTable\<close>, \<open>PointerList\<close>; \<open>Tables\<close> shows that the
    two routing tables give the same next hops.
  \<^item> \<^verbatim>\<open>utils/utils.c\<close>: \<open>Utils\<close>, the address parsers: what they accept, and that they read back what is printed.
  \<^item> \<^verbatim>\<open>librte_net\<close>: \<open>Ether\<close>, \<open>Ip\<close>: headers as byte sequences, addresses, checksums.
  \<^item> \<^verbatim>\<open>librte_ring\<close>: \<open>Ring\<close>: a ring is a bounded queue, also when its indices wrap around.
  \<^item> \<^verbatim>\<open>librte_mempool\<close>: \<open>Mempool\<close> (model), \<open>Mempool_Correct\<close> (the caches and the ring hold the free objects),
    \<open>Mempool_Props\<close> (no object is lost or handed out twice, layout of the objects).
  \<^item> \<^verbatim>\<open>librte_mbuf\<close>: \<open>Mbuf\<close> (model), \<open>Mbuf_Correct\<close> (reference counts), \<open>Mbuf_Owner\<close> (the interface for programs
    that hold packets), \<open>Mbuf_Data\<close> (the data of a packet across segments), \<open>Mbuf_Props\<close>.
  \<^item> \<^verbatim>\<open>librte_ether\<close>: \<open>Ethdev\<close>: the device table, with a driver as the record of its functions.
  \<^item> \<^verbatim>\<open>drivers/net/ring\<close>: \<open>RingPmd\<close>: a driver whose ports are rings.
  \<^item> \<^verbatim>\<open>dpdk_init.c\<close>: \<open>DpdkInit\<close>: pools, configuring a device, receiving from all its queues.
  \<^item> \<^verbatim>\<open>router.c\<close>: \<open>Router\<close>: the handlers of frames, IPv4 packets and ARP requests as functions on the devices
    and the packet memory, and the worker thread as a step relation; \<open>Router_Correct\<close>: what is to be done with a frame, as a
    function on its bytes, and that handlers, rounds and threads do it on any ports that keep the contract \<open>port_io\<close>;
    \<open>Router_Ring\<close>: ports of the ring driver keep it; \<open>Router_Props\<close>.
  \<^item> \<^verbatim>\<open>router.c\<close> and \<^verbatim>\<open>main.c\<close>, configuration: \<open>RouterMain\<close>: the option parsers, \<open>parse_args\<close>, \<open>start_router\<close>,
    \<open>router_finalize\<close> and \<open>main\<close>, with the static variables as the record \<open>router\<close>; \<open>RouterMain_Props\<close>: the options give the
    interfaces and the table they describe, the interfaces are spread evenly over the threads, and what an unknown option leads to.

  \<^bold>\<open>Interfaces.\<close> Where one part relies on another the contract is a locale, interpreted on the model's
  own operations: \<open>pointer_seq\<close> (pointer list), \<open>object_pool\<close> (pools), \<open>packet_store\<close> (packet buffers), \<open>port_io\<close> (ports that
  receive and send packets) and those of the routing tables and rings.

  \<^bold>\<open>Parameters.\<close> Whether memory is granted, where memory zones lie and what they look like to the hardware,
  and the number of memory channels are parameters (\<open>eal_env\<close>, \<open>eth_env\<close>, \<open>main_env\<close>, \<open>grants\<close>); \<open>env_ok\<close> says what is
  relied on, and a concrete environment satisfies it. The shift of a value by its width is a parameter
  as well (\<open>shift_model\<close>). So are the results of \<open>getopt\<close> and the launching of threads on lcores, which \<open>start_router\<close> gets
  as the argument \<open>run\<close>; what a thread does is the relation \<open>router_thread\<close>.

  \<^bold>\<open>Fuel.\<close> The search for an object size gets at least as much fuel as there are memory channels times
  ranks, which is enough (\<open>object_size_fits\<close>). Loops over the segments of a packet get 32767, the largest
  number of buffers for which the 16-bit reference counts cannot overflow.

  \<^bold>\<open>Not modelled.\<close> The EAL (start of lcores, memory, PCI and device probing), drivers other than the ring driver,
  the DPDK libraries the router does not call, DPDK's applications, examples and tests, the separate program
  \<^verbatim>\<open>forwarder/fwd.c\<close>, the texts of \<open>usage\<close> and of error messages, the tests, and the build system. Several lcores run on the same ring or pool only one operation after the other; the interleaving of
  their instructions is not modelled.
\<close>

end
